(* ===== verification/Prelude.thy ===== *)
theory Prelude
  imports Main "HOL-Library.Word"
begin

text \<open>
  The shared base of the development: names for the machine integers of the C++
  sources, the collections of simplification rules the components add to, and the
  facts on lists, options and words that more than one component uses.
\<close>

unbundle bit_operations_syntax

subsection \<open>Machine integers\<close>

type_synonym u8 = "8 word"
type_synonym u16 = "16 word"
type_synonym u32 = "32 word"
type_synonym u64 = "64 word"
type_synonym bytes = "8 word list"

text \<open>
  \<open>val_simps\<close> collects the equations that give the number a machine representation
  stands for.
\<close>

named_theorems val_simps

subsection \<open>Words\<close>

lemma unat_take_bit: "unat (take_bit n (x :: 'a::len word)) = unat x mod 2 ^ n"
  by (simp add: unsigned_take_bit_eq take_bit_eq_mod [where ?'a = nat])

lemma unat_drop_bit: "unat (drop_bit n (x :: 'a::len word)) = unat x div 2 ^ n"
  by (simp add: unat_drop_bit_eq drop_bit_eq_div [where ?'a = nat])

lemma unat_push_bit:
  "unat (push_bit n (x :: 'a::len word)) = (unat x * 2 ^ n) mod 2 ^ LENGTH('a)"
  by (simp add: unsigned_push_bit_eq take_bit_eq_mod [where ?'a = nat] push_bit_eq_mult [where ?'a = nat])

lemma unat_ucast:
  "unat (ucast (x :: 'a::len word) :: 'b::len word) = unat x mod 2 ^ LENGTH('b)"
  by (simp add: unsigned_ucast_eq take_bit_eq_mod [where ?'a = nat])

lemma unat_ucast_up:
  "LENGTH('a) \<le> LENGTH('b) \<Longrightarrow> unat (ucast (x :: 'a::len word) :: 'b::len word) = unat x"
proof -
  assume "LENGTH('a) \<le> LENGTH('b)"
  then have "(2 :: nat) ^ LENGTH('a) \<le> 2 ^ LENGTH('b)" by (simp add: power_increasing)
  then have "unat x < 2 ^ LENGTH('b)" using unsigned_less [of x, where ?'a = nat] by linarith
  then show ?thesis by (simp add: unat_ucast)
qed

lemma ucast_ucast_up:
  "LENGTH('a) \<le> LENGTH('b) \<Longrightarrow> ucast (ucast (x :: 'a::len word) :: 'b::len word) = x"
  by (simp only: word_unat_eq_iff unat_ucast [of "ucast x"] unat_ucast_up) (simp add: unsigned_less)

lemmas unat_word_bits = unat_take_bit unat_drop_bit unat_push_bit unat_ucast

lemma bit_unat_iff: "bit (unat (x :: 'a::len word)) n \<longleftrightarrow> bit x n"
  by (auto simp: bit_unsigned_iff dest: bit_imp_le_length)

lemma bit_unat_less: "unat (x :: 'a::len word) < 2 ^ n \<Longrightarrow> bit x m \<Longrightarrow> m < n"
proof (rule ccontr)
  assume x: "unat x < 2 ^ n" "bit x m" and "\<not> m < n"
  then have "(2 :: nat) ^ n \<le> 2 ^ m" by (simp add: power_increasing)
  then have "unat x div 2 ^ m = 0" using x(1) by (intro div_less) linarith
  then have "\<not> bit (unat x) m" by (simp add: bit_iff_odd)
  then show False using x(2) by (simp add: bit_unat_iff)
qed

lemma and_mask_eq_take_bit: "m = mask n \<Longrightarrow> (x :: 'a::len word) AND m = take_bit n x"
  by (simp add: take_bit_eq_mask)

lemma unat_or_disjoint:
  fixes x y :: "'a::len word"
  assumes "unat x < 2 ^ n" "\<And>m. m < n \<Longrightarrow> \<not> bit y m"
  shows "unat (x OR y) = unat x + unat y"
proof -
  have "unat x AND unat y = 0"
    using bit_unat_less [OF assms(1)] assms(2) by (intro bit_eqI) (auto simp: bit_simps bit_unat_iff)
  then have "unat x + unat y = unat x OR unat y" by (rule disjunctive_add_eq_or)
  then show ?thesis by (simp add: unsigned_or_eq)
qed

lemma unat_low32 [val_simps]: "unat (n AND 0xffffffff :: u64) = unat n mod 4294967296"
  by (simp add: and_mask_eq_take_bit [of _ 32] mask_eq_exp_minus_1 unat_take_bit)

lemma unat_ucast_low32 [val_simps]:
  "unat (ucast (n AND 0xffffffff :: u64) :: u32) = unat n mod 4294967296"
  by (simp add: val_simps unat_word_bits)

lemma unat_high32 [val_simps]: "unat (drop_bit 32 (n :: u64)) = unat n div 4294967296"
  by (simp add: unat_word_bits)

lemma unat_ucast_up32 [val_simps]: "unat (ucast (x :: u32) :: u64) = unat x"
  using unsigned_less [of x, where ?'a = nat] by (simp add: unat_word_bits)

lemma unat_u32_less [simp]: "unat (x :: u32) < 4294967296"
  using unsigned_less [of x, where ?'a = nat] by simp

lemma unat_u64_less [simp]: "unat (x :: u64) < 18446744073709551616"
  using unsigned_less [of x, where ?'a = nat] by simp

lemma unat_u16_less [simp]: "unat (x :: u16) < 65536"
  using unsigned_less [of x, where ?'a = nat] by simp

lemma unat_u8_less [simp]: "unat (x :: u8) < 256"
  using unsigned_less [of x, where ?'a = nat] by simp

subsection \<open>Numbers\<close>

lemma mod_base_Cons:
  fixes x y :: nat
  assumes "x < b"
  shows "(x + b * y) mod (b * m) = x + b * (y mod m)"
  using assms by (simp add: mod_mult2_eq)

subsection \<open>Fallible computations\<close>

text \<open>Sequencing of computations that may raise: the first error is the result.\<close>

definition bindE :: "'e + 'a \<Rightarrow> ('a \<Rightarrow> 'e + 'b) \<Rightarrow> 'e + 'b" where
  "bindE m f = (case m of Inl e \<Rightarrow> Inl e | Inr x \<Rightarrow> f x)"

lemma bindE_simps [simp]: "bindE (Inl e) f = Inl e" "bindE (Inr x) f = f x"
  by (simp_all add: bindE_def)

lemma bindE_eq_Inr: "bindE m f = Inr y \<longleftrightarrow> (\<exists>x. m = Inr x \<and> f x = Inr y)"
  by (cases m) simp_all

lemma bindE_eq_Inl: "bindE m f = Inl e \<longleftrightarrow> m = Inl e \<or> (\<exists>x. m = Inr x \<and> f x = Inl e)"
  by (cases m) simp_all

definition deref :: "'e \<Rightarrow> ('a \<rightharpoonup> 'b) \<Rightarrow> 'a \<Rightarrow> 'e + 'b" where
  "deref e h p = (case h p of None \<Rightarrow> Inl e | Some b \<Rightarrow> Inr b)"

lemma deref_Some [simp]: "h p = Some b \<Longrightarrow> deref e h p = Inr b"
  by (simp add: deref_def)

lemma deref_None [simp]: "h p = None \<Longrightarrow> deref e h p = Inl e"
  by (simp add: deref_def)

lemma deref_upd [simp]: "deref e (h(p \<mapsto> b)) q = (if q = p then Inr b else deref e h q)"
  by (simp add: deref_def)

subsection \<open>Binary search\<close>

text \<open>\<open>std::lower_bound\<close> on the positions \<open>first .. first + len - 1\<close>; \<open>pred i\<close> compares the
  element at position \<open>i\<close> with the value sought and may raise.\<close>

function lower_bound :: "(nat \<Rightarrow> 'e + bool) \<Rightarrow> nat \<Rightarrow> nat \<Rightarrow> 'e + nat" where
  "lower_bound pred first len =
     (if len = 0 then Inr first
      else bindE (pred (first + len div 2)) (\<lambda>lt.
        if lt then lower_bound pred (first + len div 2 + 1) (len - len div 2 - 1)
        else lower_bound pred first (len div 2)))"
  by pat_completeness auto
termination
  by (relation "measure (\<lambda>(pred, first, len). len)") auto

declare lower_bound.simps [simp del]

lemma lower_bound_least:
  assumes "\<And>i. first \<le> i \<Longrightarrow> i < first + len \<Longrightarrow> pred i = Inr (P i)"
    and "\<And>i j. first \<le> i \<Longrightarrow> i \<le> j \<Longrightarrow> j < first + len \<Longrightarrow> P j \<Longrightarrow> P i"
  shows "\<exists>k. lower_bound pred first len = Inr k \<and> first \<le> k \<and> k \<le> first + len \<and>
     (\<forall>i. first \<le> i \<longrightarrow> i < k \<longrightarrow> P i) \<and> (\<forall>i. k \<le> i \<longrightarrow> i < first + len \<longrightarrow> \<not> P i)"
  using assms
proof (induction pred first len rule: lower_bound.induct)
  case (1 pred first len)
  show ?case
  proof (cases "len = 0")
    case True
    then show ?thesis by (simp add: lower_bound.simps)
  next
    case False
    let ?mid = "first + len div 2"
    have mid: "first \<le> ?mid" "?mid < first + len" using False by auto
    show ?thesis
    proof (cases "P ?mid")
      case True
      have "\<exists>k. lower_bound pred (?mid + 1) (len - len div 2 - 1) = Inr k \<and> ?mid + 1 \<le> k \<and>
          k \<le> ?mid + 1 + (len - len div 2 - 1) \<and> (\<forall>i. ?mid + 1 \<le> i \<longrightarrow> i < k \<longrightarrow> P i) \<and>
          (\<forall>i. k \<le> i \<longrightarrow> i < ?mid + 1 + (len - len div 2 - 1) \<longrightarrow> \<not> P i)"
        by (rule "1.IH"(1) [OF False, of True]) (use True False "1.prems" in auto)
      then obtain k where k: "lower_bound pred (?mid + 1) (len - len div 2 - 1) = Inr k" "?mid + 1 \<le> k"
          "k \<le> first + len" "\<forall>i. ?mid + 1 \<le> i \<longrightarrow> i < k \<longrightarrow> P i" "\<forall>i. k \<le> i \<longrightarrow> i < first + len \<longrightarrow> \<not> P i"
        using False by auto
      have "P i" if "first \<le> i" "i < k" for i
        using that k(4) "1.prems"(2) [of i ?mid] mid True by (cases "i \<le> ?mid") auto
      then show ?thesis
        using k mid False True "1.prems"(1) [of ?mid] by (subst lower_bound.simps) auto
    next
      case nP: False
      have "\<exists>k. lower_bound pred first (len div 2) = Inr k \<and> first \<le> k \<and> k \<le> ?mid \<and>
          (\<forall>i. first \<le> i \<longrightarrow> i < k \<longrightarrow> P i) \<and> (\<forall>i. k \<le> i \<longrightarrow> i < ?mid \<longrightarrow> \<not> P i)"
        by (rule "1.IH"(2) [OF False, of False]) (use nP False "1.prems" in auto)
      then obtain k where k: "lower_bound pred first (len div 2) = Inr k" "first \<le> k" "k \<le> ?mid"
          "\<forall>i. first \<le> i \<longrightarrow> i < k \<longrightarrow> P i" "\<forall>i. k \<le> i \<longrightarrow> i < ?mid \<longrightarrow> \<not> P i"
        by auto
      have "\<not> P i" if "k \<le> i" "i < first + len" for i
        using that k(5) "1.prems"(2) [of ?mid i] mid nP by (cases "i < ?mid") auto
      then show ?thesis
        using k mid False nP "1.prems"(1) [of ?mid] by (subst lower_bound.simps) auto
    qed
  qed
qed

end
