(* ===== verification/Arith_Uint256.thy ===== *)
theory Arith_Uint256
  imports Prelude
begin

text \<open>
  The fixed-width unsigned integers of \<^verbatim>\<open>src/src/arith_uint256.h\<close> and
  \<^verbatim>\<open>src/src/arith_uint256.cpp\<close>. A \<^verbatim>\<open>base_uint<BITS>\<close> is the array \<open>pn\<close>
  of \<open>WIDTH\<close> 32-bit limbs, least significant limb first. The model is the list of the
  limbs; \<open>WIDTH\<close> is the length of the list, so every operation is defined for every
  width, and \<open>arith_uint256\<close> is the lists of length 8. \<open>limbs_val\<close> is the number
  a list of limbs stands for.
\<close>

type_synonym base_uint = "u32 list"

definition WIDTH :: nat where
  "WIDTH = 8"

definition is_arith256 :: "base_uint \<Rightarrow> bool" where
  "is_arith256 a \<longleftrightarrow> length a = WIDTH"

fun limbs_val :: "base_uint \<Rightarrow> nat" where
  "limbs_val [] = 0"
| "limbs_val (x # xs) = unat x + 4294967296 * limbs_val xs"

subsection \<open>Constructors and bitwise operators\<close>

definition uint_zero :: "nat \<Rightarrow> base_uint" where
  "uint_zero w = replicate w 0"

definition uint_of_u64 :: "nat \<Rightarrow> u64 \<Rightarrow> base_uint" where
  "uint_of_u64 w b = ucast b # ucast (drop_bit 32 b) # replicate (w - 2) 0"

definition uint_is_zero :: "base_uint \<Rightarrow> bool" where
  "uint_is_zero a \<longleftrightarrow> list_all (\<lambda>x. x = 0) a"

definition uint_not :: "base_uint \<Rightarrow> base_uint" where
  "uint_not a = map NOT a"

definition uint_xor :: "base_uint \<Rightarrow> base_uint \<Rightarrow> base_uint" where
  "uint_xor a b = map2 (XOR) a b"

definition uint_and :: "base_uint \<Rightarrow> base_uint \<Rightarrow> base_uint" where
  "uint_and a b = map2 (AND) a b"

definition uint_or :: "base_uint \<Rightarrow> base_uint \<Rightarrow> base_uint" where
  "uint_or a b = map2 (OR) a b"

definition uint_xor_u64 :: "base_uint \<Rightarrow> u64 \<Rightarrow> base_uint" where
  "uint_xor_u64 a b = (let a1 = a[0 := a ! 0 XOR ucast b]
                       in a1[1 := a1 ! 1 XOR ucast (drop_bit 32 b)])"

definition uint_or_u64 :: "base_uint \<Rightarrow> u64 \<Rightarrow> base_uint" where
  "uint_or_u64 a b = (let a1 = a[0 := a ! 0 OR ucast b]
                      in a1[1 := a1 ! 1 OR ucast (drop_bit 32 b)])"

subsection \<open>Increment, addition, subtraction\<close>

text \<open>\<open>while (++pn[i] == 0 && i < WIDTH-1) i++\<close>\<close>

fun uint_incr :: "base_uint \<Rightarrow> base_uint" where
  "uint_incr [] = []"
| "uint_incr (x # xs) =
     (let y = x + 1 in if y = 0 \<and> xs \<noteq> [] then y # uint_incr xs else y # xs)"

fun uint_decr :: "base_uint \<Rightarrow> base_uint" where
  "uint_decr [] = []"
| "uint_decr (x # xs) =
     (let y = x - 1 in if y = - 1 \<and> xs \<noteq> [] then y # uint_decr xs else y # xs)"

definition uint_neg :: "base_uint \<Rightarrow> base_uint" where
  "uint_neg a = uint_incr (map NOT a)"

fun uint_add_loop :: "u64 \<Rightarrow> base_uint \<Rightarrow> base_uint \<Rightarrow> base_uint" where
  "uint_add_loop carry (p # ps) (b # bs) =
     (let n = carry + ucast p + ucast b
      in ucast (n AND 0xffffffff) # uint_add_loop (drop_bit 32 n) ps bs)"
| "uint_add_loop carry _ _ = []"

definition uint_add :: "base_uint \<Rightarrow> base_uint \<Rightarrow> base_uint" where
  "uint_add a b = uint_add_loop 0 a b"

definition uint_sub :: "base_uint \<Rightarrow> base_uint \<Rightarrow> base_uint" where
  "uint_sub a b = uint_add a (uint_neg b)"

definition uint_add_u64 :: "base_uint \<Rightarrow> u64 \<Rightarrow> base_uint" where
  "uint_add_u64 a b64 = uint_add a (uint_of_u64 (length a) b64)"

definition uint_sub_u64 :: "base_uint \<Rightarrow> u64 \<Rightarrow> base_uint" where
  "uint_sub_u64 a b64 = uint_add a (uint_neg (uint_of_u64 (length a) b64))"

subsection \<open>Multiplication\<close>

fun uint_mul32_loop :: "u64 \<Rightarrow> u32 \<Rightarrow> base_uint \<Rightarrow> base_uint" where
  "uint_mul32_loop carry b32 [] = []"
| "uint_mul32_loop carry b32 (p # ps) =
     (let n = carry + ucast b32 * ucast p
      in ucast (n AND 0xffffffff) # uint_mul32_loop (drop_bit 32 n) b32 ps)"

definition uint_mul32 :: "base_uint \<Rightarrow> u32 \<Rightarrow> base_uint" where
  "uint_mul32 a b32 = uint_mul32_loop 0 b32 a"

text \<open>
  The inner loop of \<open>operator*=\<close> for one limb \<open>a.pn[j]\<close>: it runs over the limbs
  \<open>pn[j]\<close>, \<open>pn[j+1]\<close>, \dots and the limbs of \<open>b\<close> until \<open>i + j\<close> is \<open>WIDTH\<close>.
\<close>

fun uint_mul_row :: "u64 \<Rightarrow> u32 \<Rightarrow> base_uint \<Rightarrow> base_uint \<Rightarrow> base_uint" where
  "uint_mul_row carry aj (p # ps) (b # bs) =
     (let n = carry + ucast p + ucast aj * ucast b
      in ucast (n AND 0xffffffff) # uint_mul_row (drop_bit 32 n) aj ps bs)"
| "uint_mul_row carry aj ps _ = ps"

fun uint_mul_loop :: "nat \<Rightarrow> base_uint \<Rightarrow> base_uint \<Rightarrow> base_uint \<Rightarrow> base_uint" where
  "uint_mul_loop j [] b pn = pn"
| "uint_mul_loop j (aj # as) b pn =
     uint_mul_loop (Suc j) as b (take j pn @ uint_mul_row 0 aj (drop j pn) b)"

definition uint_mul :: "base_uint \<Rightarrow> base_uint \<Rightarrow> base_uint" where
  "uint_mul a b = uint_mul_loop 0 a b (uint_zero (length a))"

subsection \<open>Shifts\<close>

text \<open>One iteration of the loop of \<open>operator<<=\<close>, with \<open>k = shift / 32\<close> and
  \<open>s = shift % 32\<close>.\<close>

definition uint_shl_step :: "base_uint \<Rightarrow> nat \<Rightarrow> nat \<Rightarrow> nat \<Rightarrow> base_uint \<Rightarrow> base_uint" where
  "uint_shl_step a k s i pn =
     (let pn1 = (if i + k + 1 < length a \<and> s \<noteq> 0
                 then pn[i + k + 1 := pn ! (i + k + 1) OR drop_bit (32 - s) (a ! i)] else pn)
      in if i + k < length a then pn1[i + k := pn1 ! (i + k) OR push_bit s (a ! i)] else pn1)"

definition uint_shl :: "base_uint \<Rightarrow> nat \<Rightarrow> base_uint" where
  "uint_shl a shift =
     fold (uint_shl_step a (shift div 32) (shift mod 32)) [0..<length a] (uint_zero (length a))"

definition uint_shr_step :: "base_uint \<Rightarrow> nat \<Rightarrow> nat \<Rightarrow> nat \<Rightarrow> base_uint \<Rightarrow> base_uint" where
  "uint_shr_step a k s i pn =
     (let pn1 = (if i \<ge> k + 1 \<and> s \<noteq> 0
                 then pn[i - k - 1 := pn ! (i - k - 1) OR push_bit (32 - s) (a ! i)] else pn)
      in if i \<ge> k then pn1[i - k := pn1 ! (i - k) OR drop_bit s (a ! i)] else pn1)"

definition uint_shr :: "base_uint \<Rightarrow> nat \<Rightarrow> base_uint" where
  "uint_shr a shift =
     fold (uint_shr_step a (shift div 32) (shift mod 32)) [0..<length a] (uint_zero (length a))"

subsection \<open>Comparison, bit length, division\<close>

text \<open>
  \<open>CompareTo\<close> walks from the most significant limb; the model walks the reversed
  lists. Its result is the C++ \<open>int\<close> -1, 0 or 1.
\<close>

fun uint_compare_loop :: "base_uint \<Rightarrow> base_uint \<Rightarrow> int" where
  "uint_compare_loop (x # xs) (y # ys) =
     (if x < y then - 1 else if x > y then 1 else uint_compare_loop xs ys)"
| "uint_compare_loop _ _ = 0"

definition uint_CompareTo :: "base_uint \<Rightarrow> base_uint \<Rightarrow> int" where
  "uint_CompareTo a b = uint_compare_loop (rev a) (rev b)"

definition uint_EqualTo :: "base_uint \<Rightarrow> u64 \<Rightarrow> bool" where
  "uint_EqualTo a b \<longleftrightarrow>
     list_all (\<lambda>x. x = 0) (drop 2 a) \<and> ucast (a ! 1) = drop_bit 32 b
       \<and> ucast (a ! 0) = b AND 0xffffffff"

text \<open>The inner loop of \<open>bits()\<close>: \<open>for (nbits = 31; nbits > 0; nbits--)\<close>.\<close>

fun limb_bits :: "nat \<Rightarrow> u32 \<Rightarrow> nat" where
  "limb_bits 0 x = 1"
| "limb_bits (Suc n) x = (if x AND push_bit (Suc n) 1 \<noteq> 0 then Suc n + 1 else limb_bits n x)"

text \<open>The outer loop of \<open>bits()\<close>, on the limbs from the most significant one down;
  \<open>pos\<close> is the number of limbs below the head.\<close>

fun uint_bits_loop :: "base_uint \<Rightarrow> nat" where
  "uint_bits_loop [] = 0"
| "uint_bits_loop (x # xs) =
     (if x \<noteq> 0 then 32 * length xs + limb_bits 31 x else uint_bits_loop xs)"

definition uint_bits :: "base_uint \<Rightarrow> nat" where
  "uint_bits a = uint_bits_loop (rev a)"

datatype uint_error = DivisionByZero

text \<open>
  The loop \<open>while (shift >= 0)\<close> of \<open>operator/=\<close>; the first argument is \<open>shift + 1\<close>,
  the number of iterations left. The state is \<open>num\<close>, \<open>div\<close> and the quotient.
\<close>

fun uint_div_loop :: "nat \<Rightarrow> base_uint \<Rightarrow> base_uint \<Rightarrow> base_uint \<Rightarrow> base_uint" where
  "uint_div_loop 0 num dv q = q"
| "uint_div_loop (Suc shift) num dv q =
     (if uint_CompareTo num dv \<ge> 0
      then uint_div_loop shift (uint_sub num dv) (uint_shr dv 1)
             (q[shift div 32 := q ! (shift div 32) OR push_bit (shift mod 32) 1])
      else uint_div_loop shift num (uint_shr dv 1) q)"

definition uint_div :: "base_uint \<Rightarrow> base_uint \<Rightarrow> uint_error + base_uint" where
  "uint_div a b =
     (let num_bits = uint_bits a; div_bits = uint_bits b in
      if div_bits = 0 then Inl DivisionByZero
      else if div_bits > num_bits then Inr (uint_zero (length a))
      else let shift = num_bits - div_bits in
        Inr (uint_div_loop (Suc shift) a (uint_shl b shift) (uint_zero (length a))))"

definition uint_GetLow64 :: "base_uint \<Rightarrow> u64" where
  "uint_GetLow64 a = ucast (a ! 0) OR push_bit 32 (ucast (a ! 1))"

subsection \<open>The compact encoding of difficulty targets\<close>

text \<open>\<open>SetCompact\<close> returns the number and the two flags \<open>*pfNegative\<close> and
  \<open>*pfOverflow\<close>.\<close>

definition SetCompact :: "u32 \<Rightarrow> base_uint \<times> bool \<times> bool" where
  "SetCompact nCompact =
     (let nSize = unat (drop_bit 24 nCompact);
          nWord0 = nCompact AND 0x007fffff;
          nWord = (if nSize \<le> 3 then drop_bit (8 * (3 - nSize)) nWord0 else nWord0);
          r = (if nSize \<le> 3 then uint_of_u64 WIDTH (ucast nWord)
               else uint_shl (uint_of_u64 WIDTH (ucast nWord)) (8 * (nSize - 3)));
          fNegative = (nWord \<noteq> 0 \<and> nCompact AND 0x00800000 \<noteq> 0);
          fOverflow = (nWord \<noteq> 0 \<and> (nSize > 34 \<or> (nWord > 0xff \<and> nSize > 33)
                        \<or> (nWord > 0xffff \<and> nSize > 32)))
      in (r, fNegative, fOverflow))"

text \<open>\<open>GetCompact\<close>; the two \<open>assert\<close>s are the \<open>None\<close> results.\<close>

definition GetCompact :: "base_uint \<Rightarrow> bool \<Rightarrow> u32 option" where
  "GetCompact a fNegative =
     (let nSize0 = (uint_bits a + 7) div 8;
          nCompact0 = (if nSize0 \<le> 3
                       then ucast (push_bit (8 * (3 - nSize0)) (uint_GetLow64 a))
                       else ucast (uint_GetLow64 (uint_shr a (8 * (nSize0 - 3))))) :: u32;
          carry = (nCompact0 AND 0x00800000 \<noteq> 0);
          nCompact1 = (if carry then drop_bit 8 nCompact0 else nCompact0);
          nSize = (if carry then nSize0 + 1 else nSize0);
          nCompact2 = nCompact1 OR push_bit 24 (of_nat nSize);
          nCompact3 = nCompact2 OR
            (if fNegative \<and> nCompact2 AND 0x007fffff \<noteq> 0 then 0x00800000 else 0)
      in if nCompact1 AND NOT 0x007fffff = 0 \<and> nSize < 256 then Some nCompact3 else None)"

subsection \<open>Values of limb lists\<close>

abbreviation base_pow :: "nat \<Rightarrow> nat" where
  "base_pow w \<equiv> 2 ^ (32 * w)"

lemma base_pow_Suc: "base_pow (Suc w) = 4294967296 * base_pow w"
  by (simp add: power_add)

lemma limbs_val_less: "limbs_val a < base_pow (length a)"
proof (induction a)
  case (Cons x xs)
  have "unat x + 4294967296 * limbs_val xs < 4294967296 * Suc (limbs_val xs)" by simp
  also have "\<dots> \<le> 4294967296 * base_pow (length xs)" using Cons by simp
  finally show ?case by (simp only: base_pow_Suc limbs_val.simps length_Cons)
qed simp

lemma limbs_val_mod [simp]: "limbs_val a mod base_pow (length a) = limbs_val a"
  by (simp add: limbs_val_less)

lemma limbs_val_append: "limbs_val (a @ b) = limbs_val a + base_pow (length a) * limbs_val b"
  by (induction a) (simp_all add: power_add algebra_simps)

lemma limbs_val_inj: "length a = length b \<Longrightarrow> limbs_val a = limbs_val b \<Longrightarrow> a = b"
proof (induction a b rule: list_induct2)
  case (Cons x xs y ys)
  then have eq: "unat x + 4294967296 * limbs_val xs = unat y + 4294967296 * limbs_val ys" by simp
  have "unat x = (unat x + 4294967296 * limbs_val xs) mod 4294967296" by simp
  also have "\<dots> = unat y" unfolding eq by simp
  finally have "unat x = unat y" .
  with eq Cons.IH show ?case by (simp add: unsigned_word_eqI)
qed simp

lemma limbs_val_zero_iff: "limbs_val a = 0 \<longleftrightarrow> list_all (\<lambda>x. x = 0) a"
  by (induction a) (auto simp: unat_eq_zero)

lemma limbs_val_replicate_0 [simp]: "limbs_val (replicate n 0) = 0"
  by (induction n) auto

lemma limbs_val_uint_zero [simp]: "limbs_val (uint_zero w) = 0" "length (uint_zero w) = w"
  by (simp_all add: uint_zero_def)

lemma limbs_val_cons_mod:
  "(unat (x :: u32) + 4294967296 * y) mod base_pow (Suc n) = unat x + 4294967296 * (y mod base_pow n)"
  unfolding base_pow_Suc by (rule mod_base_Cons) simp

lemma limbs_val_of_u64: "2 \<le> w \<Longrightarrow> limbs_val (uint_of_u64 w b) = unat b"
proof -
  have "unat b div 4294967296 < 4294967296" using unat_u64_less [of b] by linarith
  then show ?thesis
    unfolding uint_of_u64_def by (simp add: val_simps unat_ucast)
qed

lemma length_of_u64 [simp]: "2 \<le> w \<Longrightarrow> length (uint_of_u64 w b) = w"
  by (simp add: uint_of_u64_def)

lemma unat_not32: "unat (NOT (x :: u32)) = 4294967295 - unat x"
proof -
  have "NOT x = - 1 - x" by (simp add: not_eq_complement)
  moreover have "x \<le> - 1" by simp
  ultimately have "unat (NOT x) = unat (- 1 :: u32) - unat x" by (simp add: unat_sub)
  then show ?thesis by (simp add: unsigned_minus_1_eq_mask mask_eq_exp_minus_1)
qed

lemma limbs_val_not: "limbs_val (map NOT a) = base_pow (length a) - 1 - limbs_val a"
proof (induction a)
  case (Cons x xs)
  have "unat (NOT x) = 4294967295 - unat x" by (rule unat_not32)
  moreover have "unat x \<le> 4294967295" using unat_u32_less [of x] by linarith
  moreover have "limbs_val xs < base_pow (length xs)" by (rule limbs_val_less)
  ultimately show ?case using Cons.IH by (simp add: power_add algebra_simps)
qed simp

lemma length_incr [simp]: "length (uint_incr a) = length a"
  by (induction a) (auto simp: Let_def)

lemma unat_incr32: "unat ((x :: u32) + 1) = (if x + 1 = 0 then 0 else unat x + 1)"
  "x + 1 = 0 \<Longrightarrow> unat (x :: u32) = 4294967295"
proof -
  show "unat (x + 1) = (if x + 1 = 0 then 0 else unat x + 1)"
    using unatSuc [of x] by (simp add: add.commute)
  assume "x + 1 = 0"
  then have "x = - 1" by (simp add: eq_neg_iff_add_eq_0)
  then show "unat x = 4294967295" by (simp add: unsigned_minus_1_eq_mask mask_eq_exp_minus_1)
qed

lemma limbs_val_incr: "limbs_val (uint_incr a) = (limbs_val a + 1) mod base_pow (length a)"
proof (induction a)
  case (Cons x xs)
  show ?case
  proof (cases "x + 1 = 0")
    case True
    have "limbs_val (x # xs) + 1 = 4294967296 * (limbs_val xs + 1)"
      using unat_incr32(2) [OF True] by simp
    then have "(limbs_val (x # xs) + 1) mod base_pow (length (x # xs))
        = 4294967296 * ((limbs_val xs + 1) mod base_pow (length xs))"
      by (simp only: base_pow_Suc length_Cons mult_mod_right)
    then show ?thesis using True Cons.IH by (cases xs) simp_all
  next
    case False
    then have "limbs_val (uint_incr (x # xs)) = limbs_val (x # xs) + 1"
      by (simp add: unat_incr32)
    then show ?thesis using limbs_val_less [of "uint_incr (x # xs)"] by (metis length_incr mod_less)
  qed
qed simp

lemma length_add_loop [simp]: "length (uint_add_loop c a b) = min (length a) (length b)"
  by (induction c a b rule: uint_add_loop.induct) (auto simp: Let_def)

lemma unat_add3:
  "unat (c :: u64) \<le> 4294967295 \<Longrightarrow> unat (c + ucast (p :: u32) + ucast (q :: u32)) = unat c + unat p + unat q"
proof -
  assume "unat c \<le> 4294967295"
  then have "unat c + unat p + unat q < 18446744073709551616"
    using unat_u32_less [of p] unat_u32_less [of q] by linarith
  then show ?thesis by (simp add: unat_word_ariths val_simps)
qed

lemma limbs_val_step:
  assumes n: "unat (n :: u64) = s"
    and v: "rest = (r + s div 4294967296) mod base_pow w"
  shows "unat (ucast (n AND 0xffffffff) :: u32) + 4294967296 * rest
       = (s + 4294967296 * r) mod base_pow (Suc w)"
proof -
  have "s + 4294967296 * r = s mod 4294967296 + 4294967296 * (r + s div 4294967296)"
    by (simp add: algebra_simps)
  then have "(s + 4294967296 * r) mod base_pow (Suc w)
      = s mod 4294967296 + 4294967296 * ((r + s div 4294967296) mod base_pow w)"
    unfolding base_pow_Suc by (simp only: mod_base_Cons mod_less_divisor zero_less_numeral)
  then show ?thesis by (simp add: val_simps n v)
qed

lemma limbs_val_add_loop:
  "length a = length b \<Longrightarrow> unat c \<le> 1 \<Longrightarrow>
   limbs_val (uint_add_loop c a b) = (limbs_val a + limbs_val b + unat c) mod base_pow (length a)"
proof (induction c a b rule: uint_add_loop.induct)
  case (1 carry p ps b bs)
  define n where "n = carry + ucast p + ucast b"
  have n: "unat n = unat carry + unat p + unat b"
    unfolding n_def by (rule unat_add3) (use "1.prems" in simp)
  have c: "unat (drop_bit 32 n) \<le> 1"
    unfolding val_simps n using "1.prems"(2) unat_u32_less[of p] unat_u32_less[of b] by linarith
  have IH: "limbs_val (uint_add_loop (drop_bit 32 n) ps bs)
      = (limbs_val ps + limbs_val bs + unat n div 4294967296) mod base_pow (length ps)"
    using "1.IH"[OF n_def _ c] "1.prems" by (simp add: val_simps)
  have "limbs_val (uint_add_loop carry (p # ps) (b # bs))
      = unat (ucast (n AND 0xffffffff) :: u32) + 4294967296 * limbs_val (uint_add_loop (drop_bit 32 n) ps bs)"
    by (simp only: uint_add_loop.simps Let_def n_def limbs_val.simps)
  also have "\<dots> = (unat n + 4294967296 * (limbs_val ps + limbs_val bs)) mod base_pow (Suc (length ps))"
    using IH by (intro limbs_val_step) simp_all
  finally show ?case by (simp add: n algebra_simps)
qed auto

lemma length_mul32_loop [simp]: "length (uint_mul32_loop c b a) = length a"
  by (induction c b a rule: uint_mul32_loop.induct) (auto simp: Let_def)

lemma limbs_val_mul32_loop:
  "limbs_val (uint_mul32_loop c b a) = (limbs_val a * unat b + unat c) mod base_pow (length a)"
  if "unat c < 4294967296" 
  using that
proof (induction c b a rule: uint_mul32_loop.induct)
  case (2 carry b p ps)
  define n where "n = carry + ucast b * ucast p"
  have bnd: "unat carry + unat b * unat p \<le> 4294967295 + 4294967295 * 4294967295"
    using "2.prems" unat_u32_less[of b] unat_u32_less[of p] by (intro add_mono mult_mono) linarith+
  have n: "unat n = unat carry + unat b * unat p"
    unfolding n_def using bnd by (simp add: unat_word_ariths val_simps)
  have c: "unat (drop_bit 32 n) < 4294967296"
    unfolding val_simps n using bnd by linarith
  have IH: "limbs_val (uint_mul32_loop (drop_bit 32 n) b ps)
      = (limbs_val ps * unat b + unat n div 4294967296) mod base_pow (length ps)"
    using "2.IH"[OF n_def c] by (simp add: val_simps)
  have "limbs_val (uint_mul32_loop carry b (p # ps))
      = unat (ucast (n AND 0xffffffff) :: u32) + 4294967296 * limbs_val (uint_mul32_loop (drop_bit 32 n) b ps)"
    by (simp only: uint_mul32_loop.simps Let_def n_def limbs_val.simps)
  also have "\<dots> = (unat n + 4294967296 * (limbs_val ps * unat b)) mod base_pow (Suc (length ps))"
    using IH by (intro limbs_val_step) simp_all
  finally show ?case by (simp add: n algebra_simps)
qed simp

lemma length_mul_row [simp]: "length (uint_mul_row c a ps b) = length ps"
  by (induction c a ps b rule: uint_mul_row.induct) (auto simp: Let_def)

lemma limbs_val_mul_row:
  "length ps \<le> length bs \<Longrightarrow> unat c < 4294967296 \<Longrightarrow>
   limbs_val (uint_mul_row c a ps bs) = (limbs_val ps + unat a * limbs_val bs + unat c) mod base_pow (length ps)"
proof (induction c a ps bs rule: uint_mul_row.induct)
  case (1 carry a p ps b bs)
  define n where "n = carry + ucast p + ucast a * ucast b"
  have bnd: "unat carry + unat p + unat a * unat b \<le> 4294967295 + 4294967295 + 4294967295 * 4294967295"
    using "1.prems" unat_u32_less[of b] unat_u32_less[of p] unat_u32_less[of a]
    by (intro add_mono mult_mono) linarith+
  have n: "unat n = unat carry + unat p + unat a * unat b"
    unfolding n_def using bnd by (simp add: unat_word_ariths val_simps)
  have c: "unat (drop_bit 32 n) < 4294967296"
    unfolding val_simps n using bnd by linarith
  have IH: "limbs_val (uint_mul_row (drop_bit 32 n) a ps bs)
      = (limbs_val ps + unat a * limbs_val bs + unat n div 4294967296) mod base_pow (length ps)"
    using "1.IH"[OF n_def _ c] "1.prems" by (simp add: val_simps)
  have "limbs_val (uint_mul_row carry a (p # ps) (b # bs))
      = unat (ucast (n AND 0xffffffff) :: u32) + 4294967296 * limbs_val (uint_mul_row (drop_bit 32 n) a ps bs)"
    by (simp only: uint_mul_row.simps Let_def n_def limbs_val.simps)
  also have "\<dots> = (unat n + 4294967296 * (limbs_val ps + unat a * limbs_val bs)) mod base_pow (Suc (length ps))"
    using IH by (intro limbs_val_step) simp_all
  finally show ?case by (simp add: n algebra_simps)
qed auto

lemma length_uint_neg [simp]: "length (uint_neg a) = length a"
  by (simp add: uint_neg_def)

lemma limbs_val_neg: "limbs_val (uint_neg a) = (base_pow (length a) - limbs_val a) mod base_pow (length a)"
proof -
  have "base_pow (length a) - 1 - limbs_val a + 1 = base_pow (length a) - limbs_val a"
    using limbs_val_less [of a] by linarith
  then show ?thesis by (simp only: uint_neg_def limbs_val_incr limbs_val_not length_map)
qed

lemma length_uint_add [simp]: "length a = length b \<Longrightarrow> length (uint_add a b) = length b"
  by (simp add: uint_add_def)

lemma limbs_val_add:
  "length a = length b \<Longrightarrow> limbs_val (uint_add a b) = (limbs_val a + limbs_val b) mod base_pow (length b)"
  by (simp add: uint_add_def limbs_val_add_loop)

lemma length_uint_sub [simp]: "length a = length b \<Longrightarrow> length (uint_sub a b) = length b"
  by (simp add: uint_sub_def)

lemma limbs_val_sub:
  assumes "length a = length b"
  shows "limbs_val (uint_sub a b) = (limbs_val a + (base_pow (length b) - limbs_val b)) mod base_pow (length b)"
  using assms by (simp add: uint_sub_def limbs_val_add limbs_val_neg mod_simps)

lemma limbs_val_sub_le:
  assumes "length a = length b" "limbs_val b \<le> limbs_val a"
  shows "limbs_val (uint_sub a b) = limbs_val a - limbs_val b"
proof -
  have "limbs_val a < base_pow (length b)" using limbs_val_less [of a] assms(1) by simp
  moreover have "limbs_val a + (base_pow (length b) - limbs_val b)
      = (limbs_val a - limbs_val b) + base_pow (length b)"
    using assms(2) limbs_val_less [of b] by simp
  moreover have "limbs_val a - limbs_val b < base_pow (length b)" using calculation(1) by linarith
  ultimately show ?thesis unfolding limbs_val_sub [OF assms(1)] by (simp only: mod_add_self2 mod_less)
qed

lemma limbs_val_mul32: "limbs_val (uint_mul32 a b) = (limbs_val a * unat b) mod base_pow (length a)"
  by (simp add: uint_mul32_def limbs_val_mul32_loop)

lemma length_uint_mul32 [simp]: "length (uint_mul32 a b) = length a"
  by (simp add: uint_mul32_def)

lemma limbs_val_take_drop:
  "j \<le> length a \<Longrightarrow> limbs_val (take j a) + base_pow j * limbs_val (drop j a) = limbs_val a"
  using limbs_val_append [of "take j a" "drop j a"] by simp

lemma limbs_val_mul_row_at:
  assumes "j \<le> length pn" "length pn \<le> j + length b"
  shows "limbs_val (take j pn @ uint_mul_row 0 aj (drop j pn) b)
       = (limbs_val pn + base_pow j * (unat aj * limbs_val b)) mod base_pow (length pn)"
proof -
  let ?w = "length pn - j"
  have split: "base_pow (length pn) = base_pow j * base_pow ?w"
    using assms(1) by (simp add: power_add [symmetric] add_mult_distrib2 [symmetric])
  have "limbs_val (take j pn @ uint_mul_row 0 aj (drop j pn) b)
      = limbs_val (take j pn) + base_pow j * ((limbs_val (drop j pn) + unat aj * limbs_val b) mod base_pow ?w)"
    using assms by (simp add: limbs_val_append limbs_val_mul_row min_def)
  also have "\<dots> = (limbs_val (take j pn) + base_pow j * (limbs_val (drop j pn) + unat aj * limbs_val b))
                    mod (base_pow j * base_pow ?w)"
    using limbs_val_less [of "take j pn"] assms(1) by (intro mod_base_Cons [symmetric]) (simp add: min_absorb2)
  also have "limbs_val (take j pn) + base_pow j * (limbs_val (drop j pn) + unat aj * limbs_val b)
      = limbs_val pn + base_pow j * (unat aj * limbs_val b)"
    using limbs_val_take_drop [OF assms(1)] by (simp add: algebra_simps)
  finally show ?thesis by (simp only: split)
qed

lemma uint_mul_loop_val:
  "j + length as = length pn \<Longrightarrow> length b = length pn \<Longrightarrow>
   limbs_val (uint_mul_loop j as b pn)
     = (limbs_val pn + base_pow j * (limbs_val as * limbs_val b)) mod base_pow (length pn)
   \<and> length (uint_mul_loop j as b pn) = length pn"
proof (induction j as b pn rule: uint_mul_loop.induct)
  case (2 j aj as b pn)
  let ?pn = "take j pn @ uint_mul_row 0 aj (drop j pn) b"
  have len: "length ?pn = length pn" using "2.prems" by simp
  have row: "limbs_val ?pn = (limbs_val pn + base_pow j * (unat aj * limbs_val b)) mod base_pow (length pn)"
    using "2.prems" by (intro limbs_val_mul_row_at) simp_all
  have "limbs_val (uint_mul_loop j (aj # as) b pn)
      = (limbs_val ?pn + base_pow (Suc j) * (limbs_val as * limbs_val b)) mod base_pow (length pn)"
    using "2.IH" "2.prems" len by simp
  also have "\<dots> = (limbs_val pn + base_pow j * (unat aj * limbs_val b)
       + base_pow (Suc j) * (limbs_val as * limbs_val b)) mod base_pow (length pn)"
    unfolding row by (rule mod_add_left_eq)
  also have "limbs_val pn + base_pow j * (unat aj * limbs_val b)
       + base_pow (Suc j) * (limbs_val as * limbs_val b)
      = limbs_val pn + base_pow j * (limbs_val (aj # as) * limbs_val b)"
    by (simp add: power_add algebra_simps)
  finally show ?case using "2.IH" "2.prems" len by simp
qed (simp add: limbs_val_less)

lemma uint_mul_val:
  assumes "length a = length b"
  shows "limbs_val (uint_mul a b) = (limbs_val a * limbs_val b) mod base_pow (length b)
       \<and> length (uint_mul a b) = length b"
proof -
  have len: "0 + length a = length (uint_zero (length a))" "length b = length (uint_zero (length a))"
    using assms by simp_all
  show ?thesis using uint_mul_loop_val [OF len] by (simp add: uint_mul_def assms)
qed

lemma length_uint_mul [simp]: "length a = length b \<Longrightarrow> length (uint_mul a b) = length b"
  by (simp add: uint_mul_val)

lemma limbs_val_mul:
  "length a = length b \<Longrightarrow> limbs_val (uint_mul a b) = (limbs_val a * limbs_val b) mod base_pow (length b)"
  by (simp add: uint_mul_val)

subsection \<open>Bits of limb lists\<close>

lemma bit_limbs_val:
  "bit (limbs_val a) n \<longleftrightarrow> n div 32 < length a \<and> bit (a ! (n div 32)) (n mod 32)"
proof (induction a arbitrary: n)
  case (Cons x xs)
  have val: "limbs_val (x # xs) = push_bit 32 (limbs_val xs) OR unat x"
  proof -
    have "push_bit 32 (limbs_val xs) AND unat x = 0"
      by (rule bit_eqI) (auto simp: bit_simps dest: bit_imp_le_length)
    then have "push_bit 32 (limbs_val xs) + unat x = push_bit 32 (limbs_val xs) OR unat x"
      by (rule disjunctive_add_eq_or)
    then show ?thesis by (simp add: push_bit_eq_mult mult.commute)
  qed
  show ?case
  proof (cases "n < 32")
    case True
    then show ?thesis unfolding val by (simp add: bit_simps)
  next
    case False
    then have "n div 32 = Suc ((n - 32) div 32)" "n mod 32 = (n - 32) mod 32"
      by (simp_all add: le_div_geq le_mod_geq)
    moreover have "\<not> bit (unat x) n" using False by (auto simp: bit_simps dest: bit_imp_le_length)
    ultimately show ?thesis using False Cons.IH [of "n - 32"] unfolding val by (simp add: bit_simps)
  qed
qed simp

lemma div_mod_32:
  "x = 32 * q + t \<Longrightarrow> t < 32 \<Longrightarrow> x div 32 = q"
  "x = 32 * q + t \<Longrightarrow> t < 32 \<Longrightarrow> x mod 32 = (t :: nat)"
  by auto

lemma limbs_eqI_bit:
  assumes "\<And>n. n < 32 * length a \<Longrightarrow> bit (limbs_val a) n \<longleftrightarrow> bit v n"
  shows "limbs_val a = take_bit (32 * length a) v"
proof (rule bit_eqI)
  fix n
  have "n div 32 < length a \<longleftrightarrow> n < 32 * length a" by linarith
  then have "\<not> n < 32 * length a \<Longrightarrow> \<not> bit (limbs_val a) n" by (simp add: bit_limbs_val)
  then show "bit (limbs_val a) n = bit (take_bit (32 * length a) v) n"
    using assms [of n] by (auto simp: bit_take_bit_iff)
qed

lemma length_shl_step [simp]: "length (uint_shl_step a k s i pn) = length pn"
  by (simp add: uint_shl_step_def Let_def)

lemma length_shr_step [simp]: "length (uint_shr_step a k s i pn) = length pn"
  by (simp add: uint_shr_step_def Let_def)

lemma length_fold_step:
  assumes "\<And>i pn. length (f i pn) = length pn"
  shows "length (fold f is pn) = length pn"
  using assms by (induction "is" arbitrary: pn) auto

lemma length_uint_shl [simp]: "length (uint_shl a n) = length a"
  by (simp add: uint_shl_def length_fold_step)

lemma length_uint_shr [simp]: "length (uint_shr a n) = length a"
  by (simp add: uint_shr_def length_fold_step)

lemma shl_fold_nth:
  assumes "N \<le> length a" "m < length a"
  shows "fold (uint_shl_step a k s) [0..<N] (uint_zero (length a)) ! m
     = (if k \<le> m \<and> m - k < N then push_bit s (a ! (m - k)) else 0)
       OR (if k < m \<and> m - k - 1 < N \<and> s \<noteq> 0 then drop_bit (32 - s) (a ! (m - k - 1)) else 0)"
  using assms
proof (induction N)
  case 0
  then show ?case by (simp add: uint_zero_def)
next
  case (Suc N)
  let ?pn = "fold (uint_shl_step a k s) [0..<N] (uint_zero (length a))"
  have len: "length ?pn = length a" by (simp add: length_fold_step)
  have pn: "fold (uint_shl_step a k s) [0..<Suc N] (uint_zero (length a)) = uint_shl_step a k s N ?pn"
    by simp
  have IH: "?pn ! m = (if k \<le> m \<and> m - k < N then push_bit s (a ! (m - k)) else 0)
       OR (if k < m \<and> m - k - 1 < N \<and> s \<noteq> 0 then drop_bit (32 - s) (a ! (m - k - 1)) else 0)"
    using Suc by simp
  consider "m = N + k" | "m = N + k + 1" | "m \<noteq> N + k" "m \<noteq> N + k + 1" by blast
  then show ?case
  proof cases
    case 1
    then show ?thesis unfolding pn using IH Suc.prems len
      by (auto simp: uint_shl_step_def Let_def nth_list_update or.commute or.left_commute)
  next
    case 2
    then show ?thesis unfolding pn using IH Suc.prems len
      by (auto simp: uint_shl_step_def Let_def nth_list_update or.assoc)
  next
    case 3
    then have "(m - k < Suc N \<and> k \<le> m) = (m - k < N \<and> k \<le> m)"
      "(m - k - 1 < Suc N \<and> k < m) = (m - k - 1 < N \<and> k < m)" by auto
    moreover have "uint_shl_step a k s N ?pn ! m = ?pn ! m"
      using 3 by (auto simp: uint_shl_step_def Let_def nth_list_update)
    ultimately show ?thesis unfolding pn using IH by (auto split: if_splits)
  qed
qed

lemma shr_fold_nth:
  assumes "N \<le> length a" "m < length a"
  shows "fold (uint_shr_step a k s) [0..<N] (uint_zero (length a)) ! m
     = (if m + k < N then drop_bit s (a ! (m + k)) else 0)
       OR (if m + k + 1 < N \<and> s \<noteq> 0 then push_bit (32 - s) (a ! (m + k + 1)) else 0)"
  using assms
proof (induction N)
  case 0
  then show ?case by (simp add: uint_zero_def)
next
  case (Suc N)
  let ?pn = "fold (uint_shr_step a k s) [0..<N] (uint_zero (length a))"
  have len: "length ?pn = length a" by (simp add: length_fold_step)
  have pn: "fold (uint_shr_step a k s) [0..<Suc N] (uint_zero (length a)) = uint_shr_step a k s N ?pn"
    by simp
  have IH: "?pn ! m = (if m + k < N then drop_bit s (a ! (m + k)) else 0)
       OR (if m + k + 1 < N \<and> s \<noteq> 0 then push_bit (32 - s) (a ! (m + k + 1)) else 0)"
    using Suc by simp
  consider "N = m + k" | "N = m + k + 1" | "N \<noteq> m + k" "N \<noteq> m + k + 1" by blast
  then show ?case
  proof cases
    case 1
    then show ?thesis unfolding pn using IH Suc.prems len
      by (auto simp: uint_shr_step_def Let_def nth_list_update)
  next
    case 2
    then show ?thesis unfolding pn using IH Suc.prems len
      by (auto simp: uint_shr_step_def Let_def nth_list_update or.assoc)
  next
    case 3
    then have "uint_shr_step a k s N ?pn ! m = ?pn ! m"
      by (auto simp: uint_shr_step_def Let_def nth_list_update)
    then show ?thesis unfolding pn using IH 3 by (auto simp: less_Suc_eq)
  qed
qed

lemma limbs_val_shl:
  "limbs_val (uint_shl a sh) = (limbs_val a * 2 ^ sh) mod base_pow (length a)"
proof -
  have "limbs_val (uint_shl a sh) = take_bit (32 * length (uint_shl a sh)) (push_bit sh (limbs_val a))"
  proof (rule limbs_eqI_bit)
    fix n assume "n < 32 * length (uint_shl a sh)"
    then have n: "n div 32 < length a" by auto
    define k s m r where "k = sh div 32" and "s = sh mod 32" and "m = n div 32" and "r = n mod 32"
    have sh: "sh = 32 * k + s" and nn: "n = 32 * m + r" by (simp_all add: k_def s_def m_def r_def)
    have lt: "s < 32" "r < 32" by (simp_all add: s_def r_def)
    have nth: "uint_shl a sh ! m = (if k \<le> m then push_bit s (a ! (m - k)) else 0)
       OR (if k < m \<and> s \<noteq> 0 then drop_bit (32 - s) (a ! (m - k - 1)) else 0)"
      using shl_fold_nth [of "length a" a m k s] n
      by (auto simp: uint_shl_def k_def s_def m_def)
    have L: "bit (limbs_val (uint_shl a sh)) n \<longleftrightarrow>
        (k \<le> m \<and> s \<le> r \<and> bit (a ! (m - k)) (r - s))
        \<or> (k < m \<and> s \<noteq> 0 \<and> bit (a ! (m - k - 1)) (32 - s + r))"
      using n nth lt by (auto simp: bit_limbs_val m_def[symmetric] r_def[symmetric] bit_simps)
    have R: "bit (push_bit sh (limbs_val a)) n \<longleftrightarrow>
        sh \<le> n \<and> bit (a ! ((n - sh) div 32)) ((n - sh) mod 32)"
      using n by (auto simp: bit_simps bit_limbs_val)
    show "bit (limbs_val (uint_shl a sh)) n \<longleftrightarrow> bit (push_bit sh (limbs_val a)) n"
    proof (cases "s \<le> r")
      case True
      then have "sh \<le> n \<longleftrightarrow> k \<le> m" using lt by (simp add: sh nn) linarith
      moreover have "k \<le> m \<Longrightarrow> n - sh = 32 * (m - k) + (r - s)" using True by (simp add: sh nn algebra_simps)
      then have "k \<le> m \<Longrightarrow> (n - sh) div 32 = m - k \<and> (n - sh) mod 32 = r - s"
        using div_mod_32 [of "n - sh"] lt by (meson less_imp_diff_less)
      moreover have "\<not> bit (a ! (m - k - 1)) (32 - s + r)"
        using True lt by (auto dest: bit_imp_le_length)
      ultimately show ?thesis unfolding L R using lt True by auto
    next
      case False
      then have "sh \<le> n \<longleftrightarrow> k < m" using lt by (simp add: sh nn) linarith
      moreover have "k < m \<Longrightarrow> n - sh = 32 * (m - k - 1) + (32 - s + r)"
        using False lt by (simp add: sh nn algebra_simps)
      then have "k < m \<Longrightarrow> (n - sh) div 32 = m - k - 1 \<and> (n - sh) mod 32 = 32 - s + r"
        using div_mod_32 [of "n - sh" "m - k - 1" "32 - s + r"] lt False by simp
      ultimately show ?thesis unfolding L R using lt False by auto
    qed
  qed
  then show ?thesis by (simp add: take_bit_eq_mod push_bit_eq_mult)
qed

lemma limbs_val_shr: "limbs_val (uint_shr a sh) = limbs_val a div 2 ^ sh"
proof -
  have "limbs_val (uint_shr a sh) = take_bit (32 * length (uint_shr a sh)) (drop_bit sh (limbs_val a))"
  proof (rule limbs_eqI_bit)
    fix n assume "n < 32 * length (uint_shr a sh)"
    then have n: "n div 32 < length a" by auto
    define k s m r where "k = sh div 32" and "s = sh mod 32" and "m = n div 32" and "r = n mod 32"
    have sh: "sh = 32 * k + s" and nn: "n = 32 * m + r" by (simp_all add: k_def s_def m_def r_def)
    have lt: "s < 32" "r < 32" by (simp_all add: s_def r_def)
    have nth: "uint_shr a sh ! m = (if m + k < length a then drop_bit s (a ! (m + k)) else 0)
       OR (if m + k + 1 < length a \<and> s \<noteq> 0 then push_bit (32 - s) (a ! (m + k + 1)) else 0)"
      using shr_fold_nth [of "length a" a m k s] n
      by (auto simp: uint_shr_def k_def s_def m_def)
    have L: "bit (limbs_val (uint_shr a sh)) n \<longleftrightarrow>
        (m + k < length a \<and> bit (a ! (m + k)) (s + r))
        \<or> (m + k + 1 < length a \<and> s \<noteq> 0 \<and> 32 - s \<le> r \<and> bit (a ! (m + k + 1)) (r - (32 - s)))"
      using n nth lt by (auto simp: bit_limbs_val m_def[symmetric] r_def[symmetric] bit_simps)
    have R: "bit (drop_bit sh (limbs_val a)) n \<longleftrightarrow>
        (sh + n) div 32 < length a \<and> bit (a ! ((sh + n) div 32)) ((sh + n) mod 32)"
      by (auto simp: bit_simps bit_limbs_val)
    show "bit (limbs_val (uint_shr a sh)) n \<longleftrightarrow> bit (drop_bit sh (limbs_val a)) n"
    proof (cases "s + r < 32")
      case True
      have "sh + n = 32 * (m + k) + (s + r)" by (simp add: sh nn algebra_simps)
      note dm = div_mod_32 [OF this True]
      show ?thesis unfolding L R dm using lt True by auto
    next
      case False
      then have "sh + n = 32 * (m + k + 1) + (r - (32 - s))" using lt by (simp add: sh nn algebra_simps)
      moreover have "r - (32 - s) < 32" using lt by linarith
      ultimately have dm: "(sh + n) div 32 = m + k + 1" "(sh + n) mod 32 = r - (32 - s)"
        by (rule div_mod_32)+
      have "\<not> bit (a ! (m + k)) (s + r)" using False by (auto dest: bit_imp_le_length)
      then show ?thesis unfolding L R dm using lt False by auto
    qed
  qed
  moreover have "limbs_val a div 2 ^ sh < base_pow (length a)"
    using limbs_val_less [of a] by (meson div_le_dividend le_less_trans)
  ultimately show ?thesis by (simp add: take_bit_eq_mod drop_bit_eq_div)
qed

lemma add_mult_less:
  fixes x y b i j :: nat
  assumes "x < b" "i < j"
  shows "x + b * i < y + b * j"
proof -
  have "x + b * i < b * Suc i" using assms(1) by simp
  also have "\<dots> \<le> b * j" using assms(2) by (intro mult_le_mono2) simp
  finally show ?thesis by simp
qed

lemma compare_loop_val:
  "length xs = length ys \<Longrightarrow>
   uint_compare_loop xs ys = sgn (int (limbs_val (rev xs)) - int (limbs_val (rev ys)))"
proof (induction xs ys rule: list_induct2)
  case (Cons x xs y ys)
  let ?B = "base_pow (length xs)" and ?X = "limbs_val (rev xs)" and ?Y = "limbs_val (rev ys)"
  have bnd: "?X < ?B" "?Y < ?B"
    using limbs_val_less [of "rev xs"] limbs_val_less [of "rev ys"] Cons.hyps by simp_all
  have val: "limbs_val (rev (x # xs)) = ?X + ?B * unat x" "limbs_val (rev (y # ys)) = ?Y + ?B * unat y"
    using Cons.hyps by (simp_all add: limbs_val_append)
  consider "unat x < unat y" | "unat x > unat y" | "x = y"
    using unsigned_word_eqI [of x y] by (metis linorder_neqE_nat)
  then show ?case
  proof cases
    case 1
    have "limbs_val (rev (x # xs)) < limbs_val (rev (y # ys))"
      unfolding val using bnd(1) 1 by (rule add_mult_less)
    then have "sgn (int (limbs_val (rev (x # xs))) - int (limbs_val (rev (y # ys)))) = - 1"
      by (simp del: rev.simps)
    then show ?thesis using 1 by (simp add: word_less_nat_alt del: rev.simps)
  next
    case 2
    have "limbs_val (rev (y # ys)) < limbs_val (rev (x # xs))"
      unfolding val using bnd(2) 2 by (rule add_mult_less)
    then have "sgn (int (limbs_val (rev (x # xs))) - int (limbs_val (rev (y # ys)))) = 1"
      by (simp del: rev.simps)
    then show ?thesis using 2 by (simp add: word_less_nat_alt del: rev.simps)
  next
    case 3
    then show ?thesis unfolding val using Cons.IH by simp
  qed
qed simp

lemma uint_CompareTo_val:
  "length a = length b \<Longrightarrow> uint_CompareTo a b = sgn (int (limbs_val a) - int (limbs_val b))"
  unfolding uint_CompareTo_def by (simp add: compare_loop_val)

lemma uint_CompareTo_ge [simp]:
  "length a = length b \<Longrightarrow> uint_CompareTo a b \<ge> 0 \<longleftrightarrow> limbs_val b \<le> limbs_val a"
  by (simp add: uint_CompareTo_val sgn_if)

lemma uint_CompareTo_gt [simp]:
  "length a = length b \<Longrightarrow> uint_CompareTo a b > 0 \<longleftrightarrow> limbs_val b < limbs_val a"
  by (simp add: uint_CompareTo_val sgn_if)

lemma two_limbs_eq_iff:
  fixes x y z b B :: nat
  assumes "x < B" "y < B" "b div B < B"
  shows "z = 0 \<and> y = b div B \<and> x = b mod B \<longleftrightarrow> x + B * (y + B * z) = b"
proof
  assume "z = 0 \<and> y = b div B \<and> x = b mod B"
  then show "x + B * (y + B * z) = b" by simp
next
  assume b: "x + B * (y + B * z) = b"
  have "b mod B = x" using assms(1) unfolding b [symmetric] by simp
  moreover have div: "b div B = y + B * z" using assms(1) unfolding b [symmetric] by simp
  moreover have "z = 0" using assms(3) unfolding div by (cases z) auto
  ultimately show "z = 0 \<and> y = b div B \<and> x = b mod B" by simp
qed

lemma uint_EqualTo_val: "2 \<le> length a \<Longrightarrow> uint_EqualTo a b \<longleftrightarrow> limbs_val a = unat b"
proof -
  assume "2 \<le> length a"
  then obtain x y zs where a: "a = x # y # zs" by (cases a; cases "tl a") auto
  have low: "ucast x = b AND 0xffffffff \<longleftrightarrow> unat x = unat b mod 4294967296"
    by (simp only: word_unat_eq_iff unat_low32 unat_ucast_up32)
  have high: "ucast y = drop_bit 32 b \<longleftrightarrow> unat y = unat b div 4294967296"
    by (simp only: word_unat_eq_iff unat_high32 unat_ucast_up32)
  have rest: "list_all (\<lambda>z. z = 0) zs \<longleftrightarrow> limbs_val zs = 0" by (simp add: limbs_val_zero_iff)
  have hi: "unat b div 4294967296 < 4294967296" using unat_u64_less [of b] by linarith
  have "limbs_val zs = 0 \<and> unat y = unat b div 4294967296 \<and> unat x = unat b mod 4294967296
      \<longleftrightarrow> unat x + 4294967296 * (unat y + 4294967296 * limbs_val zs) = unat b"
    by (rule two_limbs_eq_iff) (use hi in simp_all)
  then show ?thesis by (simp add: a uint_EqualTo_def low high rest)
qed

lemma limb_bits_val:
  "x \<noteq> 0 \<Longrightarrow> n < 32 \<Longrightarrow> unat x < 2 ^ Suc n \<Longrightarrow>
   1 \<le> limb_bits n x \<and> limb_bits n x \<le> Suc n \<and> 2 ^ (limb_bits n x - 1) \<le> unat x \<and> unat x < 2 ^ limb_bits n x"
proof (induction n)
  case 0
  have "0 < unat x" using "0.prems"(1) by (simp add: unat_gt_0)
  then show ?case using "0.prems" by simp
next
  case (Suc n)
  have bit: "x AND push_bit (Suc n) 1 \<noteq> 0 \<longleftrightarrow> bit (unat x) (Suc n)"
    unfolding bit_iff_and_push_bit_not_eq_0 [symmetric] using Suc.prems(2) by (simp add: bit_unsigned_iff)
  have "bit (unat x) (Suc n) \<longleftrightarrow> 2 ^ Suc n \<le> unat x"
  proof -
    have "unat x div 2 ^ Suc n < 2" using Suc.prems(3) by (simp add: less_mult_imp_div_less)
    then have "odd (unat x div 2 ^ Suc n) \<longleftrightarrow> unat x div 2 ^ Suc n \<noteq> 0" by (cases "unat x div 2 ^ Suc n") auto
    then show ?thesis by (simp add: bit_iff_odd div_eq_0_iff not_less del: power_Suc)
  qed
  then show ?case using Suc bit by auto
qed

lemma uint_bits_loop_val:
  "(limbs_val (rev xs) = 0 \<longrightarrow> uint_bits_loop xs = 0)
   \<and> (limbs_val (rev xs) \<noteq> 0 \<longrightarrow> 0 < uint_bits_loop xs \<and> uint_bits_loop xs \<le> 32 * length xs
        \<and> 2 ^ (uint_bits_loop xs - 1) \<le> limbs_val (rev xs)
        \<and> limbs_val (rev xs) < 2 ^ uint_bits_loop xs)"
proof (induction xs)
  case (Cons x xs)
  show ?case
  proof (cases "x = 0")
    case True
    then show ?thesis using Cons.IH by (auto simp: limbs_val_append)
  next
    case False
    let ?B = "base_pow (length xs)" and ?l = "limb_bits 31 x"
    have l: "1 \<le> ?l" "?l \<le> 32" "2 ^ (?l - 1) \<le> unat x" "unat x < 2 ^ ?l"
      using limb_bits_val [OF False, of 31] by simp_all
    have val: "limbs_val (rev (x # xs)) = limbs_val (rev xs) + ?B * unat x"
      by (simp add: limbs_val_append)
    have small: "limbs_val (rev xs) < ?B" using limbs_val_less [of "rev xs"] by simp
    have "limbs_val (rev xs) + ?B * unat x < ?B * 2 ^ ?l"
      using add_mult_less [OF small l(4), of 0] by simp
    then have hi: "limbs_val (rev (x # xs)) < 2 ^ (32 * length xs + ?l)"
      unfolding val by (simp add: power_add)
    have "2 ^ (32 * length xs + ?l - 1) = ?B * 2 ^ (?l - 1)"
      using l(1) by (simp add: power_add [symmetric])
    also have "\<dots> \<le> ?B * unat x" using l(3) by simp
    finally have lo: "2 ^ (32 * length xs + ?l - 1) \<le> limbs_val (rev (x # xs))"
      unfolding val by linarith
    then have "limbs_val (rev (x # xs)) \<noteq> 0" by (metis le_zero_eq power_not_zero zero_neq_numeral)
    then show ?thesis using False l lo hi by (simp del: rev.simps)
  qed
qed simp

lemma uint_bits_zero [simp]: "limbs_val a = 0 \<Longrightarrow> uint_bits a = 0"
  using uint_bits_loop_val [of "rev a"] by (simp add: uint_bits_def)

lemma uint_bits_bounds:
  assumes "limbs_val a \<noteq> 0"
  shows "0 < uint_bits a" "uint_bits a \<le> 32 * length a"
    "2 ^ (uint_bits a - 1) \<le> limbs_val a" "limbs_val a < 2 ^ uint_bits a"
  using uint_bits_loop_val [of "rev a"] assms by (simp_all add: uint_bits_def)

lemma uint_bits_eq_0_iff: "uint_bits a = 0 \<longleftrightarrow> limbs_val a = 0"
  using uint_bits_bounds(1) by fastforce

lemma uint_bits_less_iff: "uint_bits a \<le> n \<longleftrightarrow> limbs_val a < 2 ^ n"
proof (cases "limbs_val a = 0")
  case False
  note b = uint_bits_bounds [OF False]
  show ?thesis
  proof
    assume "uint_bits a \<le> n"
    then show "limbs_val a < 2 ^ n" using b(4) by (meson le_less_trans less_le_trans one_le_numeral power_increasing)
  next
    assume "limbs_val a < 2 ^ n"
    then have "(2::nat) ^ (uint_bits a - 1) < 2 ^ n" using b(3) by linarith
    then show "uint_bits a \<le> n" using b(1) by simp
  qed
qed simp

lemma limbs_val_set_bit:
  assumes "sh div 32 < length q" "\<not> bit (limbs_val q) sh"
  shows "limbs_val (q[sh div 32 := q ! (sh div 32) OR push_bit (sh mod 32) 1]) = limbs_val q + 2 ^ sh"
proof -
  let ?q = "q[sh div 32 := q ! (sh div 32) OR push_bit (sh mod 32) 1]"
  have "limbs_val ?q = limbs_val q OR push_bit sh 1"
  proof (rule bit_eqI)
    fix n
    have "n div 32 = sh div 32 \<Longrightarrow> n mod 32 = sh mod 32 \<Longrightarrow> n = sh"
      by (metis div_mult_mod_eq)
    then show "bit (limbs_val ?q) n = bit (limbs_val q OR push_bit sh 1) n"
      using assms(1) by (auto simp: bit_limbs_val bit_simps nth_list_update)
  qed
  moreover have "limbs_val q AND push_bit sh 1 = 0"
    using assms(2) by (intro bit_eqI) (auto simp: bit_simps)
  ultimately show ?thesis by (simp add: disjunctive_add_eq_or)
qed

lemma uint_div_loop_val:
  assumes "length dv = length num" "length q = length num" "n \<le> 32 * length num" "0 < D"
    and "0 < n \<Longrightarrow> limbs_val dv = D * 2 ^ (n - 1)" "limbs_val num < D * 2 ^ n" "2 ^ n dvd limbs_val q"
  shows "limbs_val (uint_div_loop n num dv q) = limbs_val q + limbs_val num div D
       \<and> length (uint_div_loop n num dv q) = length num"
  using assms
proof (induction n arbitrary: num dv q)
  case 0
  then show ?case by simp
next
  case (Suc sh)
  have dv: "limbs_val dv = D * 2 ^ sh" using Suc.prems(5) by simp
  have dv': "limbs_val (uint_shr dv 1) = D * 2 ^ (sh - 1)" if "0 < sh"
    using that dv by (cases sh) (simp_all add: limbs_val_shr)
  have dvd: "2 ^ sh dvd limbs_val q" using Suc.prems(7) by (meson le_imp_power_dvd dvd_trans lessI less_imp_le)
  have idx: "sh div 32 < length q" using Suc.prems(2,3) by linarith
  show ?case
  proof (cases "limbs_val dv \<le> limbs_val num")
    case True
    let ?q = "q[sh div 32 := q ! (sh div 32) OR push_bit (sh mod 32) 1]"
    have num: "limbs_val (uint_sub num dv) = limbs_val num - D * 2 ^ sh"
      using limbs_val_sub_le [of num dv] Suc.prems(1) True dv by simp
    have nobit: "\<not> bit (limbs_val q) sh"
      using Suc.prems(7) by (auto simp: bit_iff_odd elim!: dvdE)
    have q: "limbs_val ?q = limbs_val q + 2 ^ sh" using idx nobit by (rule limbs_val_set_bit)
    have "limbs_val (uint_div_loop sh (uint_sub num dv) (uint_shr dv 1) ?q)
        = limbs_val ?q + limbs_val (uint_sub num dv) div D
       \<and> length (uint_div_loop sh (uint_sub num dv) (uint_shr dv 1) ?q) = length (uint_sub num dv)"
    proof (rule Suc.IH)
      show "limbs_val (uint_sub num dv) < D * 2 ^ sh" using num Suc.prems(6) by simp
      show "2 ^ sh dvd limbs_val ?q" unfolding q using dvd by simp
    qed (use Suc.prems dv' in simp_all)
    moreover have "limbs_val num div D = 2 ^ sh + limbs_val (uint_sub num dv) div D"
    proof -
      have "limbs_val num = limbs_val (uint_sub num dv) + D * 2 ^ sh" using num True dv by simp
      then show ?thesis using Suc.prems(4) by (metis add.commute div_mult_self4 less_numeral_extra(3) mult.commute)
    qed
    ultimately show ?thesis using True Suc.prems(1) q by simp
  next
    case False
    have "limbs_val (uint_div_loop sh num (uint_shr dv 1) q) = limbs_val q + limbs_val num div D
       \<and> length (uint_div_loop sh num (uint_shr dv 1) q) = length num"
      by (rule Suc.IH) (use Suc.prems dv dv' dvd False in simp_all)
    then show ?thesis using False Suc.prems(1) by simp
  qed
qed

lemma uint_div_val:
  assumes len: "length a = length b" and nz: "limbs_val b \<noteq> 0"
  shows "\<exists>q. uint_div a b = Inr q \<and> length q = length b \<and> limbs_val q = limbs_val a div limbs_val b"
proof (cases "uint_bits b > uint_bits a")
  case True
  then have "limbs_val a < 2 ^ (uint_bits b - 1)" by (simp add: uint_bits_less_iff [symmetric])
  then have "limbs_val a < limbs_val b" using uint_bits_bounds(3) [OF nz] by linarith
  then show ?thesis using True len nz by (simp add: uint_div_def uint_bits_eq_0_iff)
next
  case False
  define sh where "sh = uint_bits a - uint_bits b"
  note b = uint_bits_bounds [OF nz]
  have a: "limbs_val a < 2 ^ uint_bits a" using uint_bits_less_iff [of a "uint_bits a"] by simp
  have ub: "uint_bits a \<le> 32 * length a"
    using uint_bits_bounds(2) [of a] by (cases "limbs_val a = 0") simp_all
  have "limbs_val b * 2 ^ sh < 2 ^ uint_bits b * 2 ^ sh" using b(4) by simp
  also have "\<dots> = 2 ^ uint_bits a" using False by (simp add: sh_def power_add [symmetric])
  also have "\<dots> \<le> base_pow (length a)" using ub by (simp add: power_increasing)
  finally have shl: "limbs_val (uint_shl b sh) = limbs_val b * 2 ^ sh"
    using len by (simp add: limbs_val_shl)
  have "2 ^ uint_bits a = 2 ^ (uint_bits b - 1) * (2::nat) ^ Suc sh"
    using False b(1) by (simp add: sh_def power_add [symmetric] del: power_Suc)
  also have "\<dots> \<le> limbs_val b * 2 ^ Suc sh" using b(3) by simp
  finally have num: "limbs_val a < limbs_val b * 2 ^ Suc sh" using a by linarith
  have cnt: "Suc sh \<le> 32 * length a" using ub b(1) False unfolding sh_def by linarith
  have "limbs_val (uint_div_loop (Suc sh) a (uint_shl b sh) (uint_zero (length a)))
      = limbs_val (uint_zero (length a)) + limbs_val a div limbs_val b
    \<and> length (uint_div_loop (Suc sh) a (uint_shl b sh) (uint_zero (length a))) = length a"
    by (rule uint_div_loop_val) (use len nz shl num cnt in simp_all)
  then show ?thesis using False len nz
    by (simp add: uint_div_def uint_bits_eq_0_iff sh_def Let_def del: uint_div_loop.simps)
qed

lemma uint_div_zero: "limbs_val b = 0 \<Longrightarrow> uint_div a b = Inl DivisionByZero"
  by (simp add: uint_div_def)

lemma limbs_val_GetLow64: "2 \<le> length a \<Longrightarrow> unat (uint_GetLow64 a) = limbs_val a mod 2 ^ 64"
proof -
  assume "2 \<le> length a"
  then obtain x y zs where a: "a = x # y # zs" by (cases a; cases "tl a") auto
  have "unat (ucast x OR push_bit 32 (ucast y) :: u64) = unat (ucast x :: u64) + unat (push_bit 32 (ucast y) :: u64)"
    by (rule unat_or_disjoint [of _ 32]) (simp_all add: val_simps bit_push_bit_iff)
  then have "unat (uint_GetLow64 a) = unat x + unat y * 4294967296"
    using unat_u32_less [of y] by (simp add: uint_GetLow64_def a val_simps unat_push_bit)
  moreover have "limbs_val a = (unat x + unat y * 4294967296) + 2 ^ 64 * limbs_val zs"
    unfolding a by simp
  moreover have "unat x + unat y * 4294967296 < 2 ^ 64"
  proof -
    have "unat y \<le> 4294967295" using unat_u32_less [of y] by linarith
    then have "unat x + unat y * 4294967296 < 4294967296 + 4294967295 * 4294967296"
      using unat_u32_less [of x] by linarith
    then show ?thesis by simp
  qed
  ultimately show ?thesis by (simp only: mod_mult_self2 mod_less)
qed

lemma u32_sign_bit: "(c :: u32) AND 0x00800000 \<noteq> 0 \<longleftrightarrow> bit c 23"
  unfolding bit_iff_and_push_bit_not_eq_0 by simp

lemma u32_mantissa: "unat (c AND 0x007fffff :: u32) = unat c mod 2 ^ 23"
  by (simp add: and_mask_eq_take_bit [of _ 23] mask_eq_exp_minus_1 unat_take_bit)

lemma u32_no_high_bits: "unat (c :: u32) < 2 ^ 23 \<Longrightarrow> c AND NOT 0x007fffff = 0"
proof -
  assume c: "unat c < 2 ^ 23"
  have "NOT 0x007fffff = NOT (mask 23 :: u32)" by (simp add: mask_eq_exp_minus_1)
  moreover have "c AND NOT (mask 23) = 0"
    using bit_unat_less [OF c] by (intro bit_eqI) (auto simp: bit_simps)
  ultimately show ?thesis by (simp only:)
qed

lemma u32_or_size:
  assumes "unat (c :: u32) < 2 ^ 24" "n < 256"
  shows "unat (c OR push_bit 24 (of_nat n)) = unat c + 2 ^ 24 * n"
proof -
  have n: "unat (of_nat n :: u32) = n"
    using assms(2) by (simp add: unsigned_of_nat take_bit_eq_mod [where ?'a = nat])
  have "unat (c OR push_bit 24 (of_nat n)) = unat c + unat (push_bit 24 (of_nat n :: u32))"
    using assms(1) by (rule unat_or_disjoint) (simp add: bit_push_bit_iff)
  then show ?thesis using n assms(2) by (simp add: unat_push_bit)
qed

lemma bit23_iff: "unat (c :: u32) < 2 ^ 24 \<Longrightarrow> bit c 23 \<longleftrightarrow> 2 ^ 23 \<le> unat c"
proof -
  assume c: "unat c < 2 ^ 24"
  have "bit c 23 \<longleftrightarrow> odd (unat c div 2 ^ 23)"
    unfolding bit_unat_iff [symmetric] by (rule bit_iff_odd)
  moreover have "unat c div 2 ^ 23 < 2" using c by (simp add: less_mult_imp_div_less)
  then have "odd (unat c div 2 ^ 23) \<longleftrightarrow> unat c div 2 ^ 23 \<noteq> 0" by (cases "unat c div 2 ^ 23") auto
  ultimately show ?thesis by (simp add: div_eq_0_iff not_less)
qed

text \<open>The mantissa and the size byte that \<open>GetCompact\<close> computes, on numbers.\<close>

definition compact_parts :: "nat \<Rightarrow> nat \<Rightarrow> nat \<times> nat" where
  "compact_parts n v =
     (let m = (if n \<le> 3 then v * 256 ^ (3 - n) else v div 256 ^ (n - 3))
      in if 2 ^ 23 \<le> m then (m div 256, n + 1) else (m, n))"

lemma uint_bytes_bounds:
  assumes "length a = WIDTH"
  defines "n \<equiv> (uint_bits a + 7) div 8"
  shows "limbs_val a < 256 ^ n" "n \<le> 32" "limbs_val a \<noteq> 0 \<Longrightarrow> 256 ^ (n - 1) \<le> limbs_val a"
proof -
  have pow: "(256 :: nat) ^ k = 2 ^ (8 * k)" for k by (simp add: power_mult)
  have le: "uint_bits a \<le> 8 * n" unfolding n_def by linarith
  then show "limbs_val a < 256 ^ n" unfolding pow by (simp add: uint_bits_less_iff [symmetric])
  have "uint_bits a \<le> 256"
    using uint_bits_bounds(2) [of a] assms(1) by (cases "limbs_val a = 0") (simp_all add: WIDTH_def)
  then show "n \<le> 32" unfolding n_def by linarith
  assume nz: "limbs_val a \<noteq> 0"
  have "8 * (n - 1) \<le> uint_bits a - 1" unfolding n_def by linarith
  then have "(2 :: nat) ^ (8 * (n - 1)) \<le> 2 ^ (uint_bits a - 1)" by (simp add: power_increasing)
  then show "256 ^ (n - 1) \<le> limbs_val a" unfolding pow using uint_bits_bounds(3) [OF nz] by linarith
qed

lemma uint_bytes_unique:
  assumes "limbs_val a \<noteq> 0" "limbs_val a < 256 ^ n" "256 ^ (n - 1) \<le> limbs_val a"
  shows "(uint_bits a + 7) div 8 = n"
proof -
  have pow: "(256 :: nat) ^ k = 2 ^ (8 * k)" for k by (simp add: power_mult)
  have "uint_bits a \<le> 8 * n" using assms(2) unfolding pow uint_bits_less_iff .
  moreover have "\<not> uint_bits a \<le> 8 * (n - 1)" using assms(3) unfolding pow uint_bits_less_iff by simp
  moreover have "n \<noteq> 0" using assms(1,2) by (cases n) auto
  ultimately show ?thesis by linarith
qed

lemma compact_mantissa_less:
  fixes v n :: nat
  assumes "v < 256 ^ n"
  shows "(if n \<le> 3 then v * 256 ^ (3 - n) else v div 256 ^ (n - 3)) < 2 ^ 24"
proof (cases "n \<le> 3")
  case True
  have "v * 256 ^ (3 - n) < 256 ^ n * 256 ^ (3 - n)" using assms by simp
  also have "\<dots> = (256 :: nat) ^ 3" using True by (simp add: power_add [symmetric])
  finally show ?thesis using True by simp
next
  case False
  have "(256 :: nat) ^ n = 256 ^ 3 * 256 ^ (n - 3)"
    using False by (simp only: power_add [symmetric]) simp
  then have "v div 256 ^ (n - 3) < 256 ^ 3" using assms by (simp add: less_mult_imp_div_less)
  then show ?thesis using False by simp
qed

lemma GetCompact_val:
  assumes len: "length a = WIDTH"
  defines "n \<equiv> (uint_bits a + 7) div 8"
  shows "\<exists>c. GetCompact a False = Some c
       \<and> unat c = fst (compact_parts n (limbs_val a)) + 2 ^ 24 * snd (compact_parts n (limbs_val a))"
proof -
  note b = uint_bytes_bounds [OF len, folded n_def]
  define m where "m = (if n \<le> 3 then limbs_val a * 256 ^ (3 - n) else limbs_val a div 256 ^ (n - 3))"
  have m: "m < 2 ^ 24" unfolding m_def using b(1) by (rule compact_mantissa_less)
  define c0 :: u32 where "c0 = (if n \<le> 3
      then ucast (push_bit (8 * (3 - n)) (uint_GetLow64 a))
      else ucast (uint_GetLow64 (uint_shr a (8 * (n - 3)))))"
  have pow: "(2 :: nat) ^ (8 * k) = 256 ^ k" for k by (simp add: power_mult)
  have c0: "unat c0 = m"
  proof (cases "n \<le> 3")
    case True
    have "(256 :: nat) ^ n \<le> 256 ^ 3" using True by (intro power_increasing) simp_all
    then have "limbs_val a < 2 ^ 24" using b(1) by simp
    then have "unat (uint_GetLow64 a) = limbs_val a" using len by (simp add: limbs_val_GetLow64 WIDTH_def)
    then show ?thesis using True m
      by (simp add: c0_def m_def unat_word_bits pow)
  next
    case False
    have "limbs_val (uint_shr a (8 * (n - 3))) = m" using False by (simp add: limbs_val_shr m_def pow)
    then have "unat (uint_GetLow64 (uint_shr a (8 * (n - 3)))) = m"
      using len m by (simp add: limbs_val_GetLow64 WIDTH_def)
    then show ?thesis using False m by (simp add: c0_def unat_word_bits)
  qed
  have carry: "c0 AND 0x00800000 \<noteq> 0 \<longleftrightarrow> 2 ^ 23 \<le> m"
    using bit23_iff [of c0] m c0 by (simp add: u32_sign_bit)
  define c1 where "c1 = (if 2 ^ 23 \<le> m then drop_bit 8 c0 else c0)"
  define sz where "sz = (if 2 ^ 23 \<le> m then n + 1 else n)"
  have c1: "unat c1 = fst (compact_parts n (limbs_val a))" "sz = snd (compact_parts n (limbs_val a))"
    using c0 by (simp_all add: c1_def sz_def compact_parts_def m_def [symmetric] Let_def unat_word_bits)
  have "m div 256 < 2 ^ 23" using m by (simp add: div_less_iff_less_mult)
  then have small: "unat c1 < 2 ^ 23" using m c0 by (simp add: c1_def unat_word_bits)
  have sz: "sz < 256" using b(2) by (simp add: sz_def)
  have "GetCompact a False = Some (c1 OR push_bit 24 (of_nat sz))"
    unfolding GetCompact_def Let_def n_def [symmetric] c0_def [symmetric] carry
      c1_def [symmetric] sz_def [symmetric]
    using u32_no_high_bits [OF small] sz by simp
  then show ?thesis using u32_or_size [of c1 sz] small sz c1 by simp
qed

lemma compact_overflow_iff:
  fixes mt sz :: nat
  assumes "3 < sz" "mt < 2 ^ 24"
  shows "mt \<noteq> 0 \<and> (sz > 34 \<or> (mt > 255 \<and> sz > 33) \<or> (mt > 65535 \<and> sz > 32))
     \<longleftrightarrow> mt * 256 ^ (sz - 3) \<ge> 2 ^ 256"
proof -
  have pow: "(2 :: nat) ^ 256 = 256 ^ 32" by simp
  consider "sz \<le> 32" | "sz = 33" | "sz = 34" | "34 < sz" by linarith
  then show ?thesis
  proof cases
    case 1
    have "mt * 256 ^ (sz - 3) < 2 ^ 24 * 256 ^ (sz - 3)" using assms(2) by simp
    also have "\<dots> = 256 ^ sz"
    proof -
      have "(256 :: nat) ^ sz = 256 ^ 3 * 256 ^ (sz - 3)"
        using assms(1) by (simp only: power_add [symmetric]) simp
      then show ?thesis by simp
    qed
    also have "\<dots> \<le> 256 ^ 32" using 1 by (intro power_increasing) simp_all
    finally show ?thesis using 1 unfolding pow by linarith
  next
    case 2
    have "mt * 256 ^ 30 \<ge> 256 ^ 32 \<longleftrightarrow> mt \<ge> 65536" by simp
    then show ?thesis using 2 unfolding pow by auto
  next
    case 3
    have "mt * 256 ^ 31 \<ge> 256 ^ 32 \<longleftrightarrow> mt \<ge> 256" by simp
    then show ?thesis using 3 unfolding pow by auto
  next
    case 4
    have "(256 :: nat) ^ 32 \<le> 256 ^ (sz - 3)" using 4 by (intro power_increasing) simp_all
    then have "mt \<noteq> 0 \<Longrightarrow> 256 ^ 32 \<le> mt * 256 ^ (sz - 3)"
      by (metis One_nat_def Suc_leI le_trans mult.commute mult_le_mono2 mult_numeral_1_right neq0_conv numeral_1_eq_Suc_0 numeral_One)
    then show ?thesis using 4 unfolding pow by (cases mt) auto
  qed
qed

text \<open>What \<open>SetCompact\<close> computes, on numbers.\<close>

lemma SetCompact_val:
  fixes c :: u32
  defines "sz \<equiv> unat c div 2 ^ 24" and "mt \<equiv> unat c mod 2 ^ 23"
  shows "length (fst (SetCompact c)) = WIDTH"
    and "limbs_val (fst (SetCompact c))
       = (if sz \<le> 3 then mt div 256 ^ (3 - sz) else (mt * 256 ^ (sz - 3)) mod 2 ^ 256)"
    and "fst (snd (SetCompact c)) \<longleftrightarrow> (if sz \<le> 3 then mt div 256 ^ (3 - sz) else mt) \<noteq> 0 \<and> bit c 23"
    and "snd (snd (SetCompact c)) \<longleftrightarrow> sz > 3 \<and> mt * 256 ^ (sz - 3) \<ge> 2 ^ 256"
proof -
  have pow: "(2 :: nat) ^ (8 * k) = 256 ^ k" for k by (simp add: power_mult)
  have sz: "unat (drop_bit 24 c) = sz" by (simp add: unat_word_bits sz_def)
  have mt: "unat (c AND 0x007fffff) = mt" unfolding mt_def by (rule u32_mantissa)
  define w where "w = (if sz \<le> 3 then drop_bit (8 * (3 - sz)) (c AND 0x007fffff) else c AND 0x007fffff)"
  have w: "unat w = (if sz \<le> 3 then mt div 256 ^ (3 - sz) else mt)"
    by (simp only: w_def if_distrib [of unat] unat_drop_bit mt pow)
  have w2: "2 \<le> WIDTH" by (simp add: WIDTH_def)
  have u: "limbs_val (uint_of_u64 WIDTH (ucast w)) = unat w" "length (uint_of_u64 WIDTH (ucast w)) = WIDTH"
    by (simp_all only: limbs_val_of_u64 [OF w2] length_of_u64 [OF w2] unat_ucast_up32)
  have C: "SetCompact c = (if sz \<le> 3 then uint_of_u64 WIDTH (ucast w)
        else uint_shl (uint_of_u64 WIDTH (ucast w)) (8 * (sz - 3)),
      w \<noteq> 0 \<and> c AND 0x00800000 \<noteq> 0,
      w \<noteq> 0 \<and> (sz > 34 \<or> (w > 0xff \<and> sz > 33) \<or> (w > 0xffff \<and> sz > 32)))"
    unfolding SetCompact_def Let_def sz w_def by (simp only: prod.inject)
  show "length (fst (SetCompact c)) = WIDTH" using u(2) unfolding C by simp
  show "limbs_val (fst (SetCompact c))
       = (if sz \<le> 3 then mt div 256 ^ (3 - sz) else (mt * 256 ^ (sz - 3)) mod 2 ^ 256)"
    unfolding C using u w by (simp add: limbs_val_shl pow WIDTH_def)
  have w0: "w \<noteq> 0 \<longleftrightarrow> unat w \<noteq> 0" by (simp add: unat_eq_zero)
  show "fst (snd (SetCompact c)) \<longleftrightarrow> (if sz \<le> 3 then mt div 256 ^ (3 - sz) else mt) \<noteq> 0 \<and> bit c 23"
    unfolding C w0 w u32_sign_bit by simp
  have ltm: "mt < 2 ^ 23" by (simp add: mt_def)
  have gt: "w > 0xff \<longleftrightarrow> unat w > 255" "w > 0xffff \<longleftrightarrow> unat w > 65535"
    by (simp_all add: word_less_nat_alt)
  show "snd (snd (SetCompact c)) \<longleftrightarrow> sz > 3 \<and> mt * 256 ^ (sz - 3) \<ge> 2 ^ 256"
  proof (cases "sz \<le> 3")
    case True
    then show ?thesis unfolding C by simp
  next
    case False
    have "mt \<noteq> 0 \<and> (sz > 34 \<or> (mt > 255 \<and> sz > 33) \<or> (mt > 65535 \<and> sz > 32))
        \<longleftrightarrow> mt * 256 ^ (sz - 3) \<ge> 2 ^ 256"
      by (rule compact_overflow_iff) (use False ltm in simp_all)
    then show ?thesis unfolding C using False by (simp add: w0 w gt)
  qed
qed

text \<open>
  \<open>SetCompact\<close> applied to the result of \<open>GetCompact\<close>: the flags are clear and the
  number keeps its leading bytes; what is lost is smaller than one unit of the last
  mantissa place, \<open>256 ^ (size - 3)\<close>.
\<close>

lemma compact_parts_less:
  assumes "v < 256 ^ n" "n \<le> 32"
  shows "fst (compact_parts n v) < 2 ^ 23" "snd (compact_parts n v) \<le> 33"
  using compact_mantissa_less [OF assms(1)] assms(2)
  by (auto simp: compact_parts_def Let_def div_less_iff_less_mult)

lemma compact_parts_trunc:
  fixes n v :: nat
  defines "m \<equiv> fst (compact_parts n v)" and "s \<equiv> snd (compact_parts n v)"
  shows "s \<le> 3 \<Longrightarrow> m div 256 ^ (3 - s) = v"
    and "3 < s \<Longrightarrow> m = v div 256 ^ (s - 3)"
proof -
  define m0 where "m0 = (if n \<le> 3 then v * 256 ^ (3 - n) else v div 256 ^ (n - 3))"
  have ms: "m = (if 2 ^ 23 \<le> m0 then m0 div 256 else m0)" "s = (if 2 ^ 23 \<le> m0 then n + 1 else n)"
    by (simp_all add: m_def s_def compact_parts_def m0_def Let_def)
  have cancel: "v * 256 ^ Suc k div 256 = v * 256 ^ k" for k by simp
  have split: "v div 256 ^ k div 256 = v div 256 ^ Suc k" for k
    by (simp only: power_Suc2 div_mult2_eq)
  show "m div 256 ^ (3 - s) = v" if "s \<le> 3"
  proof (cases "2 ^ 23 \<le> m0")
    case True
    then have n: "n \<le> 2" using that ms by simp
    then have "m = v * 256 ^ (2 - n)"
      using True ms cancel [of "2 - n"] by (simp add: m0_def Suc_diff_le numeral_3_eq_3 numeral_2_eq_2)
    then show ?thesis using True ms n by (simp add: numeral_3_eq_3 numeral_2_eq_2)
  next
    case False
    then show ?thesis using that ms by (simp add: m0_def)
  qed
  show "m = v div 256 ^ (s - 3)" if "3 < s"
  proof (cases "2 ^ 23 \<le> m0")
    case True
    then have n: "3 \<le> n" using that ms by simp
    then have "m0 = v div 256 ^ (n - 3)" by (simp add: m0_def)
    then have "m = v div 256 ^ Suc (n - 3)" using True ms split by simp
    moreover have "s - 3 = Suc (n - 3)" using True ms n by simp
    ultimately show ?thesis by (simp only:)
  next
    case False
    then show ?thesis using that ms by (simp add: m0_def)
  qed
qed

lemma compact_parts_idem:
  assumes "v < 256 ^ n" "v \<noteq> 0 \<Longrightarrow> 256 ^ (n - 1) \<le> v"
  defines "s \<equiv> snd (compact_parts n v)"
  defines "v' \<equiv> v div 256 ^ (s - 3) * 256 ^ (s - 3)"
  shows "compact_parts n v' = compact_parts n v" "v' < 256 ^ n" "v \<noteq> 0 \<Longrightarrow> 256 ^ (n - 1) \<le> v'"
proof -
  have le: "v' \<le> v" by (simp add: v'_def)
  then show "v' < 256 ^ n" using assms(1) by linarith
  have s: "s \<le> n + 1" "n \<le> s" by (auto simp: s_def compact_parts_def Let_def)
  show "256 ^ (n - 1) \<le> v'" if "v \<noteq> 0"
  proof -
    have ge: "256 ^ (n - 1) \<le> v" using assms(2) that by simp
    have "(256 :: nat) ^ (n - 1) = 256 ^ (n - 1 - (s - 3)) * 256 ^ (s - 3)"
      using s by (cases "s \<le> 3") (simp_all flip: power_add)
    moreover have "256 ^ (n - 1 - (s - 3)) \<le> v div 256 ^ (s - 3)"
      using ge calculation by (simp add: less_eq_div_iff_mult_less_eq)
    ultimately show ?thesis by (simp add: v'_def)
  qed
  show "compact_parts n v' = compact_parts n v"
  proof (cases "s \<le> 3")
    case True
    then show ?thesis by (simp add: v'_def)
  next
    case False
    define m where "m = v div 256 ^ (n - 3)"
    consider "s = n" "n > 3" "m < 2 ^ 23" | "s = n + 1" "n \<ge> 3" "2 ^ 23 \<le> m"
      using False unfolding s_def m_def compact_parts_def Let_def by (cases "n \<le> 3") (auto split: if_splits)
    then show ?thesis
    proof cases
      case 1
      then show ?thesis by (simp add: compact_parts_def v'_def)
    next
      case 2
      have e: "s - 3 = Suc (n - 3)" using 2 by simp
      have "v div 256 ^ Suc (n - 3) = m div 256" unfolding m_def by (simp only: power_Suc2 div_mult2_eq)
      then have "v' = m div 256 * 256 * 256 ^ (n - 3)" unfolding v'_def e by (simp only: power_Suc mult.assoc)
      then have "v' div 256 ^ (n - 3) = m div 256 * 256" by simp
      moreover have "2 ^ 23 \<le> m div 256 * 256" using 2(3) by simp
      ultimately show ?thesis using 2 by (cases "n = 3") (simp_all add: compact_parts_def m_def)
    qed
  qed
qed

lemma GetCompact_SetCompact:
  assumes len: "length a = WIDTH" and get: "GetCompact a False = Some c"
  defines "k \<equiv> unat c div 2 ^ 24 - 3"
  shows "\<exists>r. SetCompact c = (r, False, False) \<and> length r = WIDTH
       \<and> limbs_val r = limbs_val a div 256 ^ k * 256 ^ k \<and> GetCompact r False = Some c"
proof -
  define v n where "v = limbs_val a" and "n = (uint_bits a + 7) div 8"
  note b = uint_bytes_bounds [OF len, folded n_def v_def]
  define m s where "m = fst (compact_parts n v)" and "s = snd (compact_parts n v)"
  note lt = compact_parts_less [OF b(1,2), folded m_def s_def]
  have c: "unat c = m + 2 ^ 24 * s"
    using GetCompact_val [OF len] get by (auto simp: n_def m_def s_def v_def)
  have c23: "unat c = m + 2 ^ 23 * (2 * s)" unfolding c by simp
  have parts: "unat c div 2 ^ 24 = s" "unat c mod 2 ^ 23 = m"
    subgoal unfolding c using lt(1) by simp
    subgoal unfolding c23 mod_mult_self2 using lt(1) by (rule mod_less)
    done
  have k: "k = s - 3" unfolding k_def parts by simp
  have no_sign: "\<not> bit c 23"
  proof -
    have "unat c div 2 ^ 23 = 2 * s" unfolding c23 using lt(1) by simp
    then show ?thesis unfolding bit_unat_iff [symmetric] bit_iff_odd by simp
  qed
  have trunc: "s \<le> 3 \<Longrightarrow> m div 256 ^ (3 - s) = v" "3 < s \<Longrightarrow> m = v div 256 ^ (s - 3)"
    using compact_parts_trunc [of n v] by (simp_all add: m_def s_def)
  have bound: "v div 256 ^ (s - 3) * 256 ^ (s - 3) < 2 ^ 256"
  proof -
    have "v < 2 ^ 256" using limbs_val_less [of a] len by (simp add: v_def WIDTH_def)
    then show ?thesis using div_times_less_eq_dividend [of v "256 ^ (s - 3)"] by linarith
  qed
  obtain r f g where S: "SetCompact c = (r, f, g)" by (metis prod.exhaust)
  note sv = SetCompact_val [of c, unfolded parts S fst_conv snd_conv]
  have r: "limbs_val r = v div 256 ^ k * 256 ^ k" unfolding k
  proof (cases "s \<le> 3")
    case True
    then show "limbs_val r = v div 256 ^ (s - 3) * 256 ^ (s - 3)" using sv(2) trunc(1) by simp
  next
    case False
    then show "limbs_val r = v div 256 ^ (s - 3) * 256 ^ (s - 3)" using sv(2) trunc(2) bound by simp
  qed
  have flags: "\<not> f" "\<not> g" using sv(3,4) no_sign trunc(2) bound by auto
  note idem = compact_parts_idem [OF b(1,3), folded s_def, folded k, folded r]
  have n: "(uint_bits r + 7) div 8 = n"
  proof (cases "v = 0")
    case True
    then show ?thesis using r by (simp add: n_def v_def)
  next
    case False
    then have ge: "256 ^ (n - 1) \<le> limbs_val r" using idem(3) by simp
    have "(0 :: nat) < 256 ^ (n - 1)" by simp
    then have "limbs_val r \<noteq> 0" using ge by linarith
    then show ?thesis using idem(2) ge by (rule uint_bytes_unique)
  qed
  have same: "compact_parts n (limbs_val r) = compact_parts n v"
    using idem(1) by simp
  have "\<exists>c'. GetCompact r False = Some c' \<and> unat c' = m + 2 ^ 24 * s"
    using GetCompact_val [OF sv(1)] unfolding n same m_def s_def .
  then obtain c' where c': "GetCompact r False = Some c'" "unat c' = unat c"
    unfolding c by blast
  then have "c' = c" by (simp add: word_unat_eq_iff)
  then show ?thesis using S sv(1) r flags c'(1) by (simp add: v_def)
qed

subsection \<open>The interface of the 256-bit integers\<close>

text \<open>
  What the difficulty and chain-work code relies on: the operations compute with the
  value \<open>val\<close> modulo \<open>M\<close>, comparison is the order of the values and division is exact
  integer division that only fails for a zero divisor. The lemmas of the locale are the
  compound expressions that code computes.
\<close>

locale uint_ops =
  fixes M :: nat and wf :: "'u \<Rightarrow> bool" and val :: "'u \<Rightarrow> nat" and of_u64 :: "u64 \<Rightarrow> 'u"
    and add sub mul :: "'u \<Rightarrow> 'u \<Rightarrow> 'u" and bnot :: "'u \<Rightarrow> 'u" and mul32 :: "'u \<Rightarrow> u32 \<Rightarrow> 'u"
    and quot :: "'u \<Rightarrow> 'u \<Rightarrow> uint_error + 'u" and cmp :: "'u \<Rightarrow> 'u \<Rightarrow> int"
  assumes wf_of_u64: "wf (of_u64 k)" and val_of_u64: "val (of_u64 k) = unat k"
    and wf_add: "wf a \<Longrightarrow> wf b \<Longrightarrow> wf (add a b)"
    and val_add: "wf a \<Longrightarrow> wf b \<Longrightarrow> val (add a b) = (val a + val b) mod M"
    and wf_sub: "wf a \<Longrightarrow> wf b \<Longrightarrow> wf (sub a b)"
    and val_sub: "wf a \<Longrightarrow> wf b \<Longrightarrow> val (sub a b) = (val a + (M - val b)) mod M"
    and wf_mul: "wf a \<Longrightarrow> wf b \<Longrightarrow> wf (mul a b)"
    and val_mul: "wf a \<Longrightarrow> wf b \<Longrightarrow> val (mul a b) = (val a * val b) mod M"
    and wf_bnot: "wf a \<Longrightarrow> wf (bnot a)" and val_bnot: "wf a \<Longrightarrow> val (bnot a) = M - 1 - val a"
    and wf_mul32: "wf a \<Longrightarrow> wf (mul32 a n)"
    and val_mul32: "wf a \<Longrightarrow> val (mul32 a n) = (val a * unat n) mod M"
    and quot_zero: "val b = 0 \<Longrightarrow> quot a b = Inl DivisionByZero"
    and quot_val: "wf a \<Longrightarrow> wf b \<Longrightarrow> val b \<noteq> 0 \<Longrightarrow>
          \<exists>q. quot a b = Inr q \<and> wf q \<and> val q = val a div val b"
    and cmp_val: "wf a \<Longrightarrow> wf b \<Longrightarrow> cmp a b = sgn (int (val a) - int (val b))"
    and val_less: "wf a \<Longrightarrow> val a < M"
    and val_inj: "wf a \<Longrightarrow> wf b \<Longrightarrow> val a = val b \<Longrightarrow> a = b"
begin

lemma quot_Inr:
  assumes "wf a" "wf b" "quot a b = Inr q"
  shows "wf q \<and> val q = val a div val b \<and> val b \<noteq> 0"
  using assms quot_val [of a b] quot_zero [of b a] by (cases "val b = 0") auto

lemma cmp_gt: "wf a \<Longrightarrow> wf b \<Longrightarrow> cmp a b > 0 \<longleftrightarrow> val b < val a"
  by (simp add: cmp_val sgn_if)

lemma clamp_le: "wf a \<Longrightarrow> wf l \<Longrightarrow> val (if cmp a l > 0 then l else a) = min (val a) (val l)"
  by (simp add: cmp_gt min_def)

text \<open>\<open>(~t / (t + 1)) + 1\<close> is the integer quotient of \<open>M\<close> by \<open>t + 1\<close>.\<close>

lemma not_div_Suc:
  assumes t: "wf t" "val t \<noteq> 0" "val t + 1 < M"
  shows "\<exists>q. quot (bnot t) (add t (of_u64 1)) = Inr q \<and> wf q \<and> wf (add q (of_u64 1))
       \<and> val (add q (of_u64 1)) = M div (val t + 1)"
proof -
  have w1: "wf (add t (of_u64 1))" using t(1) by (intro wf_add wf_of_u64)
  have v1: "val (add t (of_u64 1)) = val t + 1"
    using t by (simp add: val_add wf_of_u64 val_of_u64)
  obtain q where q: "quot (bnot t) (add t (of_u64 1)) = Inr q" "wf q"
      "val q = (M - 1 - val t) div (val t + 1)"
    using quot_val [OF wf_bnot [OF t(1)] w1] v1 t(1) by (auto simp: val_bnot)
  have "M = (M - 1 - val t) + (val t + 1)" using t(3) by simp
  then have div: "M div (val t + 1) = val q + 1"
    using q(3) by (metis add_self_div_2 div_add_self2 add_is_0 one_neq_zero)
  have "M div (val t + 1) < M" using t(2,3) by (intro div_less_dividend) simp_all
  then have "val (add q (of_u64 1)) = M div (val t + 1)"
    using div q(2) by (simp add: val_add wf_of_u64 val_of_u64)
  then show ?thesis using q(1,2) wf_add [OF q(2) wf_of_u64] by blast
qed

text \<open>\<open>(avg * n + t) / (n + 1)\<close>, the running average of the retargeting loop, when the
  intermediate sum fits.\<close>

lemma weighted_avg:
  assumes "wf a" "wf t" "val a * unat n + val t < M" "unat k = unat n + 1"
  shows "\<exists>q. quot (add (mul32 a n) t) (of_u64 k) = Inr q \<and> wf q
       \<and> val q = (val a * unat n + val t) div (unat n + 1)"
proof -
  have "val a * unat n < M" using assms(3) by simp
  then have "val (add (mul32 a n) t) = val a * unat n + val t"
    using assms by (simp add: val_add wf_mul32 val_mul32)
  then show ?thesis
    using quot_val [of "add (mul32 a n) t" "of_u64 k"] assms
    by (simp add: wf_add wf_mul32 wf_of_u64 val_of_u64)
qed

text \<open>\<open>min(a * n / d, limit)\<close>, the retargeting step.\<close>

lemma scale_clamp:
  assumes "wf a" "wf l" "val a * unat n < M" "unat d \<noteq> 0"
  shows "\<exists>q. quot (mul32 a n) (of_u64 d) = Inr q \<and> wf q
       \<and> val (if cmp q l > 0 then l else q) = min (val a * unat n div unat d) (val l)"
proof -
  obtain q where "quot (mul32 a n) (of_u64 d) = Inr q" "wf q" "val q = val a * unat n div unat d"
    using quot_val [of "mul32 a n" "of_u64 d"] assms
    by (auto simp: wf_mul32 val_mul32 wf_of_u64 val_of_u64)
  then show ?thesis using clamp_le [of q l] assms(2) by auto
qed

end

lemma is_arith256_256: "is_arith256 a \<Longrightarrow> base_pow (length a) = 2 ^ 256"
  by (simp add: is_arith256_def WIDTH_def)

interpretation a256: uint_ops "2 ^ 256" is_arith256 limbs_val "uint_of_u64 WIDTH" uint_add uint_sub
  uint_mul uint_not uint_mul32 uint_div uint_CompareTo
proof unfold_locales
  have w: "2 \<le> WIDTH" by (simp add: WIDTH_def)
  fix a b :: base_uint and k :: u64 and n :: u32
  show "is_arith256 (uint_of_u64 WIDTH k)" using w by (simp add: is_arith256_def)
  show "limbs_val (uint_of_u64 WIDTH k) = unat k" using w by (rule limbs_val_of_u64)
  show "limbs_val b = 0 \<Longrightarrow> uint_div a b = Inl DivisionByZero" by (rule uint_div_zero)
  assume a: "is_arith256 a"
  note B = is_arith256_256 [OF a]
  show "limbs_val a < 2 ^ 256" using limbs_val_less [of a] unfolding B .
  show "is_arith256 (uint_not a)" using a by (simp add: is_arith256_def uint_not_def)
  show "limbs_val (uint_not a) = 2 ^ 256 - 1 - limbs_val a"
    unfolding uint_not_def limbs_val_not B ..
  show "is_arith256 (uint_mul32 a n)" using a by (simp add: is_arith256_def)
  show "limbs_val (uint_mul32 a n) = limbs_val a * unat n mod 2 ^ 256"
    unfolding limbs_val_mul32 B ..
  assume b: "is_arith256 b"
  have len: "length a = length b" using a b by (simp add: is_arith256_def)
  note B' = is_arith256_256 [OF b]
  show "is_arith256 (uint_add a b)" "is_arith256 (uint_sub a b)" "is_arith256 (uint_mul a b)"
    using a b len by (simp_all add: is_arith256_def)
  show "limbs_val (uint_add a b) = (limbs_val a + limbs_val b) mod 2 ^ 256"
    unfolding limbs_val_add [OF len] B' ..
  show "limbs_val (uint_sub a b) = (limbs_val a + (2 ^ 256 - limbs_val b)) mod 2 ^ 256"
    unfolding limbs_val_sub [OF len] B' ..
  show "limbs_val (uint_mul a b) = limbs_val a * limbs_val b mod 2 ^ 256"
    unfolding limbs_val_mul [OF len] B' ..
  show "\<exists>q. uint_div a b = Inr q \<and> is_arith256 q \<and> limbs_val q = limbs_val a div limbs_val b"
    if "limbs_val b \<noteq> 0"
    using uint_div_val [OF len that] b by (auto simp: is_arith256_def)
  show "uint_CompareTo a b = sgn (int (limbs_val a) - int (limbs_val b))"
    using len by (rule uint_CompareTo_val)
  show "limbs_val a = limbs_val b \<Longrightarrow> a = b" using len by (rule limbs_val_inj)
qed

section \<open>Properties\<close>

text \<open>The 256-bit operators \<open>+=\<close>, \<open>-=\<close>, \<open>*=\<close> (by a number and by a 32-bit word) and
  unary minus on limb arrays compute the integer operation modulo \<open>2^256\<close> and return eight limbs.\<close>

theorem uint256_modular:
  assumes "is_arith256 a" "is_arith256 b"
  shows "is_arith256 (uint_add a b) \<and> limbs_val (uint_add a b) = (limbs_val a + limbs_val b) mod 2 ^ 256 \<and>
    is_arith256 (uint_sub a b) \<and>
      int (limbs_val (uint_sub a b)) = (int (limbs_val a) - int (limbs_val b)) mod 2 ^ 256 \<and>
    is_arith256 (uint_mul a b) \<and> limbs_val (uint_mul a b) = (limbs_val a * limbs_val b) mod 2 ^ 256 \<and>
    is_arith256 (uint_mul32 a n) \<and> limbs_val (uint_mul32 a n) = (limbs_val a * unat n) mod 2 ^ 256 \<and>
    is_arith256 (uint_neg a) \<and> int (limbs_val (uint_neg a)) = (- int (limbs_val a)) mod 2 ^ 256"
proof -
  have diff: "int ((x + (2 ^ 256 - y)) mod 2 ^ 256) = (int x - int y) mod 2 ^ 256" if "y < 2 ^ 256" for x y :: nat
  proof -
    have "int (x + (2 ^ 256 - y)) = (int x - int y) + 2 ^ 256"
      using that by (simp add: of_nat_diff)
    then show ?thesis by (simp only: of_nat_mod of_nat_power of_nat_numeral mod_add_self2)
  qed
  have neg: "is_arith256 (uint_neg a)" "limbs_val (uint_neg a) = (2 ^ 256 - limbs_val a) mod 2 ^ 256"
    using assms(1) is_arith256_256 [OF assms(1)] unfolding limbs_val_neg is_arith256_def by simp_all
  show ?thesis
    using assms neg diff [OF a256.val_less [OF assms(2)], of "limbs_val a"]
      diff [OF a256.val_less [OF assms(1)], of 0]
    by (simp add: a256.wf_add a256.val_add a256.wf_sub a256.val_sub a256.wf_mul a256.val_mul
        a256.wf_mul32 a256.val_mul32 del: of_nat_mod)
qed

theorem uint256_modular_witness:
  "is_arith256 (uint_not (uint_of_u64 WIDTH 0)) \<and>
   limbs_val (uint_add (uint_not (uint_of_u64 WIDTH 0)) (uint_of_u64 WIDTH 2)) = 1"
  using uint256_modular [OF a256.wf_bnot [OF a256.wf_of_u64 [of 0]] a256.wf_of_u64 [of 2], of 0]
    a256.val_bnot [OF a256.wf_of_u64 [of 0]] a256.val_of_u64 [of 0] a256.val_of_u64 [of 2]
    a256.wf_bnot [OF a256.wf_of_u64 [of 0]] by simp

text \<open>Property C33. Long division returns the integer quotient for a non-zero divisor, and raises
  exactly when the divisor is zero.\<close>

theorem uint256_division:
  assumes "is_arith256 a" "is_arith256 b"
  shows "if limbs_val b = 0 then uint_div a b = Inl DivisionByZero
     else (\<exists>q. uint_div a b = Inr q \<and> is_arith256 q \<and> limbs_val q = limbs_val a div limbs_val b)"
  using a256.quot_val [OF assms] a256.quot_zero [of b a] by simp

theorem uint256_division_witness:
  "\<exists>q. uint_div (uint_of_u64 WIDTH 1000) (uint_of_u64 WIDTH 7) = Inr q \<and> limbs_val q = 142"
  using uint256_division [OF a256.wf_of_u64 [of 1000] a256.wf_of_u64 [of 7]] a256.val_of_u64 [of 7]
    a256.val_of_u64 [of 1000] by auto

text \<open>Shifts are multiplication by a power of two modulo \<open>2^256\<close> and integer division by
  one, for every shift width, and comparison of limb arrays is comparison of the numbers.\<close>

theorem uint256_shift_compare:
  assumes "is_arith256 a" "is_arith256 b"
  shows "limbs_val (uint_shl a k) = limbs_val a * 2 ^ k mod 2 ^ 256 \<and>
    limbs_val (uint_shr a k) = limbs_val a div 2 ^ k \<and>
    uint_CompareTo a b = sgn (int (limbs_val a) - int (limbs_val b)) \<and>
    (uint_EqualTo a x \<longleftrightarrow> limbs_val a = unat x) \<and>
    (uint_bits a \<le> k \<longleftrightarrow> limbs_val a < 2 ^ k)"
proof -
  have "2 \<le> length a" using assms(1) by (simp add: is_arith256_def WIDTH_def)
  then show ?thesis
    using a256.cmp_val [OF assms] uint_EqualTo_val [of a x] is_arith256_256 [OF assms(1)]
    unfolding limbs_val_shl limbs_val_shr uint_bits_less_iff by simp
qed

theorem uint256_shift_compare_witness:
  "is_arith256 (uint_of_u64 WIDTH 3) \<and> limbs_val (uint_shl (uint_of_u64 WIDTH 3) 100) = 3 * 2 ^ 100 \<and>
   uint_CompareTo (uint_of_u64 WIDTH 3) (uint_of_u64 WIDTH 5) = - 1"
  using uint256_shift_compare [OF a256.wf_of_u64 [of 3] a256.wf_of_u64 [of 5], of 100 0]
    a256.val_of_u64 [of 3] a256.val_of_u64 [of 5] a256.wf_of_u64 [of 3] by simp

text \<open>\<open>SetCompact\<close> decodes a 32-bit target as mantissa times a power of 256 and sets its
  overflow flag exactly when that number does not fit into 256 bits and its negative flag exactly when
  the sign bit is set on a non-zero mantissa.\<close>

theorem SetCompact_decodes:
  "case SetCompact c of (r, neg, ovf) \<Rightarrow>
     (let sz = unat c div 2 ^ 24; mt = unat c mod 2 ^ 23;
          w = (if sz \<le> 3 then mt div 256 ^ (3 - sz) else mt)
      in is_arith256 r \<and>
         limbs_val r = (if sz \<le> 3 then w else w * 256 ^ (sz - 3) mod 2 ^ 256) \<and>
         neg = (w \<noteq> 0 \<and> bit c 23) \<and>
         ovf = (sz > 3 \<and> w * 256 ^ (sz - 3) \<ge> 2 ^ 256))"
proof -
  obtain r neg ovf where s: "SetCompact c = (r, neg, ovf)" by (metis prod_cases3)
  show ?thesis
    using SetCompact_val [of c] unfolding s prod.case fst_conv snd_conv Let_def is_arith256_def
    by (simp cong: if_cong)
qed

lemma pow2_byte: "(2 :: nat) ^ (8 * k) = 256 ^ k"
  by (simp add: power_mult)

lemma pow2_signed: "0 < n \<Longrightarrow> (2 :: nat) ^ (8 * n - 1) = (if n \<le> 3 then 2 ^ 23 div 256 ^ (3 - n) else 2 ^ 23 * 256 ^ (n - 3))"
proof (cases "n \<le> 3")
  case True
  moreover assume "0 < n"
  ultimately consider "n = 1" | "n = 2" | "n = 3" by linarith
  then show ?thesis by cases simp_all
next
  case False
  then have "8 * n - 1 = 23 + 8 * (n - 3)" by simp
  then show ?thesis using False by (simp add: power_add pow2_byte)
qed

text \<open>The size that \<open>GetCompact\<close> chooses is the number of bytes of the value with a sign bit, and the mantissa its three leading bytes.\<close>

lemma compact_parts_spec:
  assumes "v < 256 ^ n" "0 < n \<Longrightarrow> 256 ^ (n - 1) \<le> v"
  defines "s \<equiv> snd (compact_parts n v)"
  shows "v < 2 ^ (8 * s - 1)" "\<forall>j < s. 2 ^ (8 * j - 1) \<le> v"
    "fst (compact_parts n v) = (if s \<le> 3 then v * 256 ^ (3 - s) else v div 256 ^ (s - 3))"
proof -
  define m where "m = (if n \<le> 3 then v * 256 ^ (3 - n) else v div 256 ^ (n - 3))"
  have parts: "fst (compact_parts n v) = (if 2 ^ 23 \<le> m then m div 256 else m)" "s = (if 2 ^ 23 \<le> m then n + 1 else n)"
    by (simp_all add: s_def compact_parts_def m_def Let_def)
  have m0: "n = 0 \<Longrightarrow> v = 0 \<and> m = 0" using assms(1) by (simp add: m_def)
  have sign: "m < 2 ^ 23 \<longleftrightarrow> v < 2 ^ (8 * n - 1)" if n0: "0 < n"
  proof (cases "n \<le> 3")
    case True
    then consider "n = 1" | "n = 2" | "n = 3" using n0 by linarith
    then show ?thesis by cases (simp_all add: m_def)
  next
    case False
    then show ?thesis using pow2_signed [OF n0] by (simp add: m_def div_less_iff_less_mult)
  qed
  have mono: "(2 :: nat) ^ (8 * j - 1) \<le> 2 ^ (8 * k - 1)" if "j \<le> k" for j k
    by (rule power_increasing) (use that in simp_all)
  show "v < 2 ^ (8 * s - 1)"
  proof (cases "2 ^ 23 \<le> m")
    case True
    then have "8 * s - 1 = 8 * n + 7" using parts(2) by simp
    then show ?thesis using assms(1) by (simp add: power_add pow2_byte)
  next
    case False
    then show ?thesis using parts(2) sign m0 by (cases "n = 0") simp_all
  qed
  show "\<forall>j < s. 2 ^ (8 * j - 1) \<le> v"
  proof (intro allI impI)
    fix j assume j: "j < s"
    show "2 ^ (8 * j - 1) \<le> v"
    proof (cases "2 ^ 23 \<le> m")
      case True
      then have "0 < n" using m0 by (cases n) auto
      then have "2 ^ (8 * n - 1) \<le> v" using sign True by (simp add: not_less [symmetric])
      moreover have "(2 :: nat) ^ (8 * j - 1) \<le> 2 ^ (8 * n - 1)" using mono [of j n] j parts(2) True by simp
      ultimately show ?thesis by (rule order_trans [rotated])
    next
      case False
      then have n: "0 < n" "j \<le> n - 1" using j parts(2) by auto
      have "(2 :: nat) ^ (8 * j - 1) \<le> 2 ^ (8 * (n - 1))" using n(2) by (intro power_increasing) simp_all
      then show ?thesis using assms(2) [OF n(1)] by (simp add: pow2_byte)
    qed
  qed
  show "fst (compact_parts n v) = (if s \<le> 3 then v * 256 ^ (3 - s) else v div 256 ^ (s - 3))"
  proof (cases "2 ^ 23 \<le> m")
    case False
    then show ?thesis using parts by (simp add: m_def)
  next
    case True
    then have s: "s = n + 1" "fst (compact_parts n v) = m div 256" using parts by simp_all
    consider "n < 3" | "n = 3" | "3 < n" by linarith
    then show ?thesis
    proof cases
      case 1
      then have "3 - n = Suc (2 - n)" by simp
      then show ?thesis using 1 s by (simp add: m_def)
    next
      case 3
      then have "n - 2 = Suc (n - 3)" by simp
      then have "v div 256 ^ (n - 3) div 256 = v div 256 ^ (n - 2)" by (simp only: power_Suc2 div_mult2_eq)
      then show ?thesis using 3 s by (simp add: m_def)
    qed (use s in \<open>simp add: m_def\<close>)
  qed
qed


text \<open>Property C32. The compact form of a non-negative number is pinned: \<open>GetCompact\<close> never fails an assertion; the size byte is the least
  number of bytes that hold the value with a sign bit, the mantissa the three leading bytes of that length. Decoding
  gives no flags and the value with the bytes below the mantissa cleared, so at least the leading 15 bits are
  kept, and encoding that again gives the same 32 bits.\<close>

theorem GetCompact_roundtrip:
  assumes "is_arith256 a"
  shows "\<exists>c r size. GetCompact a False = Some c \<and>
     limbs_val a < 2 ^ (8 * size - 1) \<and> (\<forall>j < size. 2 ^ (8 * j - 1) \<le> limbs_val a) \<and>
     unat c = size * 2 ^ 24 + (if size \<le> 3 then limbs_val a * 256 ^ (3 - size) else limbs_val a div 256 ^ (size - 3)) \<and>
     SetCompact c = (r, False, False) \<and> is_arith256 r \<and> GetCompact r False = Some c \<and>
     limbs_val r = limbs_val a div 256 ^ (size - 3) * 256 ^ (size - 3) \<and> (limbs_val a - limbs_val r) * 2 ^ 15 \<le> limbs_val a"
proof -
  have len: "length a = WIDTH" using assms by (simp add: is_arith256_def)
  define n where "n = (uint_bits a + 7) div 8"
  define size where "size = snd (compact_parts n (limbs_val a))"
  obtain c where c: "GetCompact a False = Some c" "unat c = fst (compact_parts n (limbs_val a)) + 2 ^ 24 * size"
    using GetCompact_val [OF len] unfolding n_def size_def by blast
  note b = uint_bytes_bounds [OF len, folded n_def]
  have nz: "256 ^ (n - 1) \<le> limbs_val a" if "0 < n"
    using that b(3) by (cases "limbs_val a = 0") (simp_all add: n_def)
  note spec = compact_parts_spec [OF b(1) nz, folded size_def]
  have "fst (compact_parts n (limbs_val a)) < 2 ^ 23" using compact_parts_less [OF b(1,2)] by simp
  then have k: "unat c div 2 ^ 24 = size" unfolding c(2) by simp
  obtain r where r: "SetCompact c = (r, False, False)" "length r = WIDTH" "GetCompact r False = Some c"
    "limbs_val r = limbs_val a div 256 ^ (size - 3) * 256 ^ (size - 3)"
    using GetCompact_SetCompact [OF len c(1)] unfolding k by blast
  have "(limbs_val a - limbs_val r) * 2 ^ 15 \<le> limbs_val a"
  proof (cases "size \<le> 3")
    case False
    have "limbs_val a - limbs_val r = limbs_val a mod 256 ^ (size - 3)" unfolding r(4) by (simp add: minus_div_mult_eq_mod)
    also have "\<dots> \<le> 256 ^ (size - 3)" by simp
    finally have "(limbs_val a - limbs_val r) * 2 ^ 15 \<le> 2 ^ (8 * (size - 3)) * 2 ^ 15" unfolding pow2_byte by (rule mult_right_mono) simp
    also have "\<dots> = 2 ^ (8 * (size - 1) - 1)"
    proof -
      have "8 * (size - 1) - 1 = 8 * (size - 3) + 15" using False by simp
      then show ?thesis by (simp only: power_add)
    qed
    also have "\<dots> \<le> limbs_val a" using spec(2) False by simp
    finally show ?thesis .
  qed (simp add: r(4))
  then show ?thesis using c r spec by (intro exI [of _ c] exI [of _ r] exI [of _ size]) (simp add: is_arith256_def)
qed

theorem GetCompact_roundtrip_witness:
  "is_arith256 (uint_of_u64 WIDTH 0x12345678) \<and>
   (\<exists>c r. GetCompact (uint_of_u64 WIDTH 0x12345678) False = Some c \<and> unat c = 0x04123456 \<and> SetCompact c = (r, False, False) \<and> limbs_val r = 0x12345600)"
proof -
  have w: "is_arith256 (uint_of_u64 WIDTH 0x12345678)" by (rule a256.wf_of_u64)
  have v: "limbs_val (uint_of_u64 WIDTH 0x12345678) = 0x12345678" by (simp add: a256.val_of_u64)
  obtain c r size where s: "GetCompact (uint_of_u64 WIDTH 0x12345678) False = Some c" "0x12345678 < (2 :: nat) ^ (8 * size - 1)"
    "\<forall>j < size. 2 ^ (8 * j - 1) \<le> (0x12345678 :: nat)"
    "unat c = size * 2 ^ 24 + (if size \<le> 3 then 0x12345678 * 256 ^ (3 - size) else 0x12345678 div 256 ^ (size - 3))"
    "SetCompact c = (r, False, False)" "limbs_val r = 0x12345678 div 256 ^ (size - 3) * 256 ^ (size - 3)"
    using GetCompact_roundtrip [OF w] unfolding v by metis
  have "\<not> 4 < size" using s(3) [rule_format, of 4] by auto
  moreover have "size \<noteq> 0" "size \<noteq> 1" "size \<noteq> 2" "size \<noteq> 3" using s(2) by (cases "size = 0"; auto)+
  ultimately have "size = 4" by linarith
  then show ?thesis using w s by simp
qed

end
