(* ===== verification/Serialize.thy ===== *)
theory Serialize
  imports Prelude Arith_Uint256 "HOL-Library.Log_Nat"
begin

text \<open>
  The byte level of the program: the little-endian accessors of
  \<^verbatim>\<open>src/src/crypto/common.h\<close>, the conversions between \<open>uint256\<close> blobs and
  \<open>arith_uint256\<close>, and the serialization templates of \<^verbatim>\<open>src/src/serialize.h\<close>.
  A stream is the list of the bytes not yet read; writing appends to a byte list. A read
  returns the value and the rest of the stream, or the exception that the source throws.
  The locale \<open>codec\<close> is the contract of a pair of \<open>Serialize\<close> and \<open>Unserialize\<close>
  functions: reading back what was written returns the value and leaves the rest of the
  stream alone. Each type of the protocol interprets it.
\<close>

datatype ser_error =
    EndOfData
  | NonCanonicalCompactSize
  | SizeTooLarge
  | OutOfRangeBits
  | OutOfBoundsIndex
  | OffsetOverflow
  | StringLimitExceeded
  | InvalidVarIntsByte

type_synonym 'a ser_result = "ser_error + 'a \<times> bytes"

definition ser_bind :: "'a ser_result \<Rightarrow> ('a \<Rightarrow> bytes \<Rightarrow> 'b ser_result) \<Rightarrow> 'b ser_result" where
  "ser_bind r f = (case r of Inl e \<Rightarrow> Inl e | Inr (x, rest) \<Rightarrow> f x rest)"

definition ser_map :: "('a \<Rightarrow> 'b) \<Rightarrow> 'a ser_result \<Rightarrow> 'b ser_result" where
  "ser_map f r = (case r of Inl e \<Rightarrow> Inl e | Inr (x, rest) \<Rightarrow> Inr (f x, rest))"

subsection \<open>Little-endian numbers\<close>

fun le_encode :: "nat \<Rightarrow> nat \<Rightarrow> bytes" where
  "le_encode 0 v = []"
| "le_encode (Suc n) v = of_nat v # le_encode n (v div 256)"

fun le_val :: "bytes \<Rightarrow> nat" where
  "le_val [] = 0"
| "le_val (b # bs) = unat b + 256 * le_val bs"

definition WriteLE16 :: "u16 \<Rightarrow> bytes" where "WriteLE16 x = le_encode 2 (unat x)"
definition WriteLE32 :: "u32 \<Rightarrow> bytes" where "WriteLE32 x = le_encode 4 (unat x)"
definition WriteLE64 :: "u64 \<Rightarrow> bytes" where "WriteLE64 x = le_encode 8 (unat x)"
definition ReadLE16 :: "bytes \<Rightarrow> u16" where "ReadLE16 p = of_nat (le_val (take 2 p))"
definition ReadLE32 :: "bytes \<Rightarrow> u32" where "ReadLE32 p = of_nat (le_val (take 4 p))"
definition ReadLE64 :: "bytes \<Rightarrow> u64" where "ReadLE64 p = of_nat (le_val (take 8 p))"
definition WriteBE32 :: "u32 \<Rightarrow> bytes" where "WriteBE32 x = rev (le_encode 4 (unat x))"
definition WriteBE64 :: "u64 \<Rightarrow> bytes" where "WriteBE64 x = rev (le_encode 8 (unat x))"
definition ReadBE32 :: "bytes \<Rightarrow> u32" where "ReadBE32 p = of_nat (le_val (rev (take 4 p)))"
definition ReadBE64 :: "bytes \<Rightarrow> u64" where "ReadBE64 p = of_nat (le_val (rev (take 8 p)))"

text \<open>The loop of \<open>CountBits\<close> without compiler intrinsics.\<close>

function CountBits_loop :: "u64 \<Rightarrow> nat \<Rightarrow> nat" where
  "CountBits_loop x ret = (if x \<noteq> 0 then CountBits_loop (drop_bit 1 x) (Suc ret) else ret)"
  by pat_completeness auto
termination
proof (relation "measure (\<lambda>(x, _). unat x)")
  fix x :: u64 and ret :: nat
  assume "x \<noteq> 0"
  then have "0 < unat x" by (simp add: unat_gt_0)
  then show "((drop_bit 1 x, Suc ret), (x, ret)) \<in> measure (\<lambda>(x, _). unat x)"
    by (simp add: unat_drop_bit)
qed simp

definition CountBits :: "u64 \<Rightarrow> nat" where
  "CountBits x = CountBits_loop x 0"

declare CountBits_loop.simps [simp del]

subsection \<open>uint256 blobs and arith\_uint256\<close>

type_synonym uint256 = bytes

definition is_uint256 :: "uint256 \<Rightarrow> bool" where
  "is_uint256 b \<longleftrightarrow> length b = 32"

definition ArithToUint256 :: "base_uint \<Rightarrow> uint256" where
  "ArithToUint256 a = concat (map (\<lambda>x. WriteLE32 (a ! x)) [0..<WIDTH])"

definition UintToArith256 :: "uint256 \<Rightarrow> base_uint" where
  "UintToArith256 a = map (\<lambda>x. ReadLE32 (drop (x * 4) a)) [0..<WIDTH]"

subsection \<open>Fixed-size integers\<close>

definition ser_read :: "nat \<Rightarrow> bytes \<Rightarrow> bytes ser_result" where
  "ser_read n s = (if length s < n then Inl EndOfData else Inr (take n s, drop n s))"

definition ser_writedata8 :: "u8 \<Rightarrow> bytes" where "ser_writedata8 x = [x]"
definition ser_writedata16 :: "u16 \<Rightarrow> bytes" where "ser_writedata16 x = WriteLE16 x"
definition ser_writedata32 :: "u32 \<Rightarrow> bytes" where "ser_writedata32 x = WriteLE32 x"
definition ser_writedata64 :: "u64 \<Rightarrow> bytes" where "ser_writedata64 x = WriteLE64 x"
definition ser_writedata32be :: "u32 \<Rightarrow> bytes" where "ser_writedata32be x = WriteBE32 x"

definition ser_readdata8 :: "bytes \<Rightarrow> u8 ser_result" where
  "ser_readdata8 s = ser_map (\<lambda>p. p ! 0) (ser_read 1 s)"
definition ser_readdata16 :: "bytes \<Rightarrow> u16 ser_result" where
  "ser_readdata16 s = ser_map ReadLE16 (ser_read 2 s)"
definition ser_readdata32 :: "bytes \<Rightarrow> u32 ser_result" where
  "ser_readdata32 s = ser_map ReadLE32 (ser_read 4 s)"
definition ser_readdata64 :: "bytes \<Rightarrow> u64 ser_result" where
  "ser_readdata64 s = ser_map ReadLE64 (ser_read 8 s)"
definition ser_readdata32be :: "bytes \<Rightarrow> u32 ser_result" where
  "ser_readdata32be s = ser_map ReadBE32 (ser_read 4 s)"

definition Serialize_bool :: "bool \<Rightarrow> bytes" where
  "Serialize_bool a = ser_writedata8 (if a then 1 else 0)"
definition Unserialize_bool :: "bytes \<Rightarrow> bool ser_result" where
  "Unserialize_bool s = ser_map (\<lambda>f. f \<noteq> 0) (ser_readdata8 s)"

subsection \<open>CompactSize\<close>

definition MAX_SIZE :: u64 where "MAX_SIZE = 0x02000000"

definition GetSizeOfCompactSize :: "u64 \<Rightarrow> nat" where
  "GetSizeOfCompactSize nSize =
     (if nSize < 253 then 1 else if nSize \<le> 0xffff then 1 + 2
      else if nSize \<le> 0xffffffff then 1 + 4 else 1 + 8)"

definition WriteCompactSize :: "u64 \<Rightarrow> bytes" where
  "WriteCompactSize nSize =
     (if nSize < 253 then ser_writedata8 (ucast nSize)
      else if nSize \<le> 0xffff then ser_writedata8 253 @ ser_writedata16 (ucast nSize)
      else if nSize \<le> 0xffffffff then ser_writedata8 254 @ ser_writedata32 (ucast nSize)
      else ser_writedata8 255 @ ser_writedata64 nSize)"

definition check_MAX_SIZE :: "u64 \<Rightarrow> bytes \<Rightarrow> u64 ser_result" where
  "check_MAX_SIZE nSizeRet s = (if nSizeRet > MAX_SIZE then Inl SizeTooLarge else Inr (nSizeRet, s))"

definition ReadCompactSize :: "bytes \<Rightarrow> u64 ser_result" where
  "ReadCompactSize s = ser_bind (ser_readdata8 s) (\<lambda>chSize s.
     if chSize < 253 then check_MAX_SIZE (ucast chSize) s
     else if chSize = 253 then ser_bind (ser_readdata16 s) (\<lambda>n s.
       if ucast n < (253 :: u64) then Inl NonCanonicalCompactSize else check_MAX_SIZE (ucast n) s)
     else if chSize = 254 then ser_bind (ser_readdata32 s) (\<lambda>n s.
       if ucast n < (0x10000 :: u64) then Inl NonCanonicalCompactSize else check_MAX_SIZE (ucast n) s)
     else ser_bind (ser_readdata64 s) (\<lambda>n s.
       if n < 0x100000000 then Inl NonCanonicalCompactSize else check_MAX_SIZE n s))"

subsection \<open>VarInt\<close>

text \<open>
  \<open>WriteVarInt\<close> fills \<open>tmp\<close> from its last byte to its first and writes it backwards;
  the model builds the list of the bytes in the order they are written. \<open>first\<close> is
  \<open>len == 0\<close>, the last byte of the encoding. The template parameter \<open>I\<close> is an
  unsigned type and \<open>n\<close> only shrinks, so \<open>n\<close> is a natural number on the writing
  side; the reading side shifts and adds at the width of \<open>I\<close>.
\<close>

fun WriteVarInt_loop :: "bool \<Rightarrow> nat \<Rightarrow> bytes \<Rightarrow> bytes" where
  "WriteVarInt_loop first n tmp =
     (let tmp = (of_nat (n mod 128) OR (if first then 0 else 0x80)) # tmp
      in if n \<le> 0x7F then tmp else WriteVarInt_loop False (n div 128 - 1) tmp)"

declare WriteVarInt_loop.simps [simp del]

definition WriteVarInt :: "nat \<Rightarrow> bytes" where
  "WriteVarInt n = WriteVarInt_loop True n []"

fun ReadVarInt_loop :: "'a::len word \<Rightarrow> bytes \<Rightarrow> 'a word ser_result" where
  "ReadVarInt_loop n [] = Inl EndOfData"
| "ReadVarInt_loop n (chData # s) =
     (let n' = push_bit 7 n OR ucast (chData AND 0x7F)
      in if chData AND 0x80 \<noteq> 0 then ReadVarInt_loop (n' + 1) s else Inr (n', s))"

definition ReadVarInt :: "bytes \<Rightarrow> 'a::len word ser_result" where
  "ReadVarInt s = ReadVarInt_loop 0 s"

fun GetSizeOfVarInt_loop :: "nat \<Rightarrow> nat \<Rightarrow> nat" where
  "GetSizeOfVarInt_loop n nRet =
     (if n \<le> 0x7F then Suc nRet else GetSizeOfVarInt_loop (n div 128 - 1) (Suc nRet))"

declare GetSizeOfVarInt_loop.simps [simp del]

definition GetSizeOfVarInt :: "nat \<Rightarrow> nat" where
  "GetSizeOfVarInt n = GetSizeOfVarInt_loop n 0"

subsection \<open>Strings, vectors and pairs\<close>

definition Serialize_bytes :: "bytes \<Rightarrow> bytes" where
  "Serialize_bytes v = WriteCompactSize (of_nat (length v)) @ v"

text \<open>
  \<open>Unserialize_impl\<close> for byte vectors reads in blocks of at most 5000000 bytes;
  \<open>n\<close> is the number of bytes left to read, \<open>nSize - i\<close>.
\<close>

function read_blocks :: "nat \<Rightarrow> bytes \<Rightarrow> bytes \<Rightarrow> bytes ser_result" where
  "read_blocks n v s =
     (if 0 < n then let blk = min n (1 + 4999999) in
        ser_bind (ser_read blk s) (\<lambda>p s. read_blocks (n - blk) (v @ p) s)
      else Inr (v, s))"
  by pat_completeness auto
termination
  by (relation "measure (\<lambda>(n, _, _). n)") auto

declare read_blocks.simps [simp del]

definition Unserialize_bytes :: "bytes \<Rightarrow> bytes ser_result" where
  "Unserialize_bytes s = ser_bind (ReadCompactSize s) (\<lambda>nSize s. read_blocks (unat nSize) [] s)"

definition Serialize_vector :: "('a \<Rightarrow> bytes) \<Rightarrow> 'a list \<Rightarrow> bytes" where
  "Serialize_vector enc v = WriteCompactSize (of_nat (length v)) @ concat (map enc v)"

fun read_items :: "(bytes \<Rightarrow> 'a ser_result) \<Rightarrow> nat \<Rightarrow> bytes \<Rightarrow> 'a list ser_result" where
  "read_items dec 0 s = Inr ([], s)"
| "read_items dec (Suc n) s =
     ser_bind (dec s) (\<lambda>x s. ser_map (\<lambda>xs. x # xs) (read_items dec n s))"

definition Unserialize_vector :: "(bytes \<Rightarrow> 'a ser_result) \<Rightarrow> bytes \<Rightarrow> 'a list ser_result" where
  "Unserialize_vector dec s = ser_bind (ReadCompactSize s) (\<lambda>nSize s. read_items dec (unat nSize) s)"

definition Serialize_pair :: "('a \<Rightarrow> bytes) \<Rightarrow> ('b \<Rightarrow> bytes) \<Rightarrow> 'a \<times> 'b \<Rightarrow> bytes" where
  "Serialize_pair enc1 enc2 p = enc1 (fst p) @ enc2 (snd p)"

definition Unserialize_pair ::
    "(bytes \<Rightarrow> 'a ser_result) \<Rightarrow> (bytes \<Rightarrow> 'b ser_result) \<Rightarrow> bytes \<Rightarrow> ('a \<times> 'b) ser_result" where
  "Unserialize_pair dec1 dec2 s =
     ser_bind (dec1 s) (\<lambda>x s. ser_bind (dec2 s) (\<lambda>y s. Inr ((x, y), s)))"

subsection \<open>Bit sets\<close>

definition FixedBitSet_set :: "bool list \<Rightarrow> nat \<Rightarrow> bytes \<Rightarrow> bytes" where
  "FixedBitSet_set vec p vBytes =
     vBytes[p div 8 := vBytes ! (p div 8) OR push_bit (p mod 8) (if vec ! p then 1 else 0)]"

definition Serialize_FixedBitSet :: "nat \<Rightarrow> bool list \<Rightarrow> bytes" where
  "Serialize_FixedBitSet sz vec =
     fold (FixedBitSet_set vec) [0..<min sz (length vec)] (replicate ((sz + 7) div 8) 0)"

definition Unserialize_FixedBitSet :: "nat \<Rightarrow> bytes \<Rightarrow> bool list ser_result" where
  "Unserialize_FixedBitSet sz s = ser_bind (ser_read ((sz + 7) div 8) s) (\<lambda>vBytes s.
     let vec = map (\<lambda>p. vBytes ! (p div 8) AND push_bit (p mod 8) 1 \<noteq> 0) [0..<sz]
     in if length vBytes * 8 \<noteq> sz then
          (let rem = length vBytes * 8 - sz; m = NOT (drop_bit rem 0xff) :: u8
           in if vBytes ! (length vBytes - 1) AND m \<noteq> 0 then Inl OutOfRangeBits else Inr (vec, s))
        else Inr (vec, s))"

definition Serialize_DynamicBitSet :: "bool list \<Rightarrow> bytes" where
  "Serialize_DynamicBitSet vec =
     WriteCompactSize (of_nat (length vec)) @ Serialize_FixedBitSet (length vec) vec"

definition Unserialize_DynamicBitSet :: "bytes \<Rightarrow> bool list ser_result" where
  "Unserialize_DynamicBitSet s =
     ser_bind (ReadCompactSize s) (\<lambda>n s. Unserialize_FixedBitSet (unat n) s)"

text \<open>\<open>i\<close> is the index of the head of the list, \<open>lastIdx\<close> (\<open>last\<close>) the index of the last set bit
  written, -1 at the start.\<close>

fun FixedVarInts_write :: "int \<Rightarrow> int \<Rightarrow> bool list \<Rightarrow> bytes" where
  "FixedVarInts_write i lastIdx [] = []"
| "FixedVarInts_write i lastIdx (b # bs) =
     (if b then WriteVarInt (unat (word_of_int (i - lastIdx) :: u32)) @ FixedVarInts_write (i + 1) i bs
      else FixedVarInts_write (i + 1) lastIdx bs)"

definition Serialize_FixedVarIntsBitSet :: "bool list \<Rightarrow> bytes" where
  "Serialize_FixedVarIntsBitSet vec = FixedVarInts_write 0 (- 1) vec @ WriteVarInt 0"

text \<open>
  \<open>idx = last + offset\<close> is computed on 32-bit unsigned values and stored in an
  \<open>int32_t\<close>; the comparison with \<open>sz\<close> is unsigned, so a negative \<open>idx\<close> is out of
  bounds. The first argument bounds the number of offsets read; every offset takes at
  least one byte of the stream, so the length of the stream is enough.
\<close>

fun FixedVarInts_read :: "nat \<Rightarrow> nat \<Rightarrow> int \<Rightarrow> bool list \<Rightarrow> bytes \<Rightarrow> bool list ser_result" where
  "FixedVarInts_read 0 sz lastIdx vec s = Inl EndOfData"
| "FixedVarInts_read (Suc fuel) sz lastIdx vec s =
     ser_bind (ReadVarInt s) (\<lambda>offset s.
       if offset = (0 :: u32) then Inr (vec, s)
       else let idx = sint (word_of_int lastIdx + offset) in
         if idx < 0 \<or> int sz \<le> idx then Inl OutOfBoundsIndex
         else if lastIdx \<noteq> - 1 \<and> idx \<le> lastIdx then Inl OffsetOverflow
         else FixedVarInts_read fuel sz idx (vec[nat idx := True]) s)"

definition Unserialize_FixedVarIntsBitSet :: "nat \<Rightarrow> bytes \<Rightarrow> bool list ser_result" where
  "Unserialize_FixedVarIntsBitSet sz s =
     FixedVarInts_read (Suc (length s)) sz (- 1) (replicate sz False) s"

text \<open>\<open>None\<close> is the failed \<open>assert(vec.size() == size)\<close>.\<close>

definition Serialize_AutoBitSet :: "nat \<Rightarrow> bool list \<Rightarrow> bytes option" where
  "Serialize_AutoBitSet sz vec =
     (if length vec \<noteq> sz then None
      else let size1 = length (Serialize_FixedBitSet sz vec);
               size2 = length (Serialize_FixedVarIntsBitSet vec)
      in if size1 < size2
         then Some (ser_writedata8 0 @ Serialize_FixedBitSet (length vec) vec)
         else Some (ser_writedata8 1 @ Serialize_FixedVarIntsBitSet vec))"

definition Unserialize_AutoBitSet :: "nat \<Rightarrow> bytes \<Rightarrow> bool list ser_result" where
  "Unserialize_AutoBitSet sz s = ser_bind (ser_readdata8 s) (\<lambda>isVarInts s.
     if isVarInts \<noteq> 0 \<and> isVarInts \<noteq> 1 then Inl InvalidVarIntsByte
     else if isVarInts = 0 then Unserialize_FixedBitSet sz s
     else Unserialize_FixedVarIntsBitSet sz s)"

definition Serialize_LimitedString :: "bytes \<Rightarrow> bytes" where
  "Serialize_LimitedString str = WriteCompactSize (of_nat (length str)) @ str"

definition Unserialize_LimitedString :: "nat \<Rightarrow> bytes \<Rightarrow> bytes ser_result" where
  "Unserialize_LimitedString limit s = ser_bind (ReadCompactSize s) (\<lambda>sz s.
     if unat sz > limit then Inl StringLimitExceeded else ser_read (unat sz) s)"

subsection \<open>Little-endian numbers\<close>

lemma length_le_encode [simp]: "length (le_encode n v) = n"
  by (induction n v rule: le_encode.induct) simp_all

lemma unat_of_nat_u8 [simp]: "unat (of_nat v :: u8) = v mod 256"
  by (simp add: unsigned_of_nat take_bit_eq_mod [where ?'a = nat])

lemma le_val_less: "le_val bs < 256 ^ length bs"
proof (induction bs)
  case (Cons b bs)
  have "unat b + 256 * le_val bs < 256 * Suc (le_val bs)" by simp
  also have "\<dots> \<le> 256 * 256 ^ length bs" using Cons by simp
  finally show ?case by simp
qed simp

lemma le_val_le_encode [simp]: "le_val (le_encode n v) = v mod 256 ^ n"
proof (induction n v rule: le_encode.induct)
  case (2 n v)
  have "v mod (256 * 256 ^ n) = v mod 256 + 256 * (v div 256 mod 256 ^ n)"
    by (simp add: mod_mult2_eq)
  then show ?case using 2 by simp
qed simp

lemma le_encode_le_val [simp]: "le_encode (length bs) (le_val bs) = bs"
proof (induction bs)
  case (Cons b bs)
  have "(unat b + 256 * le_val bs) div 256 = le_val bs" by simp
  moreover have "of_nat (unat b + 256 * le_val bs) = b"
    by (simp only: word_unat_eq_iff unat_of_nat_u8) simp
  ultimately show ?case using Cons by simp
qed simp

lemma le_val_append: "le_val (a @ b) = le_val a + 256 ^ length a * le_val b"
  by (induction a) (simp_all add: algebra_simps)

lemma le_encode_inj: "v < 256 ^ n \<Longrightarrow> w < 256 ^ n \<Longrightarrow> le_encode n v = le_encode n w \<Longrightarrow> v = w"
  by (metis le_val_le_encode mod_less)

lemma ReadLE_WriteLE [simp]:
  "ReadLE16 (WriteLE16 x) = x" "ReadLE32 (WriteLE32 y) = y" "ReadLE64 (WriteLE64 z) = z"
  by (simp_all add: ReadLE16_def WriteLE16_def ReadLE32_def WriteLE32_def ReadLE64_def WriteLE64_def)

lemma length_WriteLE [simp]:
  "length (WriteLE16 x) = 2" "length (WriteLE32 y) = 4" "length (WriteLE64 z) = 8"
  by (simp_all add: WriteLE16_def WriteLE32_def WriteLE64_def)

lemma ReadBE_WriteBE [simp]: "ReadBE32 (WriteBE32 y) = y" "ReadBE64 (WriteBE64 z) = z"
  by (simp_all add: ReadBE32_def WriteBE32_def ReadBE64_def WriteBE64_def)

lemma unat_ReadLE:
  "unat (ReadLE16 p) = le_val (take 2 p)" "unat (ReadLE32 p) = le_val (take 4 p)"
  "unat (ReadLE64 p) = le_val (take 8 p)"
proof -
  have "le_val (take n p) < 256 ^ n" for n
  proof -
    have "le_val (take n p) < 256 ^ length (take n p)" by (rule le_val_less)
    also have "\<dots> \<le> 256 ^ n" by (intro power_increasing) simp_all
    finally show ?thesis .
  qed
  from this [of 2] this [of 4] this [of 8] show
    "unat (ReadLE16 p) = le_val (take 2 p)" "unat (ReadLE32 p) = le_val (take 4 p)"
    "unat (ReadLE64 p) = le_val (take 8 p)"
    by (simp_all add: ReadLE16_def ReadLE32_def ReadLE64_def unsigned_of_nat take_bit_eq_mod [where ?'a = nat])
qed

lemma WriteLE_ReadLE:
  "length p = 2 \<Longrightarrow> WriteLE16 (ReadLE16 p) = p" "length p = 4 \<Longrightarrow> WriteLE32 (ReadLE32 p) = p"
  "length p = 8 \<Longrightarrow> WriteLE64 (ReadLE64 p) = p"
  using le_encode_le_val [of p]
  by (simp_all add: WriteLE16_def WriteLE32_def WriteLE64_def unat_ReadLE)

lemma CountBits_loop_floorlog: "CountBits_loop x r = r + floorlog 2 (unat x)"
proof (induction x r rule: CountBits_loop.induct)
  case (1 x r)
  show ?case
  proof (cases "x = 0")
    case True
    then show ?thesis by (simp add: CountBits_loop.simps floorlog_def)
  next
    case False
    then have "0 < unat x" by (simp add: unat_gt_0)
    then have "floorlog 2 (unat x) = Suc (floorlog 2 (unat x div 2))" by (subst compute_floorlog) simp
    moreover have "unat (drop_bit 1 x) = unat x div 2" by (simp only: unat_drop_bit) simp
    ultimately show ?thesis using "1.IH" [OF False] False by (subst CountBits_loop.simps) simp
  qed
qed

lemma CountBits_bounds: "unat x < 2 ^ CountBits x" "x \<noteq> 0 \<Longrightarrow> 2 ^ (CountBits x - 1) \<le> unat x"
  using floorlog_bounds [of "unat x" 2]
  by (cases "x = 0"; simp add: CountBits_def CountBits_loop_floorlog floorlog_def unat_gt_0)+

subsection \<open>Streams\<close>

lemma ser_bind_simps [simp]:
  "ser_bind (Inl e) f = Inl e" "ser_bind (Inr (x, s)) f = f x s"
  by (simp_all add: ser_bind_def)

lemma ser_map_simps [simp]:
  "ser_map g (Inl e) = Inl e" "ser_map g (Inr (x, s)) = Inr (g x, s)"
  by (simp_all add: ser_map_def)

lemma ser_bind_eq_Inr: "ser_bind r f = Inr y \<longleftrightarrow> (\<exists>x s. r = Inr (x, s) \<and> f x s = Inr y)"
  by (auto simp: ser_bind_def split: sum.splits)

lemma ser_map_eq_Inr: "ser_map g r = Inr (y, t) \<longleftrightarrow> (\<exists>x. r = Inr (x, t) \<and> g x = y)"
  by (auto simp: ser_map_def split: sum.splits)

lemma ser_read_append [simp]: "n = length a \<Longrightarrow> ser_read n (a @ s) = Inr (a, s)"
  by (simp add: ser_read_def)

lemma ser_read_eq_Inr: "ser_read n s = Inr (a, t) \<longleftrightarrow> s = a @ t \<and> length a = n"
  by (auto simp: ser_read_def)

lemma ser_readdata8_Cons [simp]: "ser_readdata8 (b # s) = Inr (b, s)"
  by (simp add: ser_readdata8_def ser_read_def)

lemma ser_readdata_write [simp]:
  "ser_readdata8 (ser_writedata8 a @ s) = Inr (a, s)"
  "ser_readdata16 (ser_writedata16 b @ s) = Inr (b, s)"
  "ser_readdata32 (ser_writedata32 c @ s) = Inr (c, s)"
  "ser_readdata64 (ser_writedata64 d @ s) = Inr (d, s)"
  "ser_readdata32be (ser_writedata32be c @ s) = Inr (c, s)"
  by (simp_all add: ser_writedata8_def ser_readdata16_def ser_writedata16_def
      ser_readdata32_def ser_writedata32_def ser_readdata64_def ser_writedata64_def
      ser_readdata32be_def ser_writedata32be_def WriteBE32_def ReadBE32_def)

lemma ser_readdata_eq_Inr:
  "ser_readdata8 s = Inr (a, t) \<longleftrightarrow> s = ser_writedata8 a @ t"
  "ser_readdata16 s = Inr (b, t) \<longleftrightarrow> s = ser_writedata16 b @ t"
  "ser_readdata32 s = Inr (c, t) \<longleftrightarrow> s = ser_writedata32 c @ t"
  "ser_readdata64 s = Inr (d, t) \<longleftrightarrow> s = ser_writedata64 d @ t"
proof -
  have "length p = 1 \<Longrightarrow> [p ! 0] = p" for p :: bytes by (cases p) auto
  then show "ser_readdata8 s = Inr (a, t) \<longleftrightarrow> s = ser_writedata8 a @ t"
    by (auto simp: ser_readdata8_def ser_map_eq_Inr ser_read_eq_Inr ser_writedata8_def)
  show "ser_readdata16 s = Inr (b, t) \<longleftrightarrow> s = ser_writedata16 b @ t"
    by (auto simp: ser_readdata16_def ser_map_eq_Inr ser_read_eq_Inr ser_writedata16_def WriteLE_ReadLE)
  show "ser_readdata32 s = Inr (c, t) \<longleftrightarrow> s = ser_writedata32 c @ t"
    by (auto simp: ser_readdata32_def ser_map_eq_Inr ser_read_eq_Inr ser_writedata32_def WriteLE_ReadLE)
  show "ser_readdata64 s = Inr (d, t) \<longleftrightarrow> s = ser_writedata64 d @ t"
    by (auto simp: ser_readdata64_def ser_map_eq_Inr ser_read_eq_Inr ser_writedata64_def WriteLE_ReadLE)
qed

subsection \<open>The codec contract\<close>

locale codec =
  fixes enc :: "'a \<Rightarrow> bytes" and dec :: "bytes \<Rightarrow> 'a ser_result" and ok :: "'a \<Rightarrow> bool"
  assumes dec_enc: "ok x \<Longrightarrow> dec (enc x @ s) = Inr (x, s)"
begin

lemma enc_prefix_free: "ok x \<Longrightarrow> ok y \<Longrightarrow> enc x @ s = enc y @ t \<Longrightarrow> x = y \<and> s = t"
  by (metis dec_enc prod.inject sum.inject(2))

lemma enc_inj: "ok x \<Longrightarrow> ok y \<Longrightarrow> enc x = enc y \<Longrightarrow> x = y"
  using enc_prefix_free [of x y "[]" "[]"] by simp

lemma read_items_concat:
  "list_all ok xs \<Longrightarrow> read_items dec (length xs) (concat (map enc xs) @ s) = Inr (xs, s)"
  by (induction xs) (simp_all add: dec_enc)

end

locale codec_exact = codec +
  assumes enc_dec: "dec s = Inr (x, t) \<Longrightarrow> s = enc x @ t \<and> ok x"
begin

lemma dec_iff: "dec s = Inr (x, t) \<longleftrightarrow> ok x \<and> s = enc x @ t"
  using enc_dec dec_enc by blast

lemma dec_shorter: "dec s = Inr (x, t) \<Longrightarrow> length t \<le> length s"
  by (simp add: dec_iff)

lemma read_items_exact:
  "read_items dec n s = Inr (xs, t) \<Longrightarrow> length xs = n \<and> list_all ok xs \<and> s = concat (map enc xs) @ t"
proof (induction n arbitrary: s xs t)
  case (Suc n)
  then obtain x s' xs' where "dec s = Inr (x, s')" "read_items dec n s' = Inr (xs', t)" "xs = x # xs'"
    by (auto simp: ser_bind_eq_Inr ser_map_eq_Inr)
  then show ?case using Suc.IH [of s' xs' t] enc_dec [of s x s'] by simp
qed simp

end

interpretation c8: codec_exact ser_writedata8 ser_readdata8 "\<lambda>_. True"
  by unfold_locales (simp_all add: ser_readdata_eq_Inr)

interpretation c16: codec_exact ser_writedata16 ser_readdata16 "\<lambda>_. True"
  by unfold_locales (simp_all add: ser_readdata_eq_Inr)

interpretation c32: codec_exact ser_writedata32 ser_readdata32 "\<lambda>_. True"
  by unfold_locales (simp_all add: ser_readdata_eq_Inr)

interpretation c64: codec_exact ser_writedata64 ser_readdata64 "\<lambda>_. True"
  by unfold_locales (simp_all add: ser_readdata_eq_Inr)

lemma compact_ucast:
  "n < 253 \<Longrightarrow> ucast (ucast (n :: u64) :: u8) = n"
  "n \<le> 0xffff \<Longrightarrow> ucast (ucast n :: u16) = n"
  "n \<le> 0xffffffff \<Longrightarrow> ucast (ucast n :: u32) = n"
  by (simp_all add: word_unat_eq_iff word_less_nat_alt word_le_nat_alt unat_ucast)

lemma check_MAX_SIZE_simps:
  "n \<le> MAX_SIZE \<Longrightarrow> check_MAX_SIZE n s = Inr (n, s)"
  "check_MAX_SIZE n s = Inr (m, t) \<longleftrightarrow> n = m \<and> s = t \<and> n \<le> MAX_SIZE"
  by (auto simp: check_MAX_SIZE_def not_less)

lemma ReadCompactSize_Write:
  assumes "n \<le> MAX_SIZE"
  shows "ReadCompactSize (WriteCompactSize n @ s) = Inr (n, s)"
proof -
  note d = ReadCompactSize_def WriteCompactSize_def
  have small: "unat n \<le> 0x02000000" using assms by (simp add: MAX_SIZE_def word_le_nat_alt)
  consider "n < 253" | "\<not> n < 253" "n \<le> 0xffff" | "\<not> n \<le> 0xffff" "n \<le> 0xffffffff"
    using small by (fastforce simp: word_le_nat_alt)
  then show ?thesis
  proof cases
    case 1
    then have "(ucast n :: u8) < 253" by (simp add: word_less_nat_alt unat_ucast)
    then show ?thesis using 1 assms by (simp add: d compact_ucast check_MAX_SIZE_simps)
  next
    case 2
    then show ?thesis using assms by (simp add: d compact_ucast check_MAX_SIZE_simps)
  next
    case 3
    then have "\<not> n < 253" "\<not> n < 0x10000" by (simp_all add: word_less_nat_alt word_le_nat_alt)
    then show ?thesis using 3 assms by (simp add: d compact_ucast check_MAX_SIZE_simps)
  qed
qed

lemma WriteCompactSize_Read:
  assumes "ReadCompactSize s = Inr (n, t)"
  shows "s = WriteCompactSize n @ t \<and> n \<le> MAX_SIZE"
proof -
  obtain ch s' where s: "s = ser_writedata8 ch @ s'"
    and r: "(if ch < 253 then check_MAX_SIZE (ucast ch) s'
     else if ch = 253 then ser_bind (ser_readdata16 s') (\<lambda>n s.
       if ucast n < (253 :: u64) then Inl NonCanonicalCompactSize else check_MAX_SIZE (ucast n) s)
     else if ch = 254 then ser_bind (ser_readdata32 s') (\<lambda>n s.
       if ucast n < (0x10000 :: u64) then Inl NonCanonicalCompactSize else check_MAX_SIZE (ucast n) s)
     else ser_bind (ser_readdata64 s') (\<lambda>n s.
       if n < 0x100000000 then Inl NonCanonicalCompactSize else check_MAX_SIZE n s)) = Inr (n, t)"
    using assms unfolding ReadCompactSize_def by (auto simp: ser_bind_eq_Inr ser_readdata_eq_Inr)
  consider "ch < 253" | "ch = 253" | "ch = 254" | "\<not> ch < 253" "ch \<noteq> 253" "ch \<noteq> 254" by blast
  then show ?thesis
  proof cases
    case 1
    then have "n = ucast ch" "t = s'" "n \<le> MAX_SIZE" using r by (auto simp: check_MAX_SIZE_simps)
    moreover have "(ucast ch :: u64) < 253" using 1 by (simp add: word_less_nat_alt unat_ucast)
    moreover have "ucast (ucast ch :: u64) = ch" by (simp add: ucast_ucast_up)
    ultimately show ?thesis using s by (simp add: WriteCompactSize_def)
  next
    case 2
    then obtain m where m: "s' = ser_writedata16 m @ t" "n = ucast m" "\<not> ucast m < (253 :: u64)" "n \<le> MAX_SIZE"
      using r by (auto simp: ser_bind_eq_Inr ser_readdata_eq_Inr check_MAX_SIZE_simps split: if_splits)
    moreover have "(ucast m :: u64) \<le> 0xffff"
    proof -
      have "unat m \<le> 65535" using unat_u16_less [of m] by linarith
      then show ?thesis by (simp add: word_le_nat_alt unat_ucast_up)
    qed
    moreover have "ucast (ucast m :: u64) = m" by (simp add: ucast_ucast_up)
    ultimately show ?thesis using s 2 by (simp add: WriteCompactSize_def)
  next
    case 3
    then obtain m where m: "s' = ser_writedata32 m @ t" "n = ucast m" "\<not> ucast m < (0x10000 :: u64)" "n \<le> MAX_SIZE"
      using r by (auto simp: ser_bind_eq_Inr ser_readdata_eq_Inr check_MAX_SIZE_simps split: if_splits)
    moreover have "(ucast m :: u64) \<le> 0xffffffff"
    proof -
      have "unat m \<le> 4294967295" using unat_u32_less [of m] by linarith
      then show ?thesis by (simp add: word_le_nat_alt unat_ucast_up)
    qed
    moreover have "\<not> (ucast m :: u64) < 253" "\<not> (ucast m :: u64) \<le> 0xffff"
      using m(3) by (simp_all add: word_le_nat_alt word_less_nat_alt unat_ucast)
    moreover have "ucast (ucast m :: u64) = m" by (simp add: ucast_ucast_up)
    ultimately show ?thesis using s 3 by (simp add: WriteCompactSize_def)
  next
    case 4
    then have "\<not> n < 0x100000000" "n \<le> MAX_SIZE"
      using r by (auto simp: ser_bind_eq_Inr ser_readdata_eq_Inr check_MAX_SIZE_simps split: if_splits)
    then show ?thesis by (simp add: MAX_SIZE_def word_le_nat_alt word_less_nat_alt)
  qed
qed

interpretation compact: codec_exact WriteCompactSize ReadCompactSize "\<lambda>n. n \<le> MAX_SIZE"
  using ReadCompactSize_Write WriteCompactSize_Read by unfold_locales auto

subsection \<open>Byte vectors and vectors\<close>

lemma read_blocks_eq: "read_blocks n v s = ser_map (\<lambda>p. v @ p) (ser_read n s)"
proof (induction n v s rule: read_blocks.induct)
  case (1 n v s)
  show ?case
  proof (cases "0 < n")
    case True
    define blk where "blk = min n (1 + 4999999)"
    have u: "read_blocks n v s = ser_bind (ser_read blk s) (\<lambda>p s. read_blocks (n - blk) (v @ p) s)"
      using True by (subst read_blocks.simps) (simp add: blk_def Let_def)
    have IH: "read_blocks (n - blk) (v @ p) t = ser_map (\<lambda>q. (v @ p) @ q) (ser_read (n - blk) t)" for p t
      using "1.IH" True by (simp add: blk_def)
    have le: "blk \<le> n" by (simp add: blk_def)
    show ?thesis unfolding u IH using le
      by (auto simp: ser_read_def take_add [symmetric] simp flip: take_add)
  next
    case False
    then show ?thesis by (subst read_blocks.simps) (simp add: ser_read_def)
  qed
qed

lemma of_nat_MAX_SIZE: "n \<le> 0x02000000 \<Longrightarrow> of_nat n \<le> MAX_SIZE \<and> unat (of_nat n :: u64) = n"
  by (simp add: MAX_SIZE_def word_le_nat_alt unsigned_of_nat take_bit_eq_mod [where ?'a = nat])

lemma unat_le_MAX_SIZE: "n \<le> MAX_SIZE \<longleftrightarrow> unat n \<le> 0x02000000"
  by (simp add: MAX_SIZE_def word_le_nat_alt)

interpretation vbytes: codec_exact Serialize_bytes Unserialize_bytes "\<lambda>v. length v \<le> 0x02000000"
proof unfold_locales
  fix v s :: bytes
  assume "length v \<le> 0x02000000"
  then show "Unserialize_bytes (Serialize_bytes v @ s) = Inr (v, s)"
    using of_nat_MAX_SIZE [of "length v"]
    by (simp add: Unserialize_bytes_def Serialize_bytes_def compact.dec_enc read_blocks_eq)
next
  fix v s t :: bytes
  assume "Unserialize_bytes s = Inr (v, t)"
  then obtain n where n: "n \<le> MAX_SIZE" "s = WriteCompactSize n @ v @ t" "length v = unat n"
    by (auto simp: Unserialize_bytes_def ser_bind_eq_Inr compact.dec_iff read_blocks_eq ser_map_eq_Inr ser_read_eq_Inr)
  then show "s = Serialize_bytes v @ t \<and> length v \<le> 0x02000000"
    by (simp add: Serialize_bytes_def unat_le_MAX_SIZE)
qed

context codec
begin

lemma vector_roundtrip:
  assumes "list_all ok xs" "length xs \<le> 0x02000000"
  shows "Unserialize_vector dec (Serialize_vector enc xs @ s) = Inr (xs, s)"
  using assms of_nat_MAX_SIZE [of "length xs"]
  by (simp add: Unserialize_vector_def Serialize_vector_def compact.dec_enc read_items_concat)

end

context codec_exact
begin

lemma vector_exact:
  assumes "Unserialize_vector dec s = Inr (xs, t)"
  shows "s = Serialize_vector enc xs @ t \<and> list_all ok xs \<and> length xs \<le> 0x02000000"
proof -
  obtain n r where "n \<le> MAX_SIZE" "s = WriteCompactSize n @ r" "read_items dec (unat n) r = Inr (xs, t)"
    using assms by (auto simp: Unserialize_vector_def ser_bind_eq_Inr compact.dec_iff)
  then show ?thesis
    using read_items_exact [of "unat n" r xs t]
    by (simp add: Serialize_vector_def unat_le_MAX_SIZE)
qed

end

lemma codec_vector:
  assumes "codec enc dec ok"
  shows "codec (Serialize_vector enc) (Unserialize_vector dec) (\<lambda>xs. list_all ok xs \<and> length xs \<le> 0x02000000)"
  by (rule codec.intro) (simp add: codec.vector_roundtrip [OF assms])

lemma codec_pair:
  assumes "codec enc1 dec1 ok1" "codec enc2 dec2 ok2"
  shows "codec (Serialize_pair enc1 enc2) (Unserialize_pair dec1 dec2) (\<lambda>(x, y). ok1 x \<and> ok2 y)"
  using assms by (auto simp: codec_def Serialize_pair_def Unserialize_pair_def)

subsection \<open>VarInt\<close>

lemma u8_0x7F: "(x :: u8) AND 0x7F = take_bit 7 x"
  by (simp add: and_mask_eq_take_bit [of _ 7] mask_eq_exp_minus_1)

lemma u8_0x80: "(x :: u8) AND 0x80 \<noteq> 0 \<longleftrightarrow> bit x 7"
  unfolding bit_iff_and_push_bit_not_eq_0 by simp

lemma unat_of_nat_u8_small: "m < 128 \<Longrightarrow> unat (of_nat m :: u8) < 2 ^ 7"
  by simp

lemma varint_byte:
  fixes first :: bool
  assumes "m < 128"
  defines "b \<equiv> of_nat m OR (if first then 0 else 0x80) :: u8"
  shows "b AND 0x7F = of_nat m" "b AND 0x80 \<noteq> 0 \<longleftrightarrow> \<not> first"
proof -
  have less: "k < 7" if "bit (of_nat m :: u8) k" for k
    using bit_unat_less [OF unat_of_nat_u8_small [OF assms(1)] that] .
  have e: "(0x80 :: u8) = push_bit 7 1" by simp
  have b80: "bit (0x80 :: u8) k \<longleftrightarrow> k = 7" for k
    unfolding e bit_push_bit_iff by (auto simp: bit_1_iff)
  show "b AND 0x7F = of_nat m"
    unfolding u8_0x7F
  proof (rule bit_eqI)
    fix k
    have "bit b k \<longleftrightarrow> bit (of_nat m :: u8) k \<or> \<not> first \<and> k = 7"
      unfolding b_def bit_or_iff by (cases first) (simp_all only: if_True if_False b80 bit_0_eq, simp_all)
    then show "bit (take_bit 7 b) k = bit (of_nat m :: u8) k" using less by (auto simp: bit_take_bit_iff)
  qed
  show "b AND 0x80 \<noteq> 0 \<longleftrightarrow> \<not> first"
    unfolding u8_0x80 using less [of 7] by (auto simp: b_def bit_or_iff b80)
qed

lemma ReadVarInt_bits:
  fixes n :: "'a::len word"
  assumes m: "m < 128" and fits: "unat n * 128 + m < 2 ^ LENGTH('a)"
  shows "push_bit 7 n OR ucast (of_nat m :: u8) = of_nat (unat n * 128 + m)"
proof -
  have u: "unat (ucast (of_nat m :: u8) :: 'a word) = m" using m fits by (simp add: unat_ucast)
  have p: "unat (push_bit 7 n) = unat n * 128" using fits by (simp add: unat_push_bit)
  have "unat (ucast (of_nat m :: u8) OR push_bit 7 n) = m + unat n * 128"
    using unat_or_disjoint [of "ucast (of_nat m :: u8)" 7 "push_bit 7 n"] m u p by (simp add: bit_push_bit_iff)
  moreover have "unat (of_nat (unat n * 128 + m) :: 'a word) = unat n * 128 + m"
    using fits by (simp only: unsigned_of_nat take_bit_eq_mod mod_less of_nat_id)
  ultimately show ?thesis
    by (simp only: word_unat_eq_iff or.commute [of "push_bit 7 n"] add.commute)
qed

lemma ReadVarInt_WriteVarInt_loop:
  "n < 2 ^ LENGTH('a) \<Longrightarrow>
   ReadVarInt_loop (0 :: 'a::len word) (WriteVarInt_loop first n tmp @ s)
   = (if first then Inr (of_nat n, tmp @ s) else ReadVarInt_loop (of_nat (n + 1)) (tmp @ s))"
proof (induction first n tmp rule: WriteVarInt_loop.induct)
  case (1 first n tmp)
  define b :: u8 where "b = of_nat (n mod 128) OR (if first then 0 else 0x80)"
  have "n mod 128 < 128" by simp
  note vb = varint_byte [OF this, of first, folded b_def]
  note low = vb(1) and high = vb(2)
  have step: "ReadVarInt_loop (of_nat q :: 'a word) (b # tmp @ s)
      = (if first then Inr (of_nat n, tmp @ s) else ReadVarInt_loop (of_nat (n + 1)) (tmp @ s))"
    if q: "q * 128 + n mod 128 = n" for q
  proof -
    have "q \<le> n" using q by linarith
    then have "unat (of_nat q :: 'a word) = q"
      using "1.prems" by (simp add: unsigned_of_nat take_bit_eq_mod [where ?'a = nat])
    then have "push_bit 7 (of_nat q :: 'a word) OR ucast (b AND 0x7F) = of_nat n"
      unfolding low using ReadVarInt_bits [of "n mod 128" "of_nat q :: 'a word"] q "1.prems" by simp
    then show ?thesis using high by (simp add: Let_def add.commute)
  qed
  have unf: "WriteVarInt_loop first n tmp = (if n \<le> 0x7F then b # tmp
      else WriteVarInt_loop False (n div 128 - 1) (b # tmp))"
    by (subst WriteVarInt_loop.simps) (simp add: b_def Let_def)
  show ?case
  proof (cases "n \<le> 0x7F")
    case True
    then have "0 * 128 + n mod 128 = n" by simp
    from step [OF this] show ?thesis using True by (simp add: unf)
  next
    case False
    have "n div 128 - 1 < 2 ^ LENGTH('a)" using "1.prems" by (meson diff_le_self div_le_dividend le_less_trans)
    then have "ReadVarInt_loop (0 :: 'a word) (WriteVarInt_loop False (n div 128 - 1) (b # tmp) @ s)
        = ReadVarInt_loop (of_nat (n div 128 - 1 + 1)) ((b # tmp) @ s)"
      using "1.IH" [of "b # tmp"] False by (simp add: b_def)
    also have "n div 128 - 1 + 1 = n div 128" using False by simp
    finally show ?thesis using step [of "n div 128"] False by (simp add: unf)
  qed
qed

lemma ReadVarInt_WriteVarInt:
  "n < 2 ^ LENGTH('a) \<Longrightarrow> ReadVarInt (WriteVarInt n @ s) = Inr (of_nat n :: 'a::len word, s)"
  by (simp add: ReadVarInt_def WriteVarInt_def ReadVarInt_WriteVarInt_loop)

interpretation varint32: codec "\<lambda>n. WriteVarInt (unat n)" ReadVarInt "\<lambda>_ :: u32. True"
  by unfold_locales (simp add: ReadVarInt_WriteVarInt unsigned_less)

interpretation varint64: codec "\<lambda>n. WriteVarInt (unat n)" ReadVarInt "\<lambda>_ :: u64. True"
  by unfold_locales (simp add: ReadVarInt_WriteVarInt unsigned_less)

lemma WriteVarInt_loop_length:
  "length (WriteVarInt_loop first n tmp) + nRet = GetSizeOfVarInt_loop n nRet + length tmp"
proof (induction first n tmp arbitrary: nRet rule: WriteVarInt_loop.induct)
  case (1 first n tmp)
  show ?case
  proof (cases "n \<le> 0x7F")
    case False
    then show ?thesis using "1.IH" [OF refl, of "Suc nRet"]
      by (subst WriteVarInt_loop.simps, subst GetSizeOfVarInt_loop.simps) (simp add: Let_def)
  qed (subst WriteVarInt_loop.simps, subst GetSizeOfVarInt_loop.simps, simp add: Let_def)
qed

lemma length_WriteVarInt: "length (WriteVarInt n) = GetSizeOfVarInt n"
  using WriteVarInt_loop_length [of True n "[]" 0] by (simp add: WriteVarInt_def GetSizeOfVarInt_def)

lemma ReadVarInt_loop_shorter: "ReadVarInt_loop n s = Inr (m, t) \<Longrightarrow> length t < length s"
  by (induction n s rule: ReadVarInt_loop.induct) (auto simp: Let_def split: if_splits)

lemma ReadVarInt_shorter: "ReadVarInt s = Inr (m, t) \<Longrightarrow> length t < length s"
  unfolding ReadVarInt_def by (rule ReadVarInt_loop_shorter)

subsection \<open>Blobs and numbers\<close>

lemma le_val_concat_WriteLE32: "le_val (concat (map WriteLE32 a)) = limbs_val a"
proof (induction a)
  case (Cons x xs)
  have "le_val (WriteLE32 x) = unat x" by (simp add: WriteLE32_def)
  then show ?case using Cons by (simp add: le_val_append)
qed simp

lemma ArithToUint256_eq: "is_arith256 a \<Longrightarrow> ArithToUint256 a = concat (map WriteLE32 a)"
  unfolding ArithToUint256_def is_arith256_def
  by (metis (no_types) comp_def map_map map_nth map_eq_conv)

lemma length_concat_WriteLE32: "length (concat (map WriteLE32 a)) = 4 * length a"
  by (induction a) simp_all

lemma map_ReadLE32_upt:
  "map (\<lambda>x. ReadLE32 (drop (x * 4) b)) [0..<Suc w]
   = ReadLE32 b # map (\<lambda>x. ReadLE32 (drop (x * 4) (drop 4 b))) [0..<w]"
proof -
  have "[0..<Suc w] = 0 # map Suc [0..<w]" by (simp add: upt_conv_Cons map_Suc_upt)
  then show ?thesis by (simp add: comp_def add.commute)
qed

lemma limbs_val_map_ReadLE32:
  "length b = 4 * w \<Longrightarrow> limbs_val (map (\<lambda>x. ReadLE32 (drop (x * 4) b)) [0..<w]) = le_val b"
proof (induction w arbitrary: b)
  case (Suc w)
  have b: "b = take 4 b @ drop 4 b" by simp
  have "le_val b = le_val (take 4 b) + 256 ^ 4 * le_val (drop 4 b)"
    by (subst b, subst le_val_append) (use Suc.prems in simp)
  moreover have "limbs_val (map (\<lambda>x. ReadLE32 (drop (x * 4) (drop 4 b))) [0..<w]) = le_val (drop 4 b)"
    by (rule Suc.IH) (use Suc.prems in simp)
  ultimately show ?case unfolding map_ReadLE32_upt by (simp add: unat_ReadLE del: drop_drop)
qed simp

lemma UintToArith256_wf: "is_arith256 (UintToArith256 b)"
  by (simp add: UintToArith256_def is_arith256_def)

lemma ArithToUint256_wf: "is_arith256 a \<Longrightarrow> is_uint256 (ArithToUint256 a)"
  by (simp add: ArithToUint256_eq length_concat_WriteLE32 is_uint256_def is_arith256_def WIDTH_def)

lemma limbs_val_UintToArith256: "is_uint256 b \<Longrightarrow> limbs_val (UintToArith256 b) = le_val b"
  unfolding UintToArith256_def by (rule limbs_val_map_ReadLE32) (simp add: is_uint256_def WIDTH_def)

lemma le_val_ArithToUint256: "is_arith256 a \<Longrightarrow> le_val (ArithToUint256 a) = limbs_val a"
  by (simp add: ArithToUint256_eq le_val_concat_WriteLE32)

lemma le_val_inj: "length a = length b \<Longrightarrow> le_val a = le_val b \<Longrightarrow> a = b"
  by (metis le_encode_le_val)

subsection \<open>Bit sets\<close>

lemma length_FixedBitSet_fold [simp]: "length (fold (FixedBitSet_set vec) ps v) = length v"
  by (rule length_fold_step) (simp add: FixedBitSet_set_def)

lemma length_Serialize_FixedBitSet [simp]: "length (Serialize_FixedBitSet sz vec) = (sz + 7) div 8"
  by (simp add: Serialize_FixedBitSet_def)

lemma bit_FixedBitSet_fold:
  assumes "N \<le> 8 * w" "q < w" "r < 8"
  shows "bit (fold (FixedBitSet_set vec) [0..<N] (replicate w 0) ! q) r \<longleftrightarrow> 8 * q + r < N \<and> vec ! (8 * q + r)"
  using assms
proof (induction N)
  case (Suc N)
  let ?v = "fold (FixedBitSet_set vec) [0..<N] (replicate w 0)"
  have IH: "bit (?v ! q) r \<longleftrightarrow> 8 * q + r < N \<and> vec ! (8 * q + r)" using Suc by simp
  have step: "fold (FixedBitSet_set vec) [0..<Suc N] (replicate w 0) = FixedBitSet_set vec N ?v" by simp
  have idx: "8 * q + r = N \<longleftrightarrow> q = N div 8 \<and> r = N mod 8" using Suc.prems(3) by auto
  have len: "N div 8 < length ?v" using Suc.prems by simp
  have one: "bit (push_bit (N mod 8) (if vec ! N then 1 else 0) :: u8) r \<longleftrightarrow> r = N mod 8 \<and> vec ! N"
    using Suc.prems(3) by (auto simp: bit_push_bit_iff bit_1_iff)
  have "bit (FixedBitSet_set vec N ?v ! q) r \<longleftrightarrow> bit (?v ! q) r \<or> (8 * q + r = N \<and> vec ! N)"
    using len one unfolding FixedBitSet_set_def idx by (cases "q = N div 8") (auto simp: bit_or_iff)
  then show ?case unfolding step IH by (auto simp: less_Suc_eq)
qed simp

lemma FixedBitSet_roundtrip:
  "Unserialize_FixedBitSet (length vec) (Serialize_FixedBitSet (length vec) vec @ s) = Inr (vec, s)"
proof -
  let ?n = "length vec" and ?v = "Serialize_FixedBitSet (length vec) vec"
  have bits: "bit (?v ! q) r \<longleftrightarrow> 8 * q + r < ?n \<and> vec ! (8 * q + r)" if "q < (?n + 7) div 8" "r < 8" for q r
    unfolding Serialize_FixedBitSet_def using bit_FixedBitSet_fold [of ?n "(?n + 7) div 8" q r vec] that by simp
  have "?v ! (p div 8) AND push_bit (p mod 8) 1 \<noteq> 0 \<longleftrightarrow> vec ! p" if "p < ?n" for p
    unfolding bit_iff_and_push_bit_not_eq_0 [symmetric] using bits [of "p div 8" "p mod 8"] that by auto
  then have vec: "map (\<lambda>p. ?v ! (p div 8) AND push_bit (p mod 8) 1 \<noteq> 0) [0..<?n] = vec"
    by (intro nth_equalityI) simp_all
  have rest: "?v ! ((?n + 7) div 8 - 1) AND NOT (drop_bit ((?n + 7) div 8 * 8 - ?n) 0xff :: u8) = 0"
    if "(?n + 7) div 8 * 8 \<noteq> ?n"
  proof (rule bit_eqI)
    fix r
    have q: "(?n + 7) div 8 - 1 < (?n + 7) div 8" using that by (cases ?n) simp_all
    have ff: "(0xff :: u8) = mask 8" by (simp add: mask_eq_exp_minus_1)
    have "bit (?v ! ((?n + 7) div 8 - 1)) r \<Longrightarrow> r < 8 \<and> 8 * ((?n + 7) div 8 - 1) + r < ?n"
      using bits [OF q, of r] by (auto dest: bit_imp_le_length)
    moreover have "r < 8 \<and> 8 * ((?n + 7) div 8 - 1) + r < ?n \<Longrightarrow> bit (drop_bit ((?n + 7) div 8 * 8 - ?n) (0xff :: u8)) r"
      unfolding ff by (simp add: bit_drop_bit_eq bit_mask_iff) linarith
    ultimately show "bit (?v ! ((?n + 7) div 8 - 1) AND NOT (drop_bit ((?n + 7) div 8 * 8 - ?n) 0xff :: u8)) r = bit 0 r"
      by (auto simp: bit_and_iff bit_not_iff)
  qed
  show ?thesis unfolding Unserialize_FixedBitSet_def
    using vec rest by (simp add: Let_def)
qed

lemma FixedVarInts_read_fuel:
  "length s < fuel \<Longrightarrow> length s < fuel' \<Longrightarrow> FixedVarInts_read fuel sz l vec s = FixedVarInts_read fuel' sz l vec s"
proof (induction fuel arbitrary: fuel' l vec s)
  case (Suc fuel)
  then obtain f where f: "fuel' = Suc f" by (cases fuel') auto
  show ?case
  proof (cases "ReadVarInt s :: u32 ser_result")
    case (Inr p)
    then obtain offset t where p: "ReadVarInt s = Inr (offset :: u32, t)" by (cases p) simp
    then have "length t < length s" by (rule ReadVarInt_shorter)
    then have "FixedVarInts_read fuel sz i v t = FixedVarInts_read f sz i v t" for i v
      using Suc.prems f by (intro Suc.IH) simp_all
    then show ?thesis using p f by (simp add: Let_def)
  qed (simp add: f)
qed simp

lemma sint_word_of_int32: "0 \<le> i \<Longrightarrow> i < 2147483648 \<Longrightarrow> sint (word_of_int i :: u32) = i"
  by (simp add: signed_of_int signed_take_bit_int_eq_self)

lemma length_WriteVarInt_pos: "0 < length (WriteVarInt n)"
proof -
  have "nRet < GetSizeOfVarInt_loop n nRet" for n nRet
    by (induction n nRet rule: GetSizeOfVarInt_loop.induct) (subst GetSizeOfVarInt_loop.simps, auto)
  from this [of 0] show ?thesis unfolding length_WriteVarInt GetSizeOfVarInt_def .
qed

lemma FixedVarInts_read_write:
  assumes "int (length pre) = i" "- 1 \<le> l" "l < i" "i + int (length bs) < 2147483648"
    and "length (FixedVarInts_write i l bs) < fuel"
  shows "FixedVarInts_read fuel (length pre + length bs) l (pre @ replicate (length bs) False)
           (FixedVarInts_write i l bs @ WriteVarInt 0 @ s) = Inr (pre @ bs, s)"
  using assms
proof (induction bs arbitrary: i l pre fuel)
  case Nil
  then obtain f where "fuel = Suc f" by (cases fuel) auto
  then show ?case using ReadVarInt_WriteVarInt [of 0 s, where ?'a = 32] by simp
next
  case (Cons b bs)
  let ?pre = "pre @ [b]"
  have pre: "int (length ?pre) = i + 1" "i + 1 + int (length bs) < 2147483648"
    using Cons.prems by simp_all
  show ?case
  proof (cases b)
    case False
    have "FixedVarInts_read fuel (length ?pre + length bs) l (?pre @ replicate (length bs) False)
        (FixedVarInts_write (i + 1) l bs @ WriteVarInt 0 @ s) = Inr (?pre @ bs, s)"
      by (rule Cons.IH) (use Cons.prems pre False in simp_all)
    then show ?thesis using False by simp
  next
    case True
    let ?w = "word_of_int (i - l) :: u32"
    from Cons.prems(5) obtain f where f: "fuel = Suc f" by (cases fuel) auto
    have read: "ReadVarInt (WriteVarInt (unat ?w) @ t) = Inr (?w, t)" for t
      using varint32.dec_enc by simp
    have nz: "?w \<noteq> 0"
    proof -
      define k where "k = i - l"
      have "0 \<le> k" "k < 2 ^ 32" using Cons.prems by (simp_all add: k_def)
      then have "uint (word_of_int k :: u32) = k" by (simp add: unsigned_of_int take_bit_int_eq_self)
      then have "uint ?w = i - l" by (simp only: k_def)
      then show ?thesis using Cons.prems(3) by auto
    qed
    have idx: "sint (word_of_int l + ?w) = i"
      using Cons.prems sint_word_of_int32 [of i] by simp
    have upd: "(pre @ replicate (length (b # bs)) False)[nat i := True] = ?pre @ replicate (length bs) False"
      using Cons.prems(1) True by (simp add: list_update_append nat_eq_iff)
    have "FixedVarInts_read f (length ?pre + length bs) i (?pre @ replicate (length bs) False)
        (FixedVarInts_write (i + 1) i bs @ WriteVarInt 0 @ s) = Inr (?pre @ bs, s)"
    proof (rule Cons.IH)
      have "length (WriteVarInt (unat ?w)) + length (FixedVarInts_write (i + 1) i bs) < Suc f"
        using Cons.prems(5) True f by simp
      then show "length (FixedVarInts_write (i + 1) i bs) < f"
        using length_WriteVarInt_pos [of "unat ?w"] by linarith
    qed (use Cons.prems pre in simp_all)
    then show ?thesis using True f read nz idx upd Cons.prems
      by (simp add: Let_def)
  qed
qed

lemma FixedVarIntsBitSet_roundtrip:
  assumes "length vec < 2147483648"
  shows "Unserialize_FixedVarIntsBitSet (length vec) (Serialize_FixedVarIntsBitSet vec @ s) = Inr (vec, s)"
  using FixedVarInts_read_write [of "[]" 0 "- 1" vec "Suc (length (Serialize_FixedVarIntsBitSet vec @ s))" s] assms
  by (simp add: Unserialize_FixedVarIntsBitSet_def Serialize_FixedVarIntsBitSet_def)

lemma AutoBitSet_roundtrip:
  assumes "length vec < 2147483648"
  shows "\<exists>bs. Serialize_AutoBitSet (length vec) vec = Some bs \<and> Unserialize_AutoBitSet (length vec) (bs @ s) = Inr (vec, s)"
  using FixedBitSet_roundtrip [of vec s] FixedVarIntsBitSet_roundtrip [OF assms, of s]
  by (simp add: Serialize_AutoBitSet_def Unserialize_AutoBitSet_def Let_def)

section \<open>Properties\<close>

text \<open>Property C37. \<open>ReadCompactSize\<close> accepts exactly the canonical encodings: a byte string decodes to
  \<open>n\<close> with rest \<open>t\<close> if and only if it is \<open>WriteCompactSize n\<close> followed by \<open>t\<close> and \<open>n\<close> is at most
  \<open>MAX_SIZE\<close>; the encoding has the length \<open>GetSizeOfCompactSize\<close> computes.\<close>

theorem CompactSize_exact:
  "(ReadCompactSize s = Inr (n, t) \<longleftrightarrow> s = WriteCompactSize n @ t \<and> n \<le> MAX_SIZE) \<and>
   length (WriteCompactSize n) = GetSizeOfCompactSize n"
proof -
  have "length (WriteCompactSize n) = GetSizeOfCompactSize n"
    by (simp add: WriteCompactSize_def GetSizeOfCompactSize_def ser_writedata8_def ser_writedata16_def
        ser_writedata32_def ser_writedata64_def WriteLE16_def WriteLE32_def WriteLE64_def)
  then show ?thesis using compact.dec_iff by auto
qed

text \<open>A byte vector or string round-trips through the stream although it is read in blocks of
  at most 5000000 bytes, and only its own encoding decodes to it.\<close>

theorem bytes_exact:
  "Unserialize_bytes s = Inr (v, t) \<longleftrightarrow> s = Serialize_bytes v @ t \<and> length v \<le> 0x02000000"
  using vbytes.dec_iff by auto

text \<open>Every number below \<open>2^64\<close> round-trips through \<open>WriteVarInt\<close> and \<open>ReadVarInt\<close> at
  64 bits and every number below \<open>2^32\<close> at 32 bits, with any bytes following, and the encoding has the
  length \<open>GetSizeOfVarInt\<close> computes.\<close>

theorem VarInt_roundtrip:
  "ReadVarInt (WriteVarInt (unat (n :: u64)) @ s) = Inr (n, s) \<and>
   ReadVarInt (WriteVarInt (unat (m :: u32)) @ s) = Inr (m, s) \<and>
   length (WriteVarInt k) = GetSizeOfVarInt k"
  using varint64.dec_enc [of n s] varint32.dec_enc [of m s] length_WriteVarInt [of k] by simp

text \<open>At a fixed width an integer has more than one variable-length encoding: five bytes that
  are not the encoding of zero are read as the 32-bit number zero.\<close>

theorem VarInt_not_unique:
  "\<exists>bs. bs \<noteq> WriteVarInt 0 \<and> ReadVarInt bs = Inr (0 :: u32, [])"
proof -
  have "ReadVarInt [0x8E, 0xFE, 0xFE, 0xFF, 0x00] = Inr (0 :: u32, [])" by code_simp
  moreover have "length (WriteVarInt 0) \<noteq> length [0x8E, 0xFE, 0xFE, 0xFF, 0x00 :: u8]"
    by (simp add: WriteVarInt_def WriteVarInt_loop.simps)
  ultimately show ?thesis by metis
qed

text \<open>A bit set round-trips through \<open>CAutoBitSet\<close> whichever of its two encodings the
  writer chooses, with any bytes following.\<close>

theorem AutoBitSet_decodes:
  assumes "length vec < 2147483648"
  shows "\<exists>bs. Serialize_AutoBitSet (length vec) vec = Some bs \<and>
     Unserialize_AutoBitSet (length vec) (bs @ s) = Inr (vec, s)"
  using assms by (rule AutoBitSet_roundtrip)

theorem AutoBitSet_decodes_witness:
  "\<exists>bs. Serialize_AutoBitSet 3 [True, False, True] = Some bs \<and>
     Unserialize_AutoBitSet 3 (bs @ [7]) = Inr ([True, False, True], [7])"
proof -
  have l: "length [True, False, True] = 3" by simp
  show ?thesis using AutoBitSet_decodes [of "[True, False, True]" "[7]", unfolded l] by simp
qed

text \<open>\<open>ArithToUint256\<close> and \<open>UintToArith256\<close> are inverse to each other and keep the number,
  read as little-endian bytes.\<close>

theorem uint256_arith_roundtrip:
  assumes "is_arith256 a" "is_uint256 b"
  shows "UintToArith256 (ArithToUint256 a) = a \<and> ArithToUint256 (UintToArith256 b) = b \<and>
     le_val (ArithToUint256 a) = limbs_val a"
proof -
  have a: "is_uint256 (ArithToUint256 a)" using assms(1) by (rule ArithToUint256_wf)
  have "limbs_val (UintToArith256 (ArithToUint256 a)) = limbs_val a"
    using assms(1) a by (simp add: limbs_val_UintToArith256 le_val_ArithToUint256)
  then have "UintToArith256 (ArithToUint256 a) = a"
    using a256.val_inj [OF UintToArith256_wf assms(1)] by simp
  moreover have "le_val (ArithToUint256 (UintToArith256 b)) = le_val b"
    using assms(2) by (simp add: le_val_ArithToUint256 UintToArith256_wf limbs_val_UintToArith256)
  then have "ArithToUint256 (UintToArith256 b) = b"
    using assms(2) ArithToUint256_wf [OF UintToArith256_wf] by (intro le_val_inj) (auto simp: is_uint256_def)
  ultimately show ?thesis using le_val_ArithToUint256 [OF assms(1)] by simp
qed

theorem uint256_arith_roundtrip_witness:
  "is_arith256 (uint_of_u64 WIDTH 5) \<and> is_uint256 (replicate 32 9) \<and>
   UintToArith256 (ArithToUint256 (uint_of_u64 WIDTH 5)) = uint_of_u64 WIDTH 5 \<and>
   ArithToUint256 (UintToArith256 (replicate 32 9)) = replicate 32 9"
  using uint256_arith_roundtrip [of "uint_of_u64 WIDTH 5" "replicate 32 9"] a256.wf_of_u64 [of 5]
  by (simp add: is_uint256_def)

end
