(* ===== verification/Chain.thy ===== *)
theory Chain
  imports Serialize "HOL-Library.Multiset"
begin

text \<open>
  The block index of \<^verbatim>\<open>src/src/chain.h\<close>, \<^verbatim>\<open>src/src/chain.cpp\<close> and
  \<open>AddToBlockIndex\<close> of \<^verbatim>\<open>src/src/validation.cpp\<close>. Entries point to their
  predecessor (\<open>pprev\<close>) and to a skip-list ancestor (\<open>pskip\<close>), so the model keeps an
  explicit store from addresses to entries; \<open>None\<close> is the null pointer. Following a
  pointer that is not in the store is the error \<open>BadPointer\<close>, a failed \<open>assert\<close> is
  \<open>AssertFailed\<close>. \<open>CChain\<close> is the vector of the entries of one branch by height.
  \<open>nth_prev\<close> is the reference: \<open>n\<close> steps along \<open>pprev\<close>.
\<close>

type_synonym addr = nat

datatype chain_error = BadPointer | AssertFailed | OutOfRange | OutOfFuel | ArithError uint_error

record CBlockHeader =
  hdr_nVersion :: u32
  hdr_hashPrevBlock :: uint256
  hdr_hashMerkleRoot :: uint256
  hdr_nTime :: u32
  hdr_nBits :: u32
  hdr_nNonce :: u32

record CBlockIndex =
  phashBlock :: "uint256 option"
  pprev :: "addr option"
  pskip :: "addr option"
  nHeight :: int
  nFile :: int
  nDataPos :: u32
  nUndoPos :: u32
  nChainWork :: base_uint
  nTx :: u32
  nChainTx :: u32
  nStatus :: u32
  nVersion :: u32
  hashMerkleRoot :: uint256
  nTime :: u32
  nBits :: u32
  nNonce :: u32
  nSequenceId :: int
  nTimeMax :: u32

type_synonym index_store = "addr \<rightharpoonup> CBlockIndex"

definition uint256_null :: uint256 where
  "uint256_null = replicate 32 0"

definition CBlockIndex_SetNull :: CBlockIndex where
  "CBlockIndex_SetNull = \<lparr>phashBlock = None, pprev = None, pskip = None, nHeight = 0, nFile = 0,
     nDataPos = 0, nUndoPos = 0, nChainWork = uint_zero WIDTH, nTx = 0, nChainTx = 0, nStatus = 0,
     nVersion = 0, hashMerkleRoot = uint256_null, nTime = 0, nBits = 0, nNonce = 0,
     nSequenceId = 0, nTimeMax = 0\<rparr>"

definition CBlockIndex_of_header :: "CBlockHeader \<Rightarrow> CBlockIndex" where
  "CBlockIndex_of_header block = CBlockIndex_SetNull\<lparr>nVersion := hdr_nVersion block,
     hashMerkleRoot := hdr_hashMerkleRoot block, nTime := hdr_nTime block, nBits := hdr_nBits block,
     nNonce := hdr_nNonce block\<rparr>"

definition GetBlockTime :: "CBlockIndex \<Rightarrow> int" where
  "GetBlockTime b = uint (nTime b)"

definition GetBlockTimeMax :: "CBlockIndex \<Rightarrow> int" where
  "GetBlockTimeMax b = uint (nTimeMax b)"

definition GetBlockHash :: "CBlockIndex \<Rightarrow> chain_error + uint256" where
  "GetBlockHash b = (case phashBlock b of None \<Rightarrow> Inl BadPointer | Some x \<Rightarrow> Inr x)"

definition GetBlockHeader :: "index_store \<Rightarrow> CBlockIndex \<Rightarrow> chain_error + CBlockHeader" where
  "GetBlockHeader h b =
     (let hdr = (\<lambda>prev. \<lparr>hdr_nVersion = nVersion b, hdr_hashPrevBlock = prev,
            hdr_hashMerkleRoot = hashMerkleRoot b, hdr_nTime = nTime b, hdr_nBits = nBits b,
            hdr_nNonce = nNonce b\<rparr>)
      in case pprev b of None \<Rightarrow> Inr (hdr uint256_null)
         | Some p \<Rightarrow> (case h p of None \<Rightarrow> Inl BadPointer | Some pb \<Rightarrow> map_sum id hdr (GetBlockHash pb)))"

subsection \<open>Block status\<close>

definition BLOCK_VALID_TREE :: u32 where "BLOCK_VALID_TREE = 2"
definition BLOCK_VALID_TRANSACTIONS :: u32 where "BLOCK_VALID_TRANSACTIONS = 3"
definition BLOCK_VALID_MASK :: u32 where "BLOCK_VALID_MASK = 1 OR 2 OR 3 OR 4 OR 5"
definition BLOCK_HAVE_DATA :: u32 where "BLOCK_HAVE_DATA = 8"
definition BLOCK_HAVE_UNDO :: u32 where "BLOCK_HAVE_UNDO = 16"
definition BLOCK_FAILED_MASK :: u32 where "BLOCK_FAILED_MASK = 32 OR 64"
definition BLOCK_CONFLICT_CHAINLOCK :: u32 where "BLOCK_CONFLICT_CHAINLOCK = 128"

text \<open>\<open>None\<close> is the failed \<open>assert(!(nUpTo & ~BLOCK_VALID_MASK))\<close>.\<close>

definition IsValid :: "CBlockIndex \<Rightarrow> u32 \<Rightarrow> bool option" where
  "IsValid b nUpTo =
     (if nUpTo AND NOT BLOCK_VALID_MASK \<noteq> 0 then None
      else if nStatus b AND BLOCK_FAILED_MASK \<noteq> 0 then Some False
      else Some (nStatus b AND BLOCK_VALID_MASK \<ge> nUpTo))"

definition RaiseValidity :: "CBlockIndex \<Rightarrow> u32 \<Rightarrow> (CBlockIndex \<times> bool) option" where
  "RaiseValidity b nUpTo =
     (if nUpTo AND NOT BLOCK_VALID_MASK \<noteq> 0 then None
      else if nStatus b AND BLOCK_FAILED_MASK \<noteq> 0 then Some (b, False)
      else if nStatus b AND BLOCK_VALID_MASK < nUpTo
      then Some (b\<lparr>nStatus := (nStatus b AND NOT BLOCK_VALID_MASK) OR nUpTo\<rparr>, True)
      else Some (b, False))"

subsection \<open>The skip list\<close>

definition InvertLowestOne :: "nat \<Rightarrow> nat" where
  "InvertLowestOne n = n AND (n - 1)"

definition GetSkipHeight :: "nat \<Rightarrow> nat" where
  "GetSkipHeight height =
     (if height < 2 then 0
      else if odd height then InvertLowestOne (InvertLowestOne (height - 1)) + 1
      else InvertLowestOne height)"

lemma InvertLowestOne_le: "InvertLowestOne n \<le> n - 1"
proof -
  have "int (n AND (n - 1)) \<le> int (n - 1)"
    by (simp only: of_nat_and_eq AND_upper2 of_nat_0_le_iff)
  then show ?thesis
    by (simp add: InvertLowestOne_def)
qed

lemma GetSkipHeight_less: "0 < height \<Longrightarrow> GetSkipHeight height < height"
  using InvertLowestOne_le [of height] InvertLowestOne_le [of "height - 1"]
    InvertLowestOne_le [of "InvertLowestOne (height - 1)"]
  by (auto simp: GetSkipHeight_def)

text \<open>The loop of \<open>CBlockIndex::GetAncestor\<close>; \<open>hw\<close> is \<open>heightWalk\<close>.\<close>

function GetAncestor_walk :: "index_store \<Rightarrow> nat \<Rightarrow> addr \<Rightarrow> nat \<Rightarrow> chain_error + addr" where
  "GetAncestor_walk h height p hw =
     (if hw > height then
        (let heightSkip = GetSkipHeight hw; heightSkipPrev = GetSkipHeight (hw - 1) in
         case h p of None \<Rightarrow> Inl BadPointer
         | Some b \<Rightarrow>
           (if pskip b \<noteq> None \<and> (heightSkip = height \<or>
                 (heightSkip > height \<and>
                  \<not> (int heightSkipPrev < int heightSkip - 2 \<and> heightSkipPrev \<ge> height)))
            then GetAncestor_walk h height (the (pskip b)) heightSkip
            else case pprev b of None \<Rightarrow> Inl AssertFailed
                 | Some q \<Rightarrow> GetAncestor_walk h height q (hw - 1)))
      else Inr p)"
  by pat_completeness auto
termination
  by (relation "measure (\<lambda>(h, height, p, hw). hw)") (auto simp: GetSkipHeight_less)

declare GetAncestor_walk.simps [simp del]

definition GetAncestor :: "index_store \<Rightarrow> addr \<Rightarrow> int \<Rightarrow> chain_error + addr option" where
  "GetAncestor h p height =
     (case h p of None \<Rightarrow> Inl BadPointer
      | Some b \<Rightarrow>
        (if height > nHeight b \<or> height < 0 then Inr None
         else map_sum id Some (GetAncestor_walk h (nat height) p (nat (nHeight b)))))"

definition BuildSkip :: "index_store \<Rightarrow> addr \<Rightarrow> chain_error + index_store" where
  "BuildSkip h p =
     bindE (deref BadPointer h p) (\<lambda>b.
       case pprev b of None \<Rightarrow> Inr h
       | Some q \<Rightarrow> map_sum id (\<lambda>a. h(p \<mapsto> b\<lparr>pskip := a\<rparr>))
                      (GetAncestor h q (int (GetSkipHeight (nat (nHeight b))))))"

subsection \<open>Proof of work of a block\<close>

definition GetBlockProof :: "CBlockIndex \<Rightarrow> uint_error + base_uint" where
  "GetBlockProof block =
     (case SetCompact (nBits block) of (bnTarget, fNegative, fOverflow) \<Rightarrow>
        (if fNegative \<or> fOverflow \<or> uint_EqualTo bnTarget 0 then Inr (uint_of_u64 WIDTH 0)
         else map_sum id (\<lambda>q. uint_add q (uint_of_u64 WIDTH 1))
                (uint_div (uint_not bnTarget) (uint_add bnTarget (uint_of_u64 WIDTH 1)))))"

text \<open>The result is the C++ \<open>int64_t\<close>: \<open>sign * r.GetLow64()\<close> is computed on 64-bit
  unsigned values and read back as signed.\<close>

definition GetBlockProofEquivalentTime ::
    "CBlockIndex \<Rightarrow> CBlockIndex \<Rightarrow> CBlockIndex \<Rightarrow> u64 \<Rightarrow> uint_error + int" where
  "GetBlockProofEquivalentTime to from tip nPowTargetSpacing =
     (let gt = uint_CompareTo (nChainWork to) (nChainWork from) > 0;
          r = (if gt then uint_sub (nChainWork to) (nChainWork from)
               else uint_sub (nChainWork from) (nChainWork to));
          sign = (if gt then 1 else - 1 :: int)
      in case GetBlockProof tip of Inl e \<Rightarrow> Inl e
         | Inr proof \<Rightarrow>
           (case uint_div (uint_mul r (uint_of_u64 WIDTH nPowTargetSpacing)) proof of Inl e \<Rightarrow> Inl e
            | Inr q \<Rightarrow> (if uint_bits q > 63 then Inr (sign * (2 ^ 63 - 1))
                         else Inr (sint (word_of_int sign * uint_GetLow64 q)))))"

subsection \<open>The reference and the invariant of the index\<close>

text \<open>\<open>nth_prev h n p\<close> follows \<open>pprev\<close> \<open>n\<close> times.\<close>

fun nth_prev :: "index_store \<Rightarrow> nat \<Rightarrow> addr \<Rightarrow> addr option" where
  "nth_prev h 0 p = (case h p of None \<Rightarrow> None | Some b \<Rightarrow> Some p)"
| "nth_prev h (Suc n) p = (case h p of None \<Rightarrow> None
     | Some b \<Rightarrow> (case pprev b of None \<Rightarrow> None | Some q \<Rightarrow> nth_prev h n q))"

text \<open>The expected number of hashes behind a compact target.\<close>

definition block_work :: "u32 \<Rightarrow> nat" where
  "block_work bits =
     (case SetCompact bits of (t, neg, ovf) \<Rightarrow>
        if neg \<or> ovf \<or> limbs_val t = 0 then 0 else 2 ^ 256 div (limbs_val t + 1))"

definition wf_child :: "index_store \<Rightarrow> addr \<Rightarrow> CBlockIndex \<Rightarrow> CBlockIndex \<Rightarrow> bool" where
  "wf_child h p qb b \<longleftrightarrow>
     nHeight b = nHeight qb + 1 \<and>
     pskip b = nth_prev h (nat (nHeight b) - GetSkipHeight (nat (nHeight b))) p \<and>
     nTimeMax b = max (nTimeMax qb) (nTime b) \<and>
     limbs_val (nChainWork b) = (limbs_val (nChainWork qb) + block_work (nBits b)) mod 2 ^ 256"

definition wf_entry :: "index_store \<Rightarrow> addr \<Rightarrow> CBlockIndex \<Rightarrow> bool" where
  "wf_entry h p b \<longleftrightarrow>
     0 \<le> nHeight b \<and> phashBlock b \<noteq> None \<and> is_arith256 (nChainWork b) \<and>
     (case pprev b of
        None \<Rightarrow> nHeight b = 0 \<and> pskip b = None \<and> nTimeMax b = nTime b \<and>
                limbs_val (nChainWork b) = block_work (nBits b)
      | Some q \<Rightarrow> (case h q of None \<Rightarrow> False | Some qb \<Rightarrow> wf_child h p qb b))"

definition wf_index :: "index_store \<Rightarrow> bool" where
  "wf_index h \<longleftrightarrow> (\<forall>p b. h p = Some b \<longrightarrow> wf_entry h p b)"

lemma wf_indexD: "wf_index h \<Longrightarrow> h p = Some b \<Longrightarrow> wf_entry h p b"
  by (simp add: wf_index_def)

lemma wf_index_height: "wf_index h \<Longrightarrow> h p = Some b \<Longrightarrow> 0 \<le> nHeight b"
  by (auto dest: wf_indexD simp: wf_entry_def)

lemma wf_index_root: "wf_index h \<Longrightarrow> h p = Some b \<Longrightarrow> pprev b = None \<Longrightarrow> nHeight b = 0"
  by (auto dest: wf_indexD simp: wf_entry_def)

lemma wf_index_prev:
  assumes "wf_index h" "h p = Some b" "pprev b = Some q"
  obtains qb where "h q = Some qb" "wf_child h p qb b" "nHeight b = nHeight qb + 1"
  using wf_indexD [OF assms(1,2)] assms(3)
  by (auto simp: wf_entry_def wf_child_def split: option.splits)

lemma wf_index_pprev_iff:
  assumes "wf_index h" "h p = Some b"
  shows "pprev b = None \<longleftrightarrow> nHeight b = 0"
proof (cases "pprev b")
  case (Some q)
  then obtain qb where "h q = Some qb" "nHeight b = nHeight qb + 1"
    using assms wf_index_prev by metis
  with Some assms show ?thesis
    using wf_index_height [of h q qb] by auto
qed (use assms wf_index_root in auto)

lemma nth_prev_Some_heap: "nth_prev h n p = Some q \<Longrightarrow> \<exists>qb. h q = Some qb"
  by (induction h n p rule: nth_prev.induct) (auto split: option.splits)

lemma nth_prev_add: "nth_prev h (m + n) p = Option.bind (nth_prev h m p) (nth_prev h n)"
  by (induction m arbitrary: p) (cases n; auto split: option.splits)+

lemma nth_prev_Some:
  assumes "wf_index h" "h p = Some b" "int n \<le> nHeight b"
  obtains q qb where "nth_prev h n p = Some q" "h q = Some qb" "nHeight qb = nHeight b - int n"
  using assms
proof (induction n arbitrary: p b thesis)
  case 0
  then show ?case by simp
next
  case (Suc n)
  then obtain r where r: "pprev b = Some r"
    using wf_index_pprev_iff [of h p b] by fastforce
  then obtain rb where rb: "h r = Some rb" "nHeight b = nHeight rb + 1"
    using Suc.prems wf_index_prev by metis
  obtain q qb where "nth_prev h n r = Some q" "h q = Some qb" "nHeight qb = nHeight rb - int n"
    using Suc.IH [of r rb] Suc.prems rb by auto
  then show ?case
    using Suc.prems r rb by simp
qed

lemma nth_prev_None:
  assumes "wf_index h" "h p = Some b" "nHeight b < int n"
  shows "nth_prev h n p = None"
  using assms
proof (induction n arbitrary: p b)
  case 0
  then show ?case using wf_index_height [of h p b] by simp
next
  case (Suc n)
  show ?case
  proof (cases "pprev b")
    case (Some r)
    then obtain rb where "h r = Some rb" "nHeight b = nHeight rb + 1"
      using Suc.prems wf_index_prev by metis
    with Suc.IH [of r rb] Suc.prems Some show ?thesis by simp
  qed (use Suc.prems in simp)
qed

lemma nth_prev_trans:
  "nth_prev h m p = Some q \<Longrightarrow> nth_prev h n q = nth_prev h (m + n) p"
  by (simp add: nth_prev_add)

lemma wf_index_pskip:
  assumes "wf_index h" "h p = Some b" "pskip b = Some s"
  shows "nth_prev h (nat (nHeight b) - GetSkipHeight (nat (nHeight b))) p = Some s \<and> 0 < nHeight b"
proof (cases "pprev b")
  case None
  then show ?thesis
    using assms wf_indexD [OF assms(1,2)] by (simp add: wf_entry_def)
next
  case (Some q)
  then obtain qb where "wf_child h p qb b" "nHeight b = nHeight qb + 1" "h q = Some qb"
    using assms wf_index_prev by metis
  then show ?thesis
    using assms wf_index_height [of h q qb] by (auto simp: wf_child_def)
qed

subsection \<open>The skip-list walk\<close>

lemma GetAncestor_walk_nth_prev:
  assumes "wf_index h" "h p = Some b" "nHeight b = int hw" "height \<le> hw"
  shows "\<exists>q. GetAncestor_walk h height p hw = Inr q \<and> nth_prev h (hw - height) p = Some q"
  using assms
proof (induction h height p hw arbitrary: b rule: GetAncestor_walk.induct)
  case (1 h height p hw)
  show ?case
  proof (cases "hw = height")
    case True
    then show ?thesis using "1.prems" by (simp add: GetAncestor_walk.simps)
  next
    case False
    then have gt: "height < hw" using "1.prems" by simp
    let ?hs = "GetSkipHeight hw"
    let ?skip = "pskip b \<noteq> None \<and> (?hs = height \<or> (?hs > height \<and>
        \<not> (int (GetSkipHeight (hw - 1)) < int ?hs - 2 \<and> GetSkipHeight (hw - 1) \<ge> height)))"
    show ?thesis
    proof (cases ?skip)
      case True
      then obtain s where s: "pskip b = Some s" by auto
      have bs: "nth_prev h (hw - ?hs) p = Some s"
        using wf_index_pskip [OF "1.prems"(1,2) s] "1.prems"(3) by simp
      have lt: "?hs < hw" using gt by (simp add: GetSkipHeight_less)
      obtain sb where sb: "h s = Some sb" "nHeight sb = int ?hs"
        using nth_prev_Some [OF "1.prems"(1,2), of "hw - ?hs"] "1.prems"(3) bs lt
        by (metis (mono_tags) diff_le_self int_ops(6) less_imp_le of_nat_diff of_nat_le_iff
            option.inject diff_diff_cancel)
      have "\<exists>q. GetAncestor_walk h height s ?hs = Inr q \<and> nth_prev h (?hs - height) s = Some q"
        using "1.IH"(1) [OF gt refl refl "1.prems"(2) _ "1.prems"(1)] True s sb by auto
      moreover have "nth_prev h (?hs - height) s = nth_prev h (hw - height) p"
        using nth_prev_trans [OF bs, of "?hs - height"] True lt
          add_diff_assoc2 [of ?hs hw "?hs - height"] by (auto simp: algebra_simps)
      ultimately show ?thesis
        using gt True s "1.prems"(2) by (subst GetAncestor_walk.simps) (simp add: Let_def)
    next
      case False
      obtain q where q: "pprev b = Some q"
        using wf_index_pprev_iff [OF "1.prems"(1,2)] gt "1.prems"(3) by fastforce
      then obtain qb where qb: "h q = Some qb" "nHeight b = nHeight qb + 1"
        using "1.prems" wf_index_prev by metis
      have "\<exists>r. GetAncestor_walk h height q (hw - 1) = Inr r \<and> nth_prev h (hw - 1 - height) q = Some r"
        using "1.IH"(2) [OF gt refl refl "1.prems"(2) False q "1.prems"(1) qb(1)] qb(2) gt "1.prems"(3)
        by auto
      moreover have "nth_prev h (hw - height) p = nth_prev h (hw - 1 - height) q"
        using gt "1.prems"(2) q by (simp add: Suc_diff_Suc [symmetric])
      ultimately show ?thesis
        using gt False q "1.prems"(2) by (subst GetAncestor_walk.simps) (auto simp: Let_def)
    qed
  qed
qed

lemma GetAncestor_nth_prev:
  assumes "wf_index h" "h p = Some b"
  shows "GetAncestor h p height =
    Inr (if height < 0 \<or> nHeight b < height then None else nth_prev h (nat (nHeight b - height)) p)"
proof (cases "height < 0 \<or> nHeight b < height")
  case False
  then obtain q where "GetAncestor_walk h (nat height) p (nat (nHeight b)) = Inr q"
      "nth_prev h (nat (nHeight b) - nat height) p = Some q"
    using GetAncestor_walk_nth_prev [OF assms, of "nat (nHeight b)" "nat height"]
      wf_index_height [OF assms] by (auto simp: nat_mono)
  moreover have "nat (nHeight b - height) = nat (nHeight b) - nat height"
    using False by (simp add: nat_diff_distrib)
  ultimately show ?thesis
    using False assms by (simp add: GetAncestor_def)
qed (use assms in \<open>auto simp: GetAncestor_def\<close>)

subsection \<open>Adding a header to the index\<close>

record block_tree =
  index :: index_store
  mapBlockIndex :: "uint256 \<rightharpoonup> addr"
  pindexBestHeader :: "addr option"
  setDirtyBlockIndex :: "addr set"
  mapPrevBlockIndex :: "(uint256 \<times> addr) list"

definition assert_some :: "'a option \<Rightarrow> chain_error + 'a" where
  "assert_some m = (case m of None \<Rightarrow> Inl AssertFailed | Some x \<Rightarrow> Inr x)"

text \<open>The part of \<open>AddToBlockIndex\<close> that links the new entry to its predecessor.\<close>

definition link_prev :: "(uint256 \<rightharpoonup> addr) \<Rightarrow> index_store \<Rightarrow> uint256 \<Rightarrow> addr \<Rightarrow> chain_error + index_store" where
  "link_prev m h hashPrevBlock p =
     (case m hashPrevBlock of None \<Rightarrow> Inr h
      | Some q \<Rightarrow>
          bindE (deref BadPointer h q) (\<lambda>qb.
          bindE (deref BadPointer h p) (\<lambda>b.
            BuildSkip (h(p \<mapsto> b\<lparr>pprev := Some q, nHeight := nHeight qb + 1\<rparr>)) p)))"

text \<open>The part that accumulates \<open>nTimeMax\<close> and \<open>nChainWork\<close>.\<close>

definition accumulate :: "index_store \<Rightarrow> CBlockIndex \<Rightarrow> chain_error + CBlockIndex" where
  "accumulate h b =
     bindE (map_sum ArithError id (GetBlockProof b)) (\<lambda>proof.
       case pprev b of
         None \<Rightarrow> Inr (b\<lparr>nTimeMax := nTime b, nChainWork := uint_add (uint_of_u64 WIDTH 0) proof\<rparr>)
       | Some q \<Rightarrow> bindE (deref BadPointer h q) (\<lambda>qb.
           Inr (b\<lparr>nTimeMax := max (nTimeMax qb) (nTime b), nChainWork := uint_add (nChainWork qb) proof\<rparr>)))"

text \<open>The part that sets the status; the second result says whether the entry may become the
  best header.\<close>

definition init_status :: "u32 \<Rightarrow> CBlockIndex \<Rightarrow> chain_error + CBlockIndex \<times> bool" where
  "init_status status b =
     (if status AND BLOCK_VALID_MASK \<noteq> 0
      then map_sum id (\<lambda>(b', _). (b', True)) (assert_some (RaiseValidity b status))
      else map_sum id (\<lambda>(b', _). (b'\<lparr>nStatus := nStatus b' OR status\<rparr>, False))
             (assert_some (RaiseValidity b BLOCK_VALID_TREE)))"

definition better_header :: "index_store \<Rightarrow> addr option \<Rightarrow> addr \<Rightarrow> CBlockIndex \<Rightarrow> chain_error + addr option" where
  "better_header h best p b =
     (case best of None \<Rightarrow> Inr (Some p)
      | Some q \<Rightarrow> bindE (deref BadPointer h q) (\<lambda>qb.
          Inr (if uint_CompareTo (nChainWork qb) (nChainWork b) < 0 then Some p else best)))"

text \<open>\<open>GetHash\<close> is the proof-of-work hash of a header and \<open>pindexNew\<close> the address returned by
  \<open>new\<close>.\<close>

definition AddToBlockIndex ::
    "(CBlockHeader \<Rightarrow> uint256) \<Rightarrow> addr \<Rightarrow> block_tree \<Rightarrow> CBlockHeader \<Rightarrow> u32 \<Rightarrow> chain_error + block_tree \<times> addr" where
  "AddToBlockIndex GetHash pindexNew t block status =
     (let hash = GetHash block in
      case mapBlockIndex t hash of Some p \<Rightarrow> Inr (t, p)
      | None \<Rightarrow>
        let m = (mapBlockIndex t)(hash \<mapsto> pindexNew);
            b0 = (CBlockIndex_of_header block)\<lparr>nSequenceId := 0, phashBlock := Some hash\<rparr>
        in bindE (link_prev m ((index t)(pindexNew \<mapsto> b0)) (hdr_hashPrevBlock block) pindexNew) (\<lambda>h.
           bindE (deref BadPointer h pindexNew) (\<lambda>b1.
           bindE (accumulate h b1) (\<lambda>b2.
           bindE (init_status status b2) (\<lambda>(b3, ok).
           let h' = h(pindexNew \<mapsto> b3) in
           bindE (if ok then better_header h' (pindexBestHeader t) pindexNew b3
                  else Inr (pindexBestHeader t)) (\<lambda>best.
           bindE (case pprev b3 of None \<Rightarrow> Inr (mapPrevBlockIndex t)
                  | Some q \<Rightarrow> bindE (deref BadPointer h' q) (\<lambda>qb.
                      map_sum id (\<lambda>x. (x, pindexNew) # mapPrevBlockIndex t) (GetBlockHash qb))) (\<lambda>mp.
           Inr (\<lparr>index = h', mapBlockIndex = m, pindexBestHeader = best,
                  setDirtyBlockIndex = insert pindexNew (setDirtyBlockIndex t),
                  mapPrevBlockIndex = mp\<rparr>, pindexNew))))))))"

lemma SetCompact_wf: "is_arith256 (fst (SetCompact c))"
  using SetCompact_val(1) [of c] by (simp add: is_arith256_def)

lemma SetCompact_not_max:
  assumes "\<not> snd (snd (SetCompact c))"
  shows "limbs_val (fst (SetCompact c)) + 1 < 2 ^ 256"
proof -
  define sz mt where "sz = unat c div 2 ^ 24" and "mt = unat c mod 2 ^ 23"
  note v = SetCompact_val(2) [of c, folded sz_def mt_def] and o = SetCompact_val(4) [of c, folded sz_def mt_def]
  show ?thesis
  proof (cases "sz \<le> 3")
    case True
    have "mt < 2 ^ 23" by (simp add: mt_def)
    moreover have "limbs_val (fst (SetCompact c)) \<le> mt" using v True by simp
    ultimately show ?thesis by simp
  next
    case False
    then obtain k where k: "sz - 3 = Suc k" by (cases "sz - 3") auto
    have lt: "mt * 256 ^ (sz - 3) < 2 ^ 256" using assms o False by simp
    then have val: "limbs_val (fst (SetCompact c)) = 256 * (mt * 256 ^ k)"
      using v False k by simp
    define y where "y = mt * 256 ^ k"
    have "256 * y < 256 * 2 ^ 248" using lt k unfolding y_def by simp
    then have "y + 1 \<le> 2 ^ 248" by simp
    then show ?thesis unfolding val y_def [symmetric] by simp
  qed
qed

lemma GetBlockProof_val:
  "\<exists>w. GetBlockProof b = Inr w \<and> is_arith256 w \<and> limbs_val w = block_work (nBits b)"
proof -
  obtain t neg ovf where sc: "SetCompact (nBits b) = (t, neg, ovf)" by (metis prod_cases3)
  have t: "is_arith256 t" using SetCompact_wf [of "nBits b"] sc by simp
  have eq: "uint_EqualTo t 0 \<longleftrightarrow> limbs_val t = 0"
    using t uint_EqualTo_val [of t 0] by (simp add: is_arith256_def WIDTH_def)
  show ?thesis
  proof (cases "neg \<or> ovf \<or> limbs_val t = 0")
    case True
    then show ?thesis
      using eq sc a256.wf_of_u64 [of 0] a256.val_of_u64 [of 0]
      by (auto simp: GetBlockProof_def block_work_def)
  next
    case False
    then have "limbs_val t + 1 < 2 ^ 256" using SetCompact_not_max [of "nBits b"] sc by simp
    from a256.not_div_Suc [OF t _ this] obtain q where
        "uint_div (uint_not t) (uint_add t (uint_of_u64 WIDTH 1)) = Inr q"
        "is_arith256 (uint_add q (uint_of_u64 WIDTH 1))"
        "limbs_val (uint_add q (uint_of_u64 WIDTH 1)) = 2 ^ 256 div (limbs_val t + 1)"
      using False by blast
    then show ?thesis
      using False eq sc by (simp add: GetBlockProof_def block_work_def)
  qed
qed

lemma nth_prev_update_new:
  assumes "wf_index h" "h a = None" "p \<noteq> a"
  shows "nth_prev (h(a \<mapsto> b)) n p = nth_prev h n p"
  using assms
proof (induction n arbitrary: p)
  case (Suc n)
  have "q \<noteq> a" if "h p = Some pb" "pprev pb = Some q" for pb q
    using that Suc.prems by (metis option.distinct(1) wf_index_prev)
  with Suc show ?case by (auto split: option.splits)
qed simp

lemma GetAncestor_walk_update_new:
  assumes "wf_index h" "h a = None" "p \<noteq> a" "\<And>r. r \<noteq> a \<Longrightarrow> h' r = h r"
  shows "GetAncestor_walk h' height p hw = GetAncestor_walk h height p hw"
  using assms
proof (induction h height p hw rule: GetAncestor_walk.induct)
  case (1 h height p hw)
  have pprev: "q \<noteq> a" if "h p = Some pb" "pprev pb = Some q" for pb q
    using that "1.prems" by (metis option.distinct(1) wf_index_prev)
  have pskip: "s \<noteq> a" if "h p = Some pb" "pskip pb = Some s" for pb s
    using wf_index_pskip [OF "1.prems"(1) that] "1.prems"(2) nth_prev_Some_heap by fastforce
  show ?case
  proof (cases "height < hw")
    case gt: True
    show ?thesis
    proof (cases "h p")
      case None
      with gt "1.prems" show ?thesis by (simp add: GetAncestor_walk.simps [of _ _ p])
    next
      case (Some pb)
      note IH = "1.IH" [OF gt refl refl Some]
      show ?thesis
        using "1.prems" IH gt Some pprev [OF Some] pskip [OF Some]
        by (subst (1 2) GetAncestor_walk.simps) (auto simp: Let_def split: option.split)
    qed
  qed (simp add: GetAncestor_walk.simps)
qed

lemma GetAncestor_update_new:
  "wf_index h \<Longrightarrow> h a = None \<Longrightarrow> p \<noteq> a \<Longrightarrow> GetAncestor (h(a \<mapsto> b)) p height = GetAncestor h p height"
  using GetAncestor_walk_update_new [of h a p "h(a \<mapsto> b)"]
  by (simp add: GetAncestor_def split: option.split)

lemma wf_entry_update_new:
  assumes "wf_index h" "h a = None" "h p = Some pb"
  shows "wf_entry (h(a \<mapsto> b)) p pb"
proof -
  have p: "p \<noteq> a" using assms by auto
  have "q \<noteq> a" if "pprev pb = Some q" for q
    using that assms by (metis option.distinct(1) wf_index_prev)
  then show ?thesis
    using wf_indexD [OF assms(1,3)] p assms(1,2)
    by (auto simp: wf_entry_def wf_child_def nth_prev_update_new split: option.splits)
qed

lemma wf_index_insert:
  assumes "wf_index h" "h a = None" "wf_entry (h(a \<mapsto> b)) a b"
  shows "wf_index (h(a \<mapsto> b))"
  using assms wf_entry_update_new [OF assms(1,2)] by (auto simp: wf_index_def)

definition header_ok :: "CBlockIndex \<Rightarrow> bool" where
  "header_ok b \<longleftrightarrow> nStatus b AND (BLOCK_CONFLICT_CHAINLOCK OR BLOCK_FAILED_MASK) = 0"

text \<open>The statuses the callers pass: a validity level, or a mark of an unusable header.\<close>

definition status_arg :: "u32 \<Rightarrow> bool" where
  "status_arg s \<longleftrightarrow> (if s AND BLOCK_VALID_MASK \<noteq> 0 then s AND NOT BLOCK_VALID_MASK = 0
     else s AND (BLOCK_CONFLICT_CHAINLOCK OR BLOCK_FAILED_MASK) \<noteq> 0)"

definition best_header_ok :: "index_store \<Rightarrow> addr option \<Rightarrow> bool" where
  "best_header_ok h best \<longleftrightarrow> pred_option (\<lambda>q. h q \<noteq> None) best \<and>
     (\<forall>p b. h p = Some b \<longrightarrow> header_ok b \<longrightarrow>
        (\<exists>q qb. best = Some q \<and> h q = Some qb \<and> limbs_val (nChainWork b) \<le> limbs_val (nChainWork qb)))"

definition wf_tree :: "block_tree \<Rightarrow> bool" where
  "wf_tree t \<longleftrightarrow> wf_index (index t) \<and>
     (\<forall>x p. mapBlockIndex t x = Some p \<longleftrightarrow> (\<exists>b. index t p = Some b \<and> phashBlock b = Some x)) \<and>
     (\<forall>x p. (x, p) \<in> set (mapPrevBlockIndex t) \<longleftrightarrow>
        (\<exists>b q qb. index t p = Some b \<and> pprev b = Some q \<and> index t q = Some qb \<and> phashBlock qb = Some x)) \<and>
     best_header_ok (index t) (pindexBestHeader t)"

lemmas block_status_defs = BLOCK_VALID_MASK_def BLOCK_FAILED_MASK_def BLOCK_CONFLICT_CHAINLOCK_def
  BLOCK_VALID_TREE_def BLOCK_VALID_TRANSACTIONS_def BLOCK_HAVE_DATA_def BLOCK_HAVE_UNDO_def

lemma valid_mask_disjoint:
  assumes "s AND NOT BLOCK_VALID_MASK = 0"
  shows "s AND (BLOCK_CONFLICT_CHAINLOCK OR BLOCK_FAILED_MASK) = 0"
proof -
  have "s = s AND BLOCK_VALID_MASK"
    using assms by (metis word_bw_comms(2) word_log_esimps(3) word_not_dist(2) word_ao_absorbs(4) bit.conj_disj_distrib bit.conj_one_right bit.disj_cancel_right bit.disj_zero_right)
  moreover have "BLOCK_VALID_MASK AND (BLOCK_CONFLICT_CHAINLOCK OR BLOCK_FAILED_MASK) = 0"
    by (simp add: block_status_defs)
  ultimately show ?thesis by (metis and.assoc and_zero_eq)
qed

lemma init_status_val:
  assumes "nStatus b = 0" "status_arg s"
  shows "\<exists>st. init_status s b = Inr (b\<lparr>nStatus := st\<rparr>, s AND BLOCK_VALID_MASK \<noteq> 0) \<and>
     (header_ok (b\<lparr>nStatus := st\<rparr>) \<longleftrightarrow> s AND BLOCK_VALID_MASK \<noteq> 0)"
proof (cases "s AND BLOCK_VALID_MASK = 0")
  case True
  have "(BLOCK_VALID_TREE OR s) AND (BLOCK_CONFLICT_CHAINLOCK OR BLOCK_FAILED_MASK)
      = s AND (BLOCK_CONFLICT_CHAINLOCK OR BLOCK_FAILED_MASK)"
    by (simp add: bit.conj_disj_distrib2) (simp add: block_status_defs)
  then show ?thesis
    using True assms
    by (intro exI [of _ "BLOCK_VALID_TREE OR s"])
      (simp add: init_status_def RaiseValidity_def assert_some_def header_ok_def status_arg_def,
        simp add: block_status_defs)
next
  case False
  then have "s AND NOT BLOCK_VALID_MASK = 0" "s \<noteq> 0" using assms(2) by (auto simp: status_arg_def)
  then show ?thesis
    using False assms(1) valid_mask_disjoint [of s]
    by (intro exI [of _ s])
      (simp add: init_status_def RaiseValidity_def assert_some_def header_ok_def word_gt_0)
qed

lemma accumulate_val:
  "pprev b = None \<Longrightarrow> \<exists>w. accumulate h b = Inr (b\<lparr>nTimeMax := nTime b, nChainWork := w\<rparr>) \<and>
     is_arith256 w \<and> limbs_val w = block_work (nBits b)"
  "pprev b = Some q \<Longrightarrow> h q = Some qb \<Longrightarrow> is_arith256 (nChainWork qb) \<Longrightarrow>
     \<exists>w. accumulate h b = Inr (b\<lparr>nTimeMax := max (nTimeMax qb) (nTime b), nChainWork := w\<rparr>) \<and>
     is_arith256 w \<and> limbs_val w = (limbs_val (nChainWork qb) + block_work (nBits b)) mod 2 ^ 256"
proof -
  obtain w where w: "GetBlockProof b = Inr w" "is_arith256 w" "limbs_val w = block_work (nBits b)"
    using GetBlockProof_val by blast
  have less: "block_work (nBits b) < 2 ^ 256" using a256.val_less [OF w(2)] w(3) by simp
  show "\<exists>w. accumulate h b = Inr (b\<lparr>nTimeMax := nTime b, nChainWork := w\<rparr>) \<and>
     is_arith256 w \<and> limbs_val w = block_work (nBits b)" if "pprev b = None"
    using that w less
    by (intro exI [of _ "uint_add (uint_of_u64 WIDTH 0) w"])
      (simp add: accumulate_def a256.wf_add a256.wf_of_u64 a256.val_add a256.val_of_u64)
  show "\<exists>w. accumulate h b = Inr (b\<lparr>nTimeMax := max (nTimeMax qb) (nTime b), nChainWork := w\<rparr>) \<and>
     is_arith256 w \<and> limbs_val w = (limbs_val (nChainWork qb) + block_work (nBits b)) mod 2 ^ 256"
    if "pprev b = Some q" "h q = Some qb" "is_arith256 (nChainWork qb)"
    using that w by (intro exI [of _ "uint_add (nChainWork qb) w"])
      (simp add: accumulate_def a256.wf_add a256.val_add)
qed

lemma link_prev_val:
  assumes "wf_index h" "h a = None" "q \<noteq> a" "h q = Some qb" "m x = Some q"
  shows "\<exists>s. link_prev m (h(a \<mapsto> b)) x a
      = Inr (h(a \<mapsto> b\<lparr>pprev := Some q, nHeight := nHeight qb + 1, pskip := s\<rparr>)) \<and>
     (\<forall>b'. pprev b' = Some q \<longrightarrow>
        nth_prev (h(a \<mapsto> b')) (nat (nHeight qb + 1) - GetSkipHeight (nat (nHeight qb + 1))) a = s)"
proof -
  let ?k = "nat (nHeight qb + 1)"
  have pos: "0 \<le> nHeight qb" using wf_index_height [OF assms(1,4)] .
  have skip: "GetSkipHeight ?k < ?k" using pos by (intro GetSkipHeight_less) simp
  then have steps: "?k - GetSkipHeight ?k = Suc (nat (nHeight qb - int (GetSkipHeight ?k)))"
    using pos by linarith
  have "GetAncestor h q (int (GetSkipHeight ?k))
      = Inr (nth_prev h (nat (nHeight qb - int (GetSkipHeight ?k))) q)"
    using GetAncestor_nth_prev [OF assms(1,4), of "int (GetSkipHeight ?k)"] skip by auto
  then show ?thesis
    using assms by (intro exI [of _ "nth_prev h (nat (nHeight qb - int (GetSkipHeight ?k))) q"])
      (simp add: link_prev_def BuildSkip_def GetAncestor_update_new steps nth_prev_update_new)
qed

text \<open>The entry that the first three parts of \<open>AddToBlockIndex\<close> build.\<close>

definition entry_of :: "block_tree \<Rightarrow> CBlockHeader \<Rightarrow> uint256 \<Rightarrow> CBlockIndex \<Rightarrow> bool" where
  "entry_of t block x b \<longleftrightarrow> phashBlock b = Some x \<and> pprev b = mapBlockIndex t (hdr_hashPrevBlock block) \<and>
     nVersion b = hdr_nVersion block \<and> hashMerkleRoot b = hdr_hashMerkleRoot block \<and>
     nTime b = hdr_nTime block \<and> nBits b = hdr_nBits block \<and> nNonce b = hdr_nNonce block \<and>
     nTx b = 0 \<and> nChainTx b = 0 \<and> nSequenceId b = 0"

lemma wf_tree_map: "wf_tree t \<Longrightarrow> mapBlockIndex t x = Some p \<Longrightarrow>
    \<exists>b. index t p = Some b \<and> phashBlock b = Some x"
  by (simp add: wf_tree_def)

lemma wf_entry_nStatus [simp]: "wf_entry h p (b\<lparr>nStatus := s\<rparr>) = wf_entry h p b"
  by (simp add: wf_entry_def wf_child_def cong: option.case_cong)

lemma nth_prev_cong:
  assumes "\<And>r. map_option pprev (h r) = map_option pprev (h' r)"
  shows "nth_prev h n p = nth_prev h' n p"
proof (induction n arbitrary: p)
  case 0
  show ?case using assms [of p] by (cases "h p"; cases "h' p") auto
next
  case (Suc n)
  then show ?case using assms [of p] by (cases "h p"; cases "h' p") (auto split: option.split)
qed

lemma AddToBlockIndex_entry:
  fixes t :: block_tree
  assumes wf: "wf_tree t" and new: "index t a = None" "GetHash block \<noteq> hdr_hashPrevBlock block"
  defines "b0 \<equiv> (CBlockIndex_of_header block)\<lparr>nSequenceId := 0, phashBlock := Some (GetHash block)\<rparr>"
  shows "\<exists>b1 b2. link_prev ((mapBlockIndex t)(GetHash block \<mapsto> a)) ((index t)(a \<mapsto> b0))
        (hdr_hashPrevBlock block) a = Inr ((index t)(a \<mapsto> b1)) \<and>
     accumulate ((index t)(a \<mapsto> b1)) b1 = Inr b2 \<and> nStatus b2 = 0 \<and>
     entry_of t block (GetHash block) b2 \<and>
     (\<forall>b. pprev b = pprev b2 \<longrightarrow> wf_entry ((index t)(a \<mapsto> b)) a b2)"
proof (cases "mapBlockIndex t (hdr_hashPrevBlock block)")
  case None
  have b0: "pprev b0 = None" by (simp add: b0_def CBlockIndex_of_header_def CBlockIndex_SetNull_def)
  obtain w where "accumulate ((index t)(a \<mapsto> b0)) b0 = Inr (b0\<lparr>nTimeMax := nTime b0, nChainWork := w\<rparr>)"
      "is_arith256 w" "limbs_val w = block_work (nBits b0)"
    using accumulate_val(1) [OF b0] by blast
  moreover have "link_prev ((mapBlockIndex t)(GetHash block \<mapsto> a)) ((index t)(a \<mapsto> b0))
        (hdr_hashPrevBlock block) a = Inr ((index t)(a \<mapsto> b0))"
    using None new(2) by (simp add: link_prev_def)
  ultimately show ?thesis
    using None
    by (intro exI [of _ b0] exI [of _ "b0\<lparr>nTimeMax := nTime b0, nChainWork := w\<rparr>"])
      (simp add: entry_of_def wf_entry_def b0_def CBlockIndex_of_header_def CBlockIndex_SetNull_def)
next
  case (Some q)
  obtain qb where qb: "index t q = Some qb" using wf_tree_map [OF wf Some] by blast
  have wfi: "wf_index (index t)" using wf by (simp add: wf_tree_def)
  have qa: "q \<noteq> a" using qb new by auto
  have m: "((mapBlockIndex t)(GetHash block \<mapsto> a)) (hdr_hashPrevBlock block) = Some q"
    using Some new(2) by simp
  obtain s where s: "link_prev ((mapBlockIndex t)(GetHash block \<mapsto> a)) ((index t)(a \<mapsto> b0))
        (hdr_hashPrevBlock block) a
        = Inr ((index t)(a \<mapsto> b0\<lparr>pprev := Some q, nHeight := nHeight qb + 1, pskip := s\<rparr>))"
      "\<forall>b'. pprev b' = Some q \<longrightarrow> nth_prev ((index t)(a \<mapsto> b'))
         (nat (nHeight qb + 1) - GetSkipHeight (nat (nHeight qb + 1))) a = s"
    using link_prev_val [where m = "(mapBlockIndex t)(GetHash block \<mapsto> a)", OF wfi new(1) qa qb m, of b0]
    by blast
  define b1 where "b1 = b0\<lparr>pprev := Some q, nHeight := nHeight qb + 1, pskip := s\<rparr>"
  have work: "is_arith256 (nChainWork qb)" and hq: "0 \<le> nHeight qb"
    using wf_indexD [OF wfi qb] by (simp_all add: wf_entry_def)
  have "pprev b1 = Some q" "((index t)(a \<mapsto> b1)) q = Some qb" using qa qb by (simp_all add: b1_def)
  then obtain w where w: "accumulate ((index t)(a \<mapsto> b1)) b1
        = Inr (b1\<lparr>nTimeMax := max (nTimeMax qb) (nTime b1), nChainWork := w\<rparr>)"
      "is_arith256 w" "limbs_val w = (limbs_val (nChainWork qb) + block_work (nBits b1)) mod 2 ^ 256"
    using accumulate_val(2) work by blast
  define b2 where "b2 = b1\<lparr>nTimeMax := max (nTimeMax qb) (nTime b1), nChainWork := w\<rparr>"
  have "nStatus b2 = 0 \<and> entry_of t block (GetHash block) b2 \<and> pprev b2 = Some q"
    using Some by (simp add: b2_def b1_def b0_def entry_of_def CBlockIndex_of_header_def
        CBlockIndex_SetNull_def)
  moreover have "wf_entry ((index t)(a \<mapsto> b)) a b2" if "pprev b = Some q" for b
    using that s(2) w(2,3) hq qa qb unfolding b2_def b1_def
    by (simp add: wf_entry_def wf_child_def b0_def)
  ultimately show ?thesis
    using s(1) w(1) by (intro exI [of _ b1] exI [of _ b2]) (simp add: b1_def b2_def)
qed

lemma AddToBlockIndex_new:
  assumes wf: "wf_tree t" and new: "index t a = None" "GetHash block \<noteq> hdr_hashPrevBlock block"
    and absent: "mapBlockIndex t (GetHash block) = None" and st: "status_arg s"
  shows "\<exists>t' b. AddToBlockIndex GetHash a t block s = Inr (t', a) \<and>
     entry_of t block (GetHash block) b \<and> wf_entry ((index t)(a \<mapsto> b)) a b \<and>
     (header_ok b \<longleftrightarrow> s AND BLOCK_VALID_MASK \<noteq> 0) \<and>
     index t' = (index t)(a \<mapsto> b) \<and> mapBlockIndex t' = (mapBlockIndex t)(GetHash block \<mapsto> a) \<and>
     setDirtyBlockIndex t' = insert a (setDirtyBlockIndex t) \<and>
     mapPrevBlockIndex t' = (case pprev b of None \<Rightarrow> [] | Some q \<Rightarrow> [(hdr_hashPrevBlock block, a)])
        @ mapPrevBlockIndex t \<and>
     Inr (pindexBestHeader t') = (if s AND BLOCK_VALID_MASK \<noteq> 0
        then better_header (index t') (pindexBestHeader t) a b else Inr (pindexBestHeader t))"
proof -
  obtain b1 b2 where b: "link_prev ((mapBlockIndex t)(GetHash block \<mapsto> a)) ((index t)(a \<mapsto>
        (CBlockIndex_of_header block)\<lparr>nSequenceId := 0, phashBlock := Some (GetHash block)\<rparr>))
        (hdr_hashPrevBlock block) a = Inr ((index t)(a \<mapsto> b1))"
      "accumulate ((index t)(a \<mapsto> b1)) b1 = Inr b2" "nStatus b2 = 0"
      "entry_of t block (GetHash block) b2"
      "\<forall>b. pprev b = pprev b2 \<longrightarrow> wf_entry ((index t)(a \<mapsto> b)) a b2"
    using AddToBlockIndex_entry [where GetHash = GetHash, OF wf new] by blast
  obtain n where n: "init_status s b2 = Inr (b2\<lparr>nStatus := n\<rparr>, s AND BLOCK_VALID_MASK \<noteq> 0)"
      "header_ok (b2\<lparr>nStatus := n\<rparr>) \<longleftrightarrow> s AND BLOCK_VALID_MASK \<noteq> 0"
    using init_status_val [OF b(3) st] by blast
  define b3 where "b3 = b2\<lparr>nStatus := n\<rparr>"
  have e3: "entry_of t block (GetHash block) b3" "wf_entry ((index t)(a \<mapsto> b3)) a b3"
    using b(4,5) by (simp_all add: entry_of_def b3_def)
  let ?h = "(index t)(a \<mapsto> b3)"
  have "\<exists>best. better_header ?h (pindexBestHeader t) a b3 = Inr best"
    using wf by (cases "pindexBestHeader t") (auto simp: better_header_def wf_tree_def best_header_ok_def deref_def split: option.split)
  then obtain best where best: "(if s AND BLOCK_VALID_MASK \<noteq> 0
      then better_header ?h (pindexBestHeader t) a b3 else Inr (pindexBestHeader t)) = Inr best"
    by (cases "s AND BLOCK_VALID_MASK = 0") auto
  have mp: "(case pprev b3 of None \<Rightarrow> Inr (mapPrevBlockIndex t)
      | Some q \<Rightarrow> bindE (deref BadPointer ?h q) (\<lambda>qb.
          map_sum id (\<lambda>x. (x, a) # mapPrevBlockIndex t) (GetBlockHash qb)))
     = Inr ((case pprev b3 of None \<Rightarrow> [] | Some q \<Rightarrow> [(hdr_hashPrevBlock block, a)]) @ mapPrevBlockIndex t)"
  proof (cases "pprev b3")
    case (Some q)
    then have "mapBlockIndex t (hdr_hashPrevBlock block) = Some q" using e3(1) by (simp add: entry_of_def)
    from wf_tree_map [OF wf this] new(1) Some show ?thesis by (auto simp: GetBlockHash_def)
  qed simp
  have d: "deref BadPointer ((index t)(a \<mapsto> b1)) a = Inr b1" by simp
  have "AddToBlockIndex GetHash a t block s = Inr (\<lparr>index = ?h,
      mapBlockIndex = (mapBlockIndex t)(GetHash block \<mapsto> a), pindexBestHeader = best,
      setDirtyBlockIndex = insert a (setDirtyBlockIndex t),
      mapPrevBlockIndex = (case pprev b3 of None \<Rightarrow> [] | Some q \<Rightarrow> [(hdr_hashPrevBlock block, a)])
        @ mapPrevBlockIndex t\<rparr>, a)"
    unfolding AddToBlockIndex_def Let_def
    by (simp only: absent option.case b(1,2) bindE_simps d n(1) [folded b3_def] prod.case fun_upd_upd best mp)
  then show ?thesis
    using e3 best n(2) [folded b3_def] by (intro exI [of _ b3] exI conjI) auto
qed

lemma better_header_best:
  assumes "better_header h best p b = Inr best'" "h p = Some b" "wf_index h"
    "pred_option (\<lambda>q. h q \<noteq> None) best"
  obtains q qb where "best' = Some q" "h q = Some qb" "limbs_val (nChainWork b) \<le> limbs_val (nChainWork qb)"
    "\<And>r rb. best = Some r \<Longrightarrow> h r = Some rb \<Longrightarrow> limbs_val (nChainWork rb) \<le> limbs_val (nChainWork qb)"
proof (cases best)
  case None
  with assms that [of p b] show thesis by (auto simp: better_header_def)
next
  case (Some r)
  then obtain rb where rb: "h r = Some rb" using assms(4) by auto
  have w: "is_arith256 (nChainWork rb)" "is_arith256 (nChainWork b)"
    using wf_indexD [OF assms(3) rb] wf_indexD [OF assms(3,2)] by (simp_all add: wf_entry_def)
  have less: "uint_CompareTo (nChainWork rb) (nChainWork b) < 0 \<longleftrightarrow>
      limbs_val (nChainWork rb) < limbs_val (nChainWork b)"
    by (simp add: a256.cmp_val [OF w] sgn_if)
  show thesis
  proof (cases "limbs_val (nChainWork rb) < limbs_val (nChainWork b)")
    case True
    with assms that [of p b] Some rb less show thesis by (fastforce simp: better_header_def)
  next
    case False
    with assms that [of r rb] Some rb less show thesis by (fastforce simp: better_header_def)
  qed
qed

lemma best_header_ok_insert:
  assumes old: "best_header_ok h best" and new: "h a = None" and wf: "wf_index (h(a \<mapsto> b))"
    and step: "Inr best' = (if ok then better_header (h(a \<mapsto> b)) best a b else Inr best)"
    and ok: "header_ok b \<longleftrightarrow> ok"
  shows "best_header_ok (h(a \<mapsto> b)) best'"
proof -
  let ?h = "h(a \<mapsto> b)"
  have pred: "pred_option (\<lambda>q. ?h q \<noteq> None) best"
    using old by (cases best) (auto simp: best_header_ok_def)
  have keep: "\<exists>q qb. best = Some q \<and> ?h q = Some qb \<and> limbs_val (nChainWork pb) \<le> limbs_val (nChainWork qb)"
    if pb: "h p = Some pb" "header_ok pb" for p pb
  proof -
    obtain q qb where "best = Some q" "h q = Some qb" "limbs_val (nChainWork pb) \<le> limbs_val (nChainWork qb)"
      using old pb unfolding best_header_ok_def by blast
    then show ?thesis using new by (intro exI [of _ q] exI [of _ qb]) auto
  qed
  show ?thesis
  proof (cases ok)
    case False
    have "\<exists>q qb. best = Some q \<and> ?h q = Some qb \<and> limbs_val (nChainWork pb) \<le> limbs_val (nChainWork qb)"
      if "?h p = Some pb" "header_ok pb" for p pb
      using that ok False by (intro keep [of p pb]) (auto split: if_splits)
    then show ?thesis using pred step False by (auto simp: best_header_ok_def simp del: fun_upd_apply)
  next
    case True
    then have bh: "better_header ?h best a b = Inr best'" using step by simp
    obtain q qb where q: "best' = Some q" "?h q = Some qb" "limbs_val (nChainWork b) \<le> limbs_val (nChainWork qb)"
      "\<And>r rb. best = Some r \<Longrightarrow> ?h r = Some rb \<Longrightarrow> limbs_val (nChainWork rb) \<le> limbs_val (nChainWork qb)"
      by (rule better_header_best [OF bh _ wf pred]) simp_all
    have "limbs_val (nChainWork pb) \<le> limbs_val (nChainWork qb)" if "?h p = Some pb" "header_ok pb" for p pb
    proof (cases "p = a")
      case False
      then have "h p = Some pb" using that by simp
      with keep that q(4) show ?thesis by (meson le_trans)
    qed (use that q(3) in simp)
    then show ?thesis using q(1,2) by (auto simp: best_header_ok_def simp del: fun_upd_apply)
  qed
qed

lemma AddToBlockIndex_wf_tree:
  assumes wf: "wf_tree t" and new: "index t a = None" "GetHash block \<noteq> hdr_hashPrevBlock block"
    and st: "status_arg s"
  shows "\<exists>t' p. AddToBlockIndex GetHash a t block s = Inr (t', p) \<and> wf_tree t' \<and>
     mapBlockIndex t' (GetHash block) = Some p \<and> (\<forall>r b. index t r = Some b \<longrightarrow> index t' r = Some b)"
proof (cases "mapBlockIndex t (GetHash block)")
  case (Some p)
  then show ?thesis using wf by (simp add: AddToBlockIndex_def)
next
  case None
  from AddToBlockIndex_new [where GetHash = GetHash, OF wf new None st] obtain t' b where
    res: "AddToBlockIndex GetHash a t block s = Inr (t', a)" and
    e: "entry_of t block (GetHash block) b" and w: "wf_entry ((index t)(a \<mapsto> b)) a b" and
    ok: "header_ok b \<longleftrightarrow> s AND BLOCK_VALID_MASK \<noteq> 0" and
    ix: "index t' = (index t)(a \<mapsto> b)" and m: "mapBlockIndex t' = (mapBlockIndex t)(GetHash block \<mapsto> a)" and
    pm: "mapPrevBlockIndex t' = (case pprev b of None \<Rightarrow> [] | Some q \<Rightarrow> [(hdr_hashPrevBlock block, a)])
        @ mapPrevBlockIndex t" and
    best: "Inr (pindexBestHeader t') = (if s AND BLOCK_VALID_MASK \<noteq> 0
        then better_header (index t') (pindexBestHeader t) a b else Inr (pindexBestHeader t))"
    by blast
  have wfi: "wf_index (index t)" using wf by (simp add: wf_tree_def)
  have wfi': "wf_index (index t')" unfolding ix by (rule wf_index_insert [OF wfi new(1) w])
  have hash: "phashBlock b = Some (GetHash block)" using e by (simp add: entry_of_def)
  have prev: "index t q \<noteq> None \<and> map_option phashBlock (index t q) = Some (Some (hdr_hashPrevBlock block))"
    if "pprev b = Some q" for q
    using that e wf_tree_map [OF wf, of "hdr_hashPrevBlock block" q] by (auto simp: entry_of_def)
  have m': "mapBlockIndex t' x = Some p \<longleftrightarrow> (\<exists>b. index t' p = Some b \<and> phashBlock b = Some x)" for x p
  proof -
    have "mapBlockIndex t x = Some p \<longleftrightarrow> (\<exists>b. index t p = Some b \<and> phashBlock b = Some x)" for x p
      using wf by (simp add: wf_tree_def)
    from this [of x p] this [of "GetHash block" p] this [of x a] None hash new(1)
    show ?thesis by (auto simp: ix m)
  qed
  have pm': "(x, p) \<in> set (mapPrevBlockIndex t') \<longleftrightarrow> (\<exists>b q qb. index t' p = Some b \<and> pprev b = Some q \<and>
      index t' q = Some qb \<and> phashBlock qb = Some x)" for x p
  proof (cases "p = a")
    case True
    have "(x, a) \<notin> set (mapPrevBlockIndex t)" using wf new(1) by (auto simp: wf_tree_def)
    moreover have "q \<noteq> a" if "pprev b = Some q" for q using prev [OF that] new(1) by auto
    ultimately show ?thesis
      using True prev by (cases "pprev b") (auto simp: ix pm)
  next
    case False
    have "q \<noteq> a" if "index t p = Some pb" "pprev pb = Some q" for pb q
      using that wfi new(1) by (metis option.distinct(1) wf_index_prev)
    then show ?thesis
      using False wf by (cases "pprev b") (auto simp: ix pm wf_tree_def)
  qed
  have "best_header_ok (index t') (pindexBestHeader t')"
    using wf best_header_ok_insert [OF _ new(1) wfi' [unfolded ix], of "pindexBestHeader t"] best ok
    unfolding wf_tree_def ix by blast
  then have "wf_tree t'"
    unfolding wf_tree_def using wfi' m' pm' by blast
  then show ?thesis using res m ix new(1) by auto
qed

section \<open>The active chain\<close>

type_synonym CChain = "addr option list"

definition chain_Genesis :: "CChain \<Rightarrow> addr option" where
  "chain_Genesis vChain = (if length vChain > 0 then vChain ! 0 else None)"

definition chain_Tip :: "CChain \<Rightarrow> addr option" where
  "chain_Tip vChain = (if length vChain > 0 then vChain ! (length vChain - 1) else None)"

definition chain_at :: "CChain \<Rightarrow> int \<Rightarrow> addr option" where
  "chain_at vChain n = (if n < 0 \<or> n \<ge> int (length vChain) then None else vChain ! nat n)"

text \<open>\<open>operator==\<close>; on two empty chains it reads the element before the first one.\<close>

definition chain_eq :: "CChain \<Rightarrow> CChain \<Rightarrow> chain_error + bool" where
  "chain_eq a b =
     (if length a \<noteq> length b then Inr False
      else if length a = 0 then Inl OutOfRange
      else Inr (a ! (length a - 1) = b ! (length b - 1)))"

definition Contains :: "index_store \<Rightarrow> CChain \<Rightarrow> addr \<Rightarrow> chain_error + bool" where
  "Contains h vChain p = bindE (deref BadPointer h p) (\<lambda>b. Inr (chain_at vChain (nHeight b) = Some p))"

definition chain_Next :: "index_store \<Rightarrow> CChain \<Rightarrow> addr \<Rightarrow> chain_error + addr option" where
  "chain_Next h vChain p =
     bindE (Contains h vChain p) (\<lambda>c.
     bindE (deref BadPointer h p) (\<lambda>b.
       Inr (if c then chain_at vChain (nHeight b + 1) else None)))"

definition chain_Height :: "CChain \<Rightarrow> int" where
  "chain_Height vChain = int (length vChain) - 1"

definition vector_resize :: "nat \<Rightarrow> 'a \<Rightarrow> 'a list \<Rightarrow> 'a list" where
  "vector_resize n x xs = take n xs @ replicate (n - length xs) x"

text \<open>The loop visits one entry per height, so \<open>nHeight + 1\<close> rounds are enough.\<close>

fun SetTip_loop :: "nat \<Rightarrow> index_store \<Rightarrow> CChain \<Rightarrow> addr option \<Rightarrow> chain_error + CChain" where
  "SetTip_loop fuel h vChain None = Inr vChain"
| "SetTip_loop 0 h vChain (Some p) = Inl OutOfFuel"
| "SetTip_loop (Suc fuel) h vChain (Some p) =
     bindE (deref BadPointer h p) (\<lambda>b.
       if nHeight b < 0 \<or> nHeight b \<ge> int (length vChain) then Inl OutOfRange
       else if vChain ! nat (nHeight b) \<noteq> Some p
       then SetTip_loop fuel h (vChain[nat (nHeight b) := Some p]) (pprev b)
       else Inr vChain)"

definition SetTip :: "index_store \<Rightarrow> CChain \<Rightarrow> addr option \<Rightarrow> chain_error + CChain" where
  "SetTip h vChain pindex =
     (case pindex of None \<Rightarrow> Inr []
      | Some p \<Rightarrow> bindE (deref BadPointer h p) (\<lambda>b.
          if nHeight b + 1 < 0 then Inl OutOfRange
          else SetTip_loop (nat (nHeight b) + 1) h (vector_resize (nat (nHeight b + 1)) None vChain) pindex))"

fun FindFork_loop :: "nat \<Rightarrow> index_store \<Rightarrow> CChain \<Rightarrow> addr option \<Rightarrow> chain_error + addr option" where
  "FindFork_loop fuel h vChain None = Inr None"
| "FindFork_loop 0 h vChain (Some p) = Inl OutOfFuel"
| "FindFork_loop (Suc fuel) h vChain (Some p) =
     bindE (Contains h vChain p) (\<lambda>c.
     if c then Inr (Some p)
     else bindE (deref BadPointer h p) (\<lambda>b. FindFork_loop fuel h vChain (pprev b)))"

definition FindFork :: "index_store \<Rightarrow> CChain \<Rightarrow> addr option \<Rightarrow> chain_error + addr option" where
  "FindFork h vChain pindex =
     (case pindex of None \<Rightarrow> Inr None
      | Some p \<Rightarrow> bindE (deref BadPointer h p) (\<lambda>b.
          bindE (if nHeight b > chain_Height vChain then GetAncestor h p (chain_Height vChain)
                 else Inr (Some p))
            (FindFork_loop (nat (nHeight b) + 1) h vChain)))"

text \<open>\<open>vHave\<close> is kept in order of insertion.\<close>

fun GetLocator_loop ::
    "nat \<Rightarrow> index_store \<Rightarrow> CChain \<Rightarrow> addr option \<Rightarrow> int \<Rightarrow> uint256 list \<Rightarrow> chain_error + uint256 list" where
  "GetLocator_loop fuel h vChain None nStep vHave = Inr vHave"
| "GetLocator_loop 0 h vChain (Some p) nStep vHave = Inl OutOfFuel"
| "GetLocator_loop (Suc fuel) h vChain (Some p) nStep vHave =
     bindE (deref BadPointer h p) (\<lambda>b.
     bindE (GetBlockHash b) (\<lambda>x.
       let vHave' = vHave @ [x] in
       if nHeight b = 0 then Inr vHave'
       else
         let n = max (nHeight b - nStep) 0 in
         bindE (Contains h vChain p) (\<lambda>c.
         bindE (if c then Inr (chain_at vChain n) else GetAncestor h p n) (\<lambda>q.
           GetLocator_loop fuel h vChain q (if length vHave' > 10 then nStep * 2 else nStep) vHave'))))"

definition GetLocator :: "index_store \<Rightarrow> CChain \<Rightarrow> addr option \<Rightarrow> chain_error + uint256 list" where
  "GetLocator h vChain pindex =
     (let p = (if pindex = None then chain_Tip vChain else pindex);
          fuel = (case p of None \<Rightarrow> 0 | Some a \<Rightarrow> (case h a of None \<Rightarrow> 1 | Some b \<Rightarrow> nat (nHeight b) + 1))
      in GetLocator_loop fuel h vChain p 1 [])"

definition FindEarliestAtLeast :: "index_store \<Rightarrow> CChain \<Rightarrow> int \<Rightarrow> chain_error + addr option" where
  "FindEarliestAtLeast h vChain t =
     bindE (lower_bound (\<lambda>i. case vChain ! i of None \<Rightarrow> Inl BadPointer
        | Some p \<Rightarrow> bindE (deref BadPointer h p) (\<lambda>b. Inr (GetBlockTimeMax b < t))) 0 (length vChain))
       (\<lambda>k. Inr (if k = length vChain then None else vChain ! k))"

text \<open>\<open>FindForkInGlobalIndex\<close> of \<^verbatim>\<open>validation.cpp\<close>.\<close>

fun FindForkInGlobalIndex ::
    "(uint256 \<rightharpoonup> addr) \<Rightarrow> index_store \<Rightarrow> CChain \<Rightarrow> uint256 list \<Rightarrow> chain_error + addr option" where
  "FindForkInGlobalIndex m h vChain [] = Inr (chain_Genesis vChain)"
| "FindForkInGlobalIndex m h vChain (x # xs) =
     (case m x of None \<Rightarrow> FindForkInGlobalIndex m h vChain xs
      | Some p \<Rightarrow> bindE (Contains h vChain p) (\<lambda>c.
          if c then Inr (Some p) else FindForkInGlobalIndex m h vChain xs))"

text \<open>The times of the block and of at most \<open>n - 1\<close> predecessors, as \<open>GetMedianTimePast\<close> stores
  them from the end of its array.\<close>

fun median_times :: "nat \<Rightarrow> index_store \<Rightarrow> addr option \<Rightarrow> int list \<Rightarrow> chain_error + int list" where
  "median_times 0 h pindex acc = Inr acc"
| "median_times (Suc n) h None acc = Inr acc"
| "median_times (Suc n) h (Some p) acc =
     bindE (deref BadPointer h p) (\<lambda>b. median_times n h (pprev b) (GetBlockTime b # acc))"

definition nMedianTimeSpan :: nat where "nMedianTimeSpan = 11"

definition GetMedianTimePast :: "index_store \<Rightarrow> addr \<Rightarrow> chain_error + int" where
  "GetMedianTimePast h p =
     bindE (median_times nMedianTimeSpan h (Some p) []) (\<lambda>ts. Inr (sort ts ! (length ts div 2)))"

text \<open>\<open>CBlockIndexWorkComparator\<close>.\<close>

definition work_less :: "index_store \<Rightarrow> addr \<Rightarrow> addr \<Rightarrow> chain_error + bool" where
  "work_less h pa pb =
     bindE (deref BadPointer h pa) (\<lambda>a. bindE (deref BadPointer h pb) (\<lambda>b.
       Inr (if uint_CompareTo (nChainWork a) (nChainWork b) > 0 then False
            else if uint_CompareTo (nChainWork a) (nChainWork b) < 0 then True
            else if nSequenceId a < nSequenceId b then False
            else if nSequenceId a > nSequenceId b then True
            else if pa < pb then False
            else if pa > pb then True
            else False)))"

subsection \<open>The branch of a tip\<close>

definition branch :: "index_store \<Rightarrow> addr \<Rightarrow> CChain" where
  "branch h p = (case h p of None \<Rightarrow> []
     | Some b \<Rightarrow> map (\<lambda>i. nth_prev h (nat (nHeight b) - i) p) [0..<Suc (nat (nHeight b))])"

definition chain_wf :: "index_store \<Rightarrow> CChain \<Rightarrow> bool" where
  "chain_wf h vChain \<longleftrightarrow> vChain = [] \<or> (\<exists>p. p \<in> dom h \<and> vChain = branch h p)"

lemma length_branch [simp]: "h p = Some b \<Longrightarrow> length (branch h p) = Suc (nat (nHeight b))"
  by (simp add: branch_def)

lemma nth_branch:
  "h p = Some b \<Longrightarrow> i \<le> nat (nHeight b) \<Longrightarrow> branch h p ! i = nth_prev h (nat (nHeight b) - i) p"
  by (simp add: branch_def nth_append del: upt_Suc)

lemma nth_prev_height:
  assumes "wf_index h" "h p = Some b" "nth_prev h n p = Some q" "h q = Some qb"
  shows "nHeight qb = nHeight b - int n \<and> int n \<le> nHeight b"
proof (cases "int n \<le> nHeight b")
  case True
  with nth_prev_Some [OF assms(1,2) this] assms(3,4) show ?thesis by fastforce
next
  case False
  then show ?thesis using nth_prev_None [OF assms(1,2)] assms(3) by simp
qed

text \<open>In a branch an entry sits at its height, above its ancestors.\<close>

lemma branch_mem:
  assumes "wf_index h" "h t = Some tb" "j \<le> nat (nHeight tb)" "branch h t ! j = Some q" "h q = Some qb"
  shows "nHeight qb = int j"
    and "\<And>i. i \<le> j \<Longrightarrow> branch h t ! i = nth_prev h (j - i) q"
proof -
  have tb: "0 \<le> nHeight tb" using wf_index_height [OF assms(1,2)] .
  have q: "nth_prev h (nat (nHeight tb) - j) t = Some q"
    using assms(2-4) nth_branch [of h t tb j] by simp
  show "nHeight qb = int j"
    using nth_prev_height [OF assms(1,2) q assms(5)] assms(3) tb by linarith
  show "branch h t ! i = nth_prev h (j - i) q" if "i \<le> j" for i
    using nth_prev_trans [OF q, of "j - i"] nth_branch [of h t tb i] assms(2,3) that by simp
qed

lemma branch_Some:
  assumes "wf_index h" "h t = Some tb" "j \<le> nat (nHeight tb)"
  obtains q qb where "branch h t ! j = Some q" "h q = Some qb" "nHeight qb = int j"
proof -
  have "int (nat (nHeight tb) - j) \<le> nHeight tb" using wf_index_height [OF assms(1,2)] by linarith
  from nth_prev_Some [OF assms(1,2) this] obtain q qb where
      "nth_prev h (nat (nHeight tb) - j) t = Some q" "h q = Some qb" by blast
  with that branch_mem(1) [OF assms] nth_branch [of h t tb j] assms(2,3) show thesis by metis
qed

lemma SetTip_loop_branch:
  assumes "wf_index h" "h q = Some qb" "nHeight qb = int k" "k < length vc" "k < fuel"
    and "\<And>i j. i \<le> k \<Longrightarrow> j \<le> i \<Longrightarrow> vc ! i = nth_prev h (k - i) q \<Longrightarrow> vc ! j = nth_prev h (k - j) q"
  shows "\<exists>vc'. SetTip_loop fuel h vc (Some q) = Inr vc' \<and> length vc' = length vc \<and>
     (\<forall>j \<le> k. vc' ! j = nth_prev h (k - j) q) \<and> (\<forall>j > k. vc' ! j = vc ! j)"
  using assms
proof (induction k arbitrary: q qb vc fuel)
  case 0
  then obtain f where f: "fuel = Suc f" by (cases fuel) auto
  have "pprev qb = None" using wf_index_pprev_iff [OF "0.prems"(1,2)] "0.prems"(3) by simp
  then show ?case using "0.prems" f by (auto simp: nth_list_update)
next
  case (Suc k)
  then obtain f where f: "fuel = Suc f" "k < f" by (cases fuel) auto
  have q0: "nth_prev h 0 q = Some q" using Suc.prems(2) by simp
  show ?case
  proof (cases "vc ! Suc k = Some q")
    case True
    then have "vc ! j = nth_prev h (Suc k - j) q" if "j \<le> Suc k" for j
      using Suc.prems(6) [of "Suc k" j] that q0 by simp
    then show ?thesis using Suc.prems f True by simp
  next
    case False
    obtain r where r: "pprev qb = Some r"
      using wf_index_pprev_iff [OF Suc.prems(1,2)] Suc.prems(3) by fastforce
    then obtain rb where rb: "h r = Some rb" "nHeight qb = nHeight rb + 1"
      using Suc.prems wf_index_prev by metis
    have step: "nth_prev h (Suc k - j) q = nth_prev h (k - j) r" if "j \<le> k" for j
      using that Suc.prems(2) r by (simp add: Suc_diff_le)
    let ?vc = "vc[Suc k := Some q]"
    have "\<exists>vc'. SetTip_loop f h ?vc (Some r) = Inr vc' \<and> length vc' = length ?vc \<and>
       (\<forall>j \<le> k. vc' ! j = nth_prev h (k - j) r) \<and> (\<forall>j > k. vc' ! j = ?vc ! j)"
    proof (rule Suc.IH [OF Suc.prems(1) rb(1)])
      show "?vc ! j = nth_prev h (k - j) r" if "i \<le> k" "j \<le> i" "?vc ! i = nth_prev h (k - i) r" for i j
        using that Suc.prems(6) [of i j] step by simp
    qed (use Suc.prems rb f in simp_all)
    then obtain vc' where vc': "SetTip_loop f h ?vc (Some r) = Inr vc'" "length vc' = length vc"
       "\<forall>j \<le> k. vc' ! j = nth_prev h (k - j) r" "\<forall>j > k. vc' ! j = ?vc ! j" by auto
    have "nth_prev h (Suc k - j) q = vc' ! j" if "j \<le> Suc k" for j
      using that vc'(3,4) step Suc.prems(4) q0 by (cases "j = Suc k") auto
    moreover have "nat (nHeight qb) = Suc k" using Suc.prems(3) by simp
    ultimately show ?thesis
      using vc'(1,2,4) Suc.prems(2-4) f False r by (intro exI [of _ vc']) simp
  qed
qed

lemma chain_wf_cases:
  assumes "chain_wf h vc"
  obtains "vc = []" | t tb where "h t = Some tb" "vc = branch h t" "length vc = Suc (nat (nHeight tb))"
  using assms unfolding chain_wf_def by fastforce

lemma SetTip_branch:
  assumes wf: "wf_index h" and ch: "chain_wf h vc" and p: "h p = Some b"
  shows "SetTip h vc (Some p) = Inr (branch h p)"
proof -
  define k where "k = nat (nHeight b)"
  have nH: "nHeight b = int k" using wf_index_height [OF wf p] by (simp add: k_def)
  let ?vc = "vector_resize (Suc k) None vc"
  have len: "length ?vc = Suc k" by (simp add: vector_resize_def)
  have "?vc ! j = nth_prev h (k - j) p"
    if i: "i \<le> k" and j: "j \<le> i" and e: "?vc ! i = nth_prev h (k - i) p" for i j
  proof -
    have "int (k - i) \<le> nHeight b" using nH by simp
    then obtain q qb where q: "nth_prev h (k - i) p = Some q" "h q = Some qb"
      using nth_prev_Some [OF wf p] by metis
    then have lt: "i < length vc" "vc ! i = Some q"
      using e i by (auto simp: vector_resize_def nth_append split: if_splits)
    from ch lt obtain t tb where t: "h t = Some tb" "vc = branch h t" "i \<le> nat (nHeight tb)"
      by (cases rule: chain_wf_cases) auto
    have "vc ! j = nth_prev h (i - j) q"
      using branch_mem(2) [OF wf t(1,3) _ q(2) j] lt t(2) by simp
    also have "\<dots> = nth_prev h (k - j) p" using nth_prev_trans [OF q(1), of "i - j"] i j by simp
    finally show ?thesis using j i lt by (simp add: vector_resize_def nth_append)
  qed
  then have "\<exists>vc'. SetTip_loop (Suc k) h ?vc (Some p) = Inr vc' \<and> length vc' = length ?vc \<and>
     (\<forall>j \<le> k. vc' ! j = nth_prev h (k - j) p) \<and> (\<forall>j > k. vc' ! j = ?vc ! j)"
    by (intro SetTip_loop_branch [OF wf p nH]) (simp_all add: len)
  then obtain vc' where
    vc': "SetTip_loop (Suc k) h ?vc (Some p) = Inr vc'" "length vc' = Suc k"
      "\<forall>j \<le> k. vc' ! j = nth_prev h (k - j) p" unfolding len by blast
  have "vc' = branch h p"
    using vc'(2,3) length_branch [of h p b] nth_branch [of h p b] p
    by (intro nth_equalityI) (simp_all add: k_def less_Suc_eq_le)
  moreover have "nat (nHeight b) = k" "nat (nHeight b + 1) = Suc k" using nH by simp_all
  ultimately show ?thesis using vc'(1) p nH unfolding SetTip_def by simp
qed

lemma Contains_iff:
  assumes wf: "wf_index h" and ch: "chain_wf h vc" and p: "h p = Some b"
  shows "Contains h vc p = Inr (Some p \<in> set vc)"
proof -
  have "chain_at vc (nHeight b) = Some p \<longleftrightarrow> Some p \<in> set vc"
    using ch
  proof (cases rule: chain_wf_cases)
    case (2 t tb)
    show ?thesis
    proof
      show "chain_at vc (nHeight b) = Some p \<Longrightarrow> Some p \<in> set vc"
        by (simp add: chain_at_def split: if_splits) (metis nat_less_iff not_le nth_mem)
      assume "Some p \<in> set vc"
      then obtain j where "j < length vc" "vc ! j = Some p" by (auto simp: in_set_conv_nth)
      then show "chain_at vc (nHeight b) = Some p"
        using branch_mem(1) [OF wf 2(1), of j p b] 2 p wf_index_height [OF wf 2(1)]
        by (auto simp: chain_at_def)
    qed
  qed (auto simp: chain_at_def)
  then show ?thesis using p by (simp add: Contains_def)
qed

text \<open>An entry of a chain brings all its ancestors.\<close>

lemma chain_wf_ancestor:
  assumes wf: "wf_index h" and ch: "chain_wf h vc" and mem: "Some p \<in> set vc" and n: "nth_prev h n p = Some q"
  shows "Some q \<in> set vc"
  using ch
proof (cases rule: chain_wf_cases)
  case (2 t tb)
  from mem obtain j where j: "j < length vc" "vc ! j = Some p" by (auto simp: in_set_conv_nth)
  obtain pb where pb: "h p = Some pb" using n by (cases n) (auto split: option.splits)
  obtain qb where qb: "h q = Some qb" using nth_prev_Some_heap [OF n] by blast
  note m = branch_mem [OF wf 2(1), of j p pb]
  have hp: "nHeight pb = int j" using m(1) j 2 pb by simp
  have "n \<le> j" using nth_prev_height [OF wf pb n qb] hp by simp
  then have "vc ! (j - n) = Some q" using m(2) [of "j - n"] j 2 pb n by simp
  then show ?thesis using j(1) by (metis less_imp_diff_less nth_mem)
qed (use mem in simp)

lemma chain_wf_entry:
  assumes "wf_index h" "chain_wf h vc" "Some p \<in> set vc"
  obtains b where "h p = Some b" "nHeight b \<le> chain_Height vc" "chain_at vc (nHeight b) = Some p"
  using assms(2)
proof (cases rule: chain_wf_cases)
  case (2 t tb)
  from assms(3) obtain j where j: "j < length vc" "vc ! j = Some p" by (auto simp: in_set_conv_nth)
  then obtain b where "h p = Some b" "nHeight b = int j"
    using branch_Some [OF assms(1) 2(1), of j] 2 by (metis less_Suc_eq_le option.inject)
  with j that show thesis by (simp add: chain_Height_def chain_at_def)
qed (use assms(3) in simp)

text \<open>\<open>FindFork\<close> returns the highest ancestor of the entry that is on the chain.\<close>

definition is_fork :: "index_store \<Rightarrow> CChain \<Rightarrow> addr \<Rightarrow> addr option \<Rightarrow> bool" where
  "is_fork h vc p r \<longleftrightarrow>
     (case r of None \<Rightarrow> (\<forall>n q. nth_prev h n p = Some q \<longrightarrow> Some q \<notin> set vc)
      | Some q \<Rightarrow> Some q \<in> set vc \<and> (\<exists>n. nth_prev h n p = Some q \<and>
          (\<forall>m q'. nth_prev h m p = Some q' \<longrightarrow> Some q' \<in> set vc \<longrightarrow> n \<le> m)))"

lemma is_fork_step:
  assumes "h p = Some b" "pprev b = Some q" "Some p \<notin> set vc" "is_fork h vc q r"
  shows "is_fork h vc p r"
proof (cases r)
  case None
  show ?thesis
    unfolding is_fork_def None option.case
  proof (intro allI impI)
    fix n q' assume n: "nth_prev h n p = Some q'"
    show "Some q' \<notin> set vc" using n assms None by (cases n) (auto simp: is_fork_def)
  qed
next
  case (Some f)
  with assms(4) obtain n where n: "Some f \<in> set vc" "nth_prev h n q = Some f"
      "\<forall>m q'. nth_prev h m q = Some q' \<longrightarrow> Some q' \<in> set vc \<longrightarrow> n \<le> m" by (auto simp: is_fork_def)
  have "Suc n \<le> m" if "nth_prev h m p = Some q'" "Some q' \<in> set vc" for m q'
    using that n(3) assms by (cases m) auto
  then show ?thesis
    unfolding is_fork_def Some option.case using n(1,2) assms by (intro conjI exI [of _ "Suc n"]) auto
qed

lemma is_fork_here: "h p = Some b \<Longrightarrow> Some p \<in> set vc \<Longrightarrow> is_fork h vc p (Some p)"
  by (auto simp: is_fork_def intro!: exI [of _ 0])

lemma is_fork_root:
  assumes "h p = Some b" "pprev b = None" "Some p \<notin> set vc"
  shows "is_fork h vc p None"
  unfolding is_fork_def option.case
proof (intro allI impI)
  fix n q assume "nth_prev h n p = Some q"
  then show "Some q \<notin> set vc" using assms by (cases n) auto
qed

lemma FindFork_loop_fork:
  assumes "wf_index h" "chain_wf h vc" "h p = Some b" "nat (nHeight b) < fuel"
  shows "\<exists>r. FindFork_loop fuel h vc (Some p) = Inr r \<and> is_fork h vc p r"
  using assms(3,4)
proof (induction fuel arbitrary: p b)
  case (Suc fuel)
  note C = Contains_iff [OF assms(1,2) Suc.prems(1)]
  show ?case
  proof (cases "Some p \<in> set vc")
    case True
    then show ?thesis using C is_fork_here [of h p b] Suc.prems by simp
  next
    case False
    show ?thesis
    proof (cases "pprev b")
      case None
      then show ?thesis using False C is_fork_root [of h p b] Suc.prems by simp
    next
      case (Some q)
      then obtain qb where qb: "h q = Some qb" "nHeight b = nHeight qb + 1"
        using assms(1) Suc.prems(1) wf_index_prev by metis
      have "nat (nHeight qb) < fuel" using qb Suc.prems wf_index_height [OF assms(1) qb(1)] by simp
      then show ?thesis
        using Suc.IH [OF qb(1)] False C Suc.prems(1) Some is_fork_step [of h p b q vc] by auto
    qed
  qed
qed simp

text \<open>Nothing above the height of the chain can be the fork.\<close>

lemma is_fork_above:
  assumes wf: "wf_index h" and ch: "chain_wf h vc" and p: "h p = Some b"
    and n: "nth_prev h n p = Some q" and le: "int n \<le> nHeight b - chain_Height vc" and f: "is_fork h vc q r"
  shows "is_fork h vc p r"
proof -
  have above: "n \<le> m" if m: "nth_prev h m p = Some q'" "Some q' \<in> set vc" for m q'
  proof -
    obtain qb where "h q' = Some qb" "nHeight qb \<le> chain_Height vc"
      using chain_wf_entry [OF wf ch m(2)] by blast
    then show ?thesis using nth_prev_height [OF wf p m(1)] le by simp
  qed
  have sub: "nth_prev h (m - n) q = Some q'" if "nth_prev h m p = Some q'" "n \<le> m" for m q'
    using nth_prev_trans [OF n, of "m - n"] that by simp
  show ?thesis
  proof (cases r)
    case None
    then show ?thesis using f above sub by (simp add: is_fork_def) blast
  next
    case (Some g)
    with f obtain k where k: "Some g \<in> set vc" "nth_prev h k q = Some g"
        "\<forall>m q'. nth_prev h m q = Some q' \<longrightarrow> Some q' \<in> set vc \<longrightarrow> k \<le> m" by (auto simp: is_fork_def)
    have "n + k \<le> m" if m: "nth_prev h m p = Some q'" "Some q' \<in> set vc" for m q'
    proof -
      have "k \<le> m - n" using k(3) sub [OF m(1) above [OF m]] m(2) by blast
      then show ?thesis using above [OF m] by simp
    qed
    then show ?thesis
      unfolding is_fork_def Some option.case
      using k(1,2) nth_prev_trans [OF n, of k] by (intro conjI exI [of _ "n + k"]) auto
  qed
qed

lemma FindFork_fork:
  assumes wf: "wf_index h" and ch: "chain_wf h vc" and p: "h p = Some b"
  shows "\<exists>r. FindFork h vc (Some p) = Inr r \<and> is_fork h vc p r"
proof (cases "nHeight b > chain_Height vc")
  case False
  then show ?thesis
    using FindFork_loop_fork [OF wf ch p, of "nat (nHeight b) + 1"] p by (simp add: FindFork_def)
next
  case True
  show ?thesis
  proof (cases "vc = []")
    case True
    then show ?thesis
      using \<open>nHeight b > chain_Height vc\<close> p GetAncestor_nth_prev [OF wf p, of "- 1"]
      by (simp add: FindFork_def chain_Height_def is_fork_def)
  next
    case False
    then have H: "0 \<le> chain_Height vc" by (cases vc) (simp_all add: chain_Height_def)
    define n where "n = nat (nHeight b - chain_Height vc)"
    have "int n \<le> nHeight b" using H True by (simp add: n_def)
    then obtain q qb where q: "nth_prev h n p = Some q" "h q = Some qb" "nHeight qb = nHeight b - int n"
      using nth_prev_Some [OF wf p] by metis
    have anc: "GetAncestor h p (chain_Height vc) = Inr (Some q)"
      using GetAncestor_nth_prev [OF wf p, of "chain_Height vc"] True H q(1) by (simp add: n_def)
    have "nat (nHeight qb) < nat (nHeight b) + 1" using q(3) by linarith
    from FindFork_loop_fork [OF wf ch q(2) this] obtain r where
      "FindFork_loop (nat (nHeight b) + 1) h vc (Some q) = Inr r" "is_fork h vc q r" by blast
    then show ?thesis
      using is_fork_above [OF wf ch p q(1)] anc p True by (simp add: FindFork_def n_def)
  qed
qed

subsection \<open>Locators\<close>

definition hash_of :: "index_store \<Rightarrow> addr \<Rightarrow> uint256" where
  "hash_of h p = the (phashBlock (the (h p)))"

text \<open>The heights a locator visits from height \<open>n\<close>, when \<open>cnt\<close> hashes are already in it.\<close>

function locator_heights :: "nat \<Rightarrow> nat \<Rightarrow> nat \<Rightarrow> nat list" where
  "locator_heights step cnt n =
     (if n = 0 \<or> step = 0 then [n]
      else n # locator_heights (if cnt + 1 > 10 then step * 2 else step) (cnt + 1) (n - step))"
  by pat_completeness auto
termination
  by (relation "measure (\<lambda>(step, cnt, n). n)") auto

declare locator_heights.simps [simp del]

lemma locator_heights_le: "i \<in> set (locator_heights step cnt n) \<Longrightarrow> i \<le> n"
proof (induction step cnt n rule: locator_heights.induct)
  case (1 step cnt n)
  then show ?case by (subst (asm) (2) locator_heights.simps) (fastforce split: if_splits)
qed

lemma locator_heights_ends:
  assumes "0 < step"
  shows "hd (locator_heights step cnt n) = n" "last (locator_heights step cnt n) = 0"
    "locator_heights step cnt n \<noteq> []"
proof -
  show ne: "locator_heights step cnt n \<noteq> []" for step cnt n
    by (subst locator_heights.simps) simp
  show "hd (locator_heights step cnt n) = n" by (subst locator_heights.simps) simp
  show "last (locator_heights step cnt n) = 0"
    using assms
  proof (induction step cnt n rule: locator_heights.induct)
    case (1 step cnt n)
    then show ?case using ne by (subst locator_heights.simps) auto
  qed
qed

lemma length_locator_doubling:
  assumes "10 \<le> cnt" "0 < step" "n < step * 2 ^ k"
  shows "length (locator_heights step cnt n) \<le> k + 2"
  using assms
proof (induction k arbitrary: step cnt n)
  case 0
  then show ?case by (simp add: locator_heights.simps [of step] locator_heights.simps [of _ _ 0])
next
  case (Suc k)
  have "length (locator_heights (step * 2) (cnt + 1) (n - step)) \<le> k + 2"
    using Suc.prems by (intro Suc.IH) auto
  then show ?case using Suc.prems by (subst locator_heights.simps) auto
qed

lemma length_locator_heights:
  assumes "n < 2 ^ k"
  shows "length (locator_heights 1 0 n) \<le> k + 12"
proof -
  have "length (locator_heights 1 cnt n) \<le> k + 2 + (10 - cnt)" if "cnt \<le> 10" "n < 2 ^ k" for cnt n
    using that
  proof (induction "10 - cnt" arbitrary: cnt n)
    case 0
    then show ?case using length_locator_doubling [of cnt 1 n k] by simp
  next
    case (Suc d)
    have "length (locator_heights 1 (cnt + 1) (n - 1)) \<le> k + 2 + (10 - (cnt + 1))"
      using Suc.hyps(2) Suc.prems by (intro Suc.hyps(1)) auto
    then show ?case using Suc.hyps(2) Suc.prems by (subst locator_heights.simps) auto
  qed
  from this [of 0 n] assms show ?thesis by simp
qed

lemma locator_jump:
  assumes wf: "wf_index h" and ch: "chain_wf h vc" and p: "h p = Some b" and m: "m \<le> nat (nHeight b)"
  shows "bindE (Contains h vc p) (\<lambda>c. bindE (if c then Inr (chain_at vc (int m)) else GetAncestor h p (int m)) F)
       = F (nth_prev h (nat (nHeight b) - m) p)"
proof (cases "Some p \<in> set vc")
  case True
  from ch show ?thesis
  proof (cases rule: chain_wf_cases)
    case (2 t tb)
    obtain j where j: "j < length vc" "vc ! j = Some p" using True by (auto simp: in_set_conv_nth)
    note br = branch_mem [OF wf 2(1), of j p b]
    have hj: "nHeight b = int j" using br(1) j 2 p by simp
    have "chain_at vc (int m) = nth_prev h (nat (nHeight b) - m) p"
      using br(2) [of m] j 2 p m hj wf_index_height [OF wf 2(1)] by (auto simp: chain_at_def)
    then show ?thesis using Contains_iff [OF wf ch p] True by simp
  qed (use True in simp)
next
  case False
  have "nat (nHeight b - int m) = nat (nHeight b) - m" using m by linarith
  then show ?thesis
    using False Contains_iff [OF wf ch p] GetAncestor_nth_prev [OF wf p, of "int m"] m wf_index_height [OF wf p]
    by (auto simp: le_nat_iff)
qed

lemma wf_index_hash:
  assumes "wf_index h" "h p = Some b"
  shows "GetBlockHash b = Inr (hash_of h p)"
  using wf_indexD [OF assms] assms(2) by (auto simp: GetBlockHash_def hash_of_def wf_entry_def)

lemma GetLocator_loop_heights:
  assumes wf: "wf_index h" and ch: "chain_wf h vc"
    and "h p = Some b" "nHeight b = int n" "n < fuel" "0 < step"
  shows "GetLocator_loop fuel h vc (Some p) (int step) vHave = Inr (vHave @
     map (\<lambda>i. hash_of h (the (nth_prev h (n - i) p))) (locator_heights step (length vHave) n))"
  using assms(3-6)
proof (induction fuel arbitrary: p b n step vHave)
  case (Suc fuel)
  note hash = wf_index_hash [OF wf Suc.prems(1)]
  let ?v = "vHave @ [hash_of h p]"
  show ?case
  proof (cases "n = 0")
    case True
    then show ?thesis using Suc.prems(1,2) hash by (simp add: locator_heights.simps)
  next
    case False
    let ?step = "if length ?v > 10 then step * 2 else step"
    have m: "max (int n - int step) 0 = int (n - step)" by simp
    have "int (n - (n - step)) \<le> nHeight b" using Suc.prems(2) by simp
    then obtain q qb where q: "nth_prev h (n - (n - step)) p = Some q" "h q = Some qb"
        "nHeight qb = int (n - step)"
      using nth_prev_Some [OF wf Suc.prems(1), of "n - (n - step)"] Suc.prems(2) by auto
    have IH: "GetLocator_loop fuel h vc (Some q) (int ?step) ?v = Inr (?v @
       map (\<lambda>i. hash_of h (the (nth_prev h (n - step - i) q))) (locator_heights ?step (length ?v) (n - step)))"
      using Suc.prems False q(2,3) by (intro Suc.IH) auto
    have "nth_prev h (n - step - i) q = nth_prev h (n - i) p"
      if "i \<in> set (locator_heights ?step (length ?v) (n - step))" for i
    proof -
      have "n - (n - step) + (n - step - i) = n - i" using locator_heights_le [OF that] by arith
      then show ?thesis using nth_prev_trans [OF q(1), of "n - step - i"] by metis
    qed
    then have eq: "map (\<lambda>i. hash_of h (the (nth_prev h (n - step - i) q))) (locator_heights ?step (length ?v) (n - step))
        = map (\<lambda>i. hash_of h (the (nth_prev h (n - i) p))) (locator_heights ?step (length ?v) (n - step))"
      by simp
    have "GetLocator_loop (Suc fuel) h vc (Some p) (int step) vHave
        = GetLocator_loop fuel h vc (Some q) (int ?step) ?v"
    proof -
      have "GetLocator_loop (Suc fuel) h vc (Some p) (int step) vHave
          = bindE (Contains h vc p) (\<lambda>c. bindE (if c then Inr (chain_at vc (int (n - step)))
              else GetAncestor h p (int (n - step))) (\<lambda>q. GetLocator_loop fuel h vc q (int ?step) ?v))"
        using Suc.prems(1,2) hash False by (simp add: m Let_def del: GetLocator_loop.simps(1,2))
      also have "\<dots> = GetLocator_loop fuel h vc (nth_prev h (nat (nHeight b) - (n - step)) p) (int ?step) ?v"
        using Suc.prems(2) by (intro locator_jump [OF wf ch Suc.prems(1)]) simp
      finally show ?thesis using q(1) Suc.prems(2) by simp
    qed
    then show ?thesis
      unfolding IH eq using False Suc.prems(1,4) by (subst locator_heights.simps) simp
  qed
qed simp

lemma GetLocator_heights:
  assumes "wf_index h" "chain_wf h vc" "h p = Some b"
  shows "GetLocator h vc (Some p) = Inr (map (\<lambda>i. hash_of h (the (nth_prev h (nat (nHeight b) - i) p)))
     (locator_heights 1 0 (nat (nHeight b))))"
  using GetLocator_loop_heights [OF assms, of "nat (nHeight b)" "nat (nHeight b) + 1" 1 "[]"]
    wf_index_height [OF assms(1,3)] assms(3)
  by (simp add: GetLocator_def Let_def del: GetLocator_loop.simps)

lemma FindForkInGlobalIndex_find:
  assumes wf: "wf_index h" and ch: "chain_wf h vc"
    and "\<And>q. q \<in> set qs \<Longrightarrow> h q \<noteq> None \<and> m (hash_of h q) = Some q"
  shows "FindForkInGlobalIndex m h vc (map (hash_of h) qs)
     = Inr (case find (\<lambda>q. Some q \<in> set vc) qs of None \<Rightarrow> chain_Genesis vc | Some q \<Rightarrow> Some q)"
  using assms(3)
proof (induction qs)
  case (Cons q qs)
  then obtain b where b: "h q = Some b" by fastforce
  show ?case using Cons Contains_iff [OF wf ch b] by simp
qed simp

lemma wf_tree_hash: "wf_tree t \<Longrightarrow> index t q = Some qb \<Longrightarrow> mapBlockIndex t (hash_of (index t) q) = Some q"
  using wf_indexD [of "index t" q qb] by (auto simp: wf_tree_def wf_entry_def hash_of_def)

text \<open>The heights of a locator are dense enough: the first of them on a chain that has all heights up to \<open>f\<close> is either not below
  \<open>f\<close>, or its distance from the top is less than twice that of \<open>f\<close>.\<close>

lemma locator_heights_find:
  assumes "0 < step" "n \<le> N" "cnt < 10 \<and> N - n = cnt \<and> step = 1 \<or> 10 \<le> cnt \<and> (n = 0 \<or> step + 9 \<le> N - n)"
    and "n < f \<Longrightarrow> N - n + 11 \<le> 2 * (N - f)" and P: "\<And>i. i \<le> f \<Longrightarrow> P i" and "f \<le> N"
  shows "\<exists>k. find P (locator_heights step cnt n) = Some k \<and> (f \<le> k \<or> N - k + 11 \<le> 2 * (N - f))"
  using assms(1-4)
proof (induction step cnt n rule: locator_heights.induct)
  case (1 step cnt n)
  show ?case
  proof (cases "P n")
    case True
    moreover have "find P (locator_heights step cnt n) = Some n" using True by (subst locator_heights.simps) simp
    ultimately show ?thesis using "1.prems"(4) by (metis not_le)
  next
    case False
    then have f: "f < n" using P not_le by blast
    then have n: "\<not> (n = 0 \<or> step = 0)" using "1.prems"(1) by simp
    let ?step = "if cnt + 1 > 10 then step * 2 else step"
    have "\<exists>k. find P (locator_heights ?step (cnt + 1) (n - step)) = Some k \<and> (f \<le> k \<or> N - k + 11 \<le> 2 * (N - f))"
    proof (rule "1.IH" [OF n])
      show "cnt + 1 < 10 \<and> N - (n - step) = cnt + 1 \<and> ?step = 1 \<or>
          10 \<le> cnt + 1 \<and> (n - step = 0 \<or> ?step + 9 \<le> N - (n - step))"
        using "1.prems"(2,3) n by (simp split: if_split) linarith
      show "N - (n - step) + 11 \<le> 2 * (N - f)" if "n - step < f"
        using "1.prems"(2,3) n f that by linarith
    qed (use "1.prems"(1,2) in auto)
    then show ?thesis using False n by (subst locator_heights.simps) simp
  qed
qed

lemma find_map: "find P (map g xs) = map_option g (find (P \<circ> g) xs)"
  by (induction xs) auto

text \<open>A peer that shares a block with the branch of an entry finds a common ancestor in its locator.\<close>

lemma FindForkInGlobalIndex_locator:
  assumes wf: "wf_tree t" and ch: "chain_wf (index t) vc" and p: "index t p = Some b"
    and m: "nth_prev (index t) m p = Some c" "Some c \<in> set vc"
  shows "\<exists>vHave q n. GetLocator (index t) vc (Some p) = Inr vHave \<and>
     FindForkInGlobalIndex (mapBlockIndex t) (index t) vc vHave = Inr (Some q) \<and>
     Some q \<in> set vc \<and> nth_prev (index t) n p = Some q \<and> (n \<le> m \<or> n + 11 \<le> 2 * m)"
proof -
  let ?h = "index t" and ?n = "nat (nHeight b)"
  have wfi: "wf_index ?h" using wf by (simp add: wf_tree_def)
  define g where "g i = the (nth_prev ?h (?n - i) p)" for i
  have g: "nth_prev ?h (?n - i) p = Some (g i)" for i
  proof -
    have "int (?n - i) \<le> nHeight b" using wf_index_height [OF wfi p] by linarith
    then show ?thesis by (rule nth_prev_Some [OF wfi p]) (simp add: g_def)
  qed
  have loc: "GetLocator ?h vc (Some p) = Inr (map (hash_of ?h) (map g (locator_heights 1 0 ?n)))"
    using GetLocator_heights [OF wfi ch p] by (simp add: g_def comp_def)
  have known: "?h q \<noteq> None \<and> mapBlockIndex t (hash_of ?h q) = Some q" if "q \<in> set (map g (locator_heights 1 0 ?n))" for q
    using that g nth_prev_Some_heap wf_tree_hash [OF wf] by fastforce
  have mn: "m \<le> ?n" using m(1) nth_prev_None [OF wfi p, of m] by (cases "m \<le> ?n") auto
  have low: "Some (g i) \<in> set vc" if "i \<le> ?n - m" for i
  proof -
    have "nth_prev ?h (?n - m - i) c = Some (g i)"
      using nth_prev_trans [OF m(1), of "?n - m - i"] g [of i] that mn by simp
    then show ?thesis by (rule chain_wf_ancestor [OF wfi ch m(2)])
  qed
  obtain k where k: "find (\<lambda>i. Some (g i) \<in> set vc) (locator_heights 1 0 ?n) = Some k"
    "?n - m \<le> k \<or> ?n - k + 11 \<le> 2 * (?n - (?n - m))"
    using locator_heights_find [of 1 ?n ?n 0 "?n - m" "\<lambda>i. Some (g i) \<in> set vc"] low mn by auto
  have "k \<in> set (locator_heights 1 0 ?n)" "Some (g k) \<in> set vc" using k(1) by (auto simp: find_Some_iff)
  moreover have "FindForkInGlobalIndex (mapBlockIndex t) ?h vc (map (hash_of ?h) (map g (locator_heights 1 0 ?n))) = Inr (Some (g k))"
    by (subst FindForkInGlobalIndex_find [OF wfi ch known]) (use k(1) in \<open>simp_all add: find_map comp_def\<close>)
  ultimately show ?thesis using loc g [of k] k(2) mn
    by (intro exI [of _ "map (hash_of ?h) (map g (locator_heights 1 0 ?n))"] exI [of _ "g k"] exI [of _ "?n - k"]) auto
qed

subsection \<open>Times\<close>

definition time_at :: "index_store \<Rightarrow> addr option \<Rightarrow> int" where
  "time_at h p = GetBlockTime (the (h (the p)))"

definition time_max_at :: "index_store \<Rightarrow> addr option \<Rightarrow> int" where
  "time_max_at h p = GetBlockTimeMax (the (h (the p)))"

lemma time_max_branch:
  assumes wf: "wf_index h" and t: "h t = Some tb" and j: "j \<le> nat (nHeight tb)"
  shows "x \<le> time_max_at h (branch h t ! j) \<longleftrightarrow> (\<exists>i \<le> j. x \<le> time_at h (branch h t ! i))"
  using j
proof (induction j)
  case 0
  then obtain q qb where q: "branch h t ! 0 = Some q" "h q = Some qb" "nHeight qb = 0"
    using branch_Some [OF wf t, of 0] by auto
  then have "nTimeMax qb = nTime qb"
    using wf_indexD [OF wf q(2)] wf_index_pprev_iff [OF wf q(2)] by (simp add: wf_entry_def)
  then show ?case using q by (simp add: time_max_at_def time_at_def GetBlockTime_def GetBlockTimeMax_def)
next
  case (Suc j)
  then obtain q qb where q: "branch h t ! Suc j = Some q" "h q = Some qb" "nHeight qb = int (Suc j)"
    using branch_Some [OF wf t, of "Suc j"] by auto
  then obtain r where r: "pprev qb = Some r" using wf_index_pprev_iff [OF wf q(2)] by fastforce
  then obtain rb where rb: "h r = Some rb" "wf_child h q rb qb" using wf_index_prev [OF wf q(2)] by metis
  have "branch h t ! j = Some r"
    using branch_mem(2) [OF wf t _ q(1,2), of j] Suc.prems q(2) r rb by simp
  moreover have "time_max_at h (Some q) = max (time_max_at h (Some r)) (time_at h (Some q))"
    using q(2) rb
    by (simp add: time_max_at_def time_at_def GetBlockTime_def GetBlockTimeMax_def wf_child_def max_def word_le_def)
  ultimately show ?case
    using Suc q(1) by (auto simp: le_max_iff_disj le_Suc_eq)
qed

lemma FindEarliestAtLeast_first:
  assumes wf: "wf_index h" and ch: "chain_wf h vc"
  shows "\<exists>k. FindEarliestAtLeast h vc x = Inr (if k = length vc then None else vc ! k) \<and> k \<le> length vc \<and>
     (\<forall>i < k. time_at h (vc ! i) < x) \<and> (k < length vc \<longrightarrow> x \<le> time_at h (vc ! k))"
  using ch
proof (cases rule: chain_wf_cases)
  case 1
  then show ?thesis by (simp add: FindEarliestAtLeast_def lower_bound.simps)
next
  case (2 t tb)
  let ?pred = "\<lambda>i. case vc ! i of None \<Rightarrow> Inl BadPointer
        | Some p \<Rightarrow> bindE (deref BadPointer h p) (\<lambda>b. Inr (GetBlockTimeMax b < x))"
  let ?P = "\<lambda>i. time_max_at h (vc ! i) < x"
  have mono: "x \<le> time_max_at h (vc ! j) \<longleftrightarrow> (\<exists>i \<le> j. x \<le> time_at h (vc ! i))" if "j < length vc" for j
    using time_max_branch [OF wf 2(1), of j x] that 2 by simp
  have total: "?pred i = Inr (?P i)" if i: "i < length vc" for i
  proof -
    have "i \<le> nat (nHeight tb)" using i 2 by simp
    then obtain q qb where "vc ! i = Some q" "h q = Some qb"
      using 2(2) branch_Some [OF wf 2(1), of i] by metis
    then show ?thesis by (simp add: time_max_at_def)
  qed
  have down: "?P i" if "i \<le> j" "j < length vc" "?P j" for i j
    using that mono [of i] mono [of j] by (meson le_trans not_le)
  have "\<exists>k. lower_bound ?pred 0 (length vc) = Inr k \<and> 0 \<le> k \<and> k \<le> 0 + length vc \<and>
      (\<forall>i. 0 \<le> i \<longrightarrow> i < k \<longrightarrow> ?P i) \<and> (\<forall>i. k \<le> i \<longrightarrow> i < 0 + length vc \<longrightarrow> \<not> ?P i)"
    by (rule lower_bound_least) (simp_all add: total, metis down add_0)
  then obtain k where k: "lower_bound ?pred 0 (length vc) = Inr k" "k \<le> length vc"
      "\<forall>i < k. ?P i" "\<forall>i. k \<le> i \<longrightarrow> i < length vc \<longrightarrow> \<not> ?P i"
    unfolding add_0 by blast
  have lt: "time_at h (vc ! i) < x" if "i < k" for i
    using that k(2,3) mono [of i] by (meson less_le_trans not_le order_refl)
  moreover have "x \<le> time_at h (vc ! k)" if kl: "k < length vc"
  proof -
    obtain i where "i \<le> k" "x \<le> time_at h (vc ! i)" using k(4) kl mono [OF kl] by auto
    then show ?thesis using lt [of i] by (cases "i = k") auto
  qed
  ultimately show ?thesis using k(1,2) unfolding FindEarliestAtLeast_def by (intro exI [of _ k]) simp
qed

definition past_times :: "index_store \<Rightarrow> addr \<Rightarrow> int list" where
  "past_times h p = map (\<lambda>i. time_at h (nth_prev h i p))
     [0..<min nMedianTimeSpan (nat (nHeight (the (h p))) + 1)]"

lemma median_times_val:
  assumes wf: "wf_index h" and p: "h p = Some b"
  shows "median_times n h (Some p) acc
     = Inr (rev (map (\<lambda>i. time_at h (nth_prev h i p)) [0..<min n (nat (nHeight b) + 1)]) @ acc)"
  using p
proof (induction n arbitrary: p b acc)
  case (Suc n)
  have t0: "time_at h (nth_prev h 0 p) = GetBlockTime b" using Suc.prems by (simp add: time_at_def)
  show ?case
  proof (cases "pprev b")
    case None
    then have "nHeight b = 0" using wf_index_pprev_iff [OF wf Suc.prems] by simp
    then show ?thesis using None Suc.prems t0 by (cases n) simp_all
  next
    case (Some q)
    then obtain qb where qb: "h q = Some qb" "nHeight b = nHeight qb + 1"
      using wf Suc.prems wf_index_prev by metis
    have s: "nth_prev h (Suc i) p = nth_prev h i q" for i using Suc.prems Some by simp
    have "min (Suc n) (nat (nHeight b) + 1) = Suc (min n (nat (nHeight qb) + 1))"
      using qb wf_index_height [OF wf qb(1)] by (simp add: nat_add_distrib)
    then show ?thesis
      using Suc.IH [OF qb(1)] Suc.prems Some t0
      by (simp add: upt_conv_Cons map_Suc_upt [symmetric] s del: upt_Suc nth_prev.simps)
  qed
qed simp

lemma GetMedianTimePast_val:
  assumes "wf_index h" "h p = Some b"
  shows "GetMedianTimePast h p = Inr (sort (past_times h p) ! (length (past_times h p) div 2))"
proof -
  have "sort (rev (past_times h p)) = sort (past_times h p)"
    by (intro properties_for_sort) simp_all
  then show ?thesis
    using median_times_val [OF assms, of nMedianTimeSpan "[]"] assms(2)
    by (simp add: GetMedianTimePast_def past_times_def)
qed

subsection \<open>Order statistics and the work comparator\<close>

lemma sort_nth_median:
  fixes ts :: "int list"
  assumes "k < length ts"
  shows "sort ts ! k \<in> set ts" "length (filter (\<lambda>x. x < sort ts ! k) ts) \<le> k"
    "length (filter (\<lambda>x. sort ts ! k < x) ts) \<le> length ts - Suc k"
proof -
  let ?s = "sort ts"
  have len: "k < length ?s" using assms by simp
  show "?s ! k \<in> set ts" using nth_mem [OF len] by simp
  have count: "length (filter P ts) = card {i. i < length ?s \<and> P (?s ! i)}" for P
  proof -
    have "length (filter P ts) = length (filter P ?s)"
      by (metis filter_sort length_sort)
    then show ?thesis by (simp add: length_filter_conv_card)
  qed
  have "{i. i < length ?s \<and> ?s ! i < ?s ! k} \<subseteq> {..<k}"
    using sorted_nth_mono [OF sorted_sort [of ts]] by (auto simp: not_less [symmetric])
  from card_mono [OF _ this] show "length (filter (\<lambda>x. x < ?s ! k) ts) \<le> k" by (simp add: count)
  have "{i. i < length ?s \<and> ?s ! k < ?s ! i} \<subseteq> {Suc k..<length ?s}"
  proof
    fix i assume "i \<in> {i. i < length ?s \<and> ?s ! k < ?s ! i}"
    then show "i \<in> {Suc k..<length ?s}"
      using sorted_nth_mono [OF sorted_sort [of ts], of i k] assms by (cases "i \<le> k") auto
  qed
  from card_mono [OF _ this] show "length (filter (\<lambda>x. ?s ! k < x) ts) \<le> length ts - Suc k"
    by (simp add: count)
qed

lemma work_less_iff:
  assumes wf: "wf_index h" and a: "h pa = Some a" and b: "h pb = Some b"
  shows "work_less h pa pb = Inr (limbs_val (nChainWork a) < limbs_val (nChainWork b) \<or>
     limbs_val (nChainWork a) = limbs_val (nChainWork b) \<and>
       (nSequenceId b < nSequenceId a \<or> nSequenceId a = nSequenceId b \<and> pb < pa))"
proof -
  have w: "is_arith256 (nChainWork a)" "is_arith256 (nChainWork b)"
    using wf_indexD [OF wf a] wf_indexD [OF wf b] by (simp_all add: wf_entry_def)
  show ?thesis
    using a b by (auto simp: work_less_def a256.cmp_val [OF w] sgn_if)
qed

lemma GetBlockHeader_entry:
  assumes wo: "wf_tree t" and new: "index t a = None" and e: "entry_of t block x b"
    and prev: "mapBlockIndex t (hdr_hashPrevBlock block) \<noteq> None"
  shows "GetBlockHeader ((index t)(a \<mapsto> b)) b = Inr block"
proof -
  obtain q where q: "mapBlockIndex t (hdr_hashPrevBlock block) = Some q" using prev by auto
  then obtain qb where "index t q = Some qb" "phashBlock qb = Some (hdr_hashPrevBlock block)"
    using wf_tree_map [OF wo q] by blast
  moreover have "q \<noteq> a" using calculation(1) new by auto
  ultimately show ?thesis
    using e q by (simp add: GetBlockHeader_def entry_of_def GetBlockHash_def)
qed

text \<open>The magnitude that \<open>GetBlockProofEquivalentTime\<close> clamps to 63 bits.\<close>

lemma GetBlockProofEquivalentTime_val:
  fixes to frm tip :: CBlockIndex and spacing :: u64
  assumes w: "is_arith256 (nChainWork to)" "is_arith256 (nChainWork frm)"
    and tip: "block_work (nBits tip) \<noteq> 0"
  defines "wt \<equiv> limbs_val (nChainWork to)" and "wo \<equiv> limbs_val (nChainWork frm)"
  defines "r \<equiv> (nat \<bar>int wt - int wo\<bar> * unat spacing) mod 2 ^ 256 div block_work (nBits tip)"
  shows "GetBlockProofEquivalentTime to frm tip spacing
     = Inr ((if wo < wt then 1 else - 1) * (if r < 2 ^ 63 then int r else 2 ^ 63 - 1))"
proof -
  define d where "d = (if wo < wt then uint_sub (nChainWork to) (nChainWork frm)
      else uint_sub (nChainWork frm) (nChainWork to))"
  have d: "is_arith256 d" "limbs_val d = nat \<bar>int wt - int wo\<bar>"
    using w limbs_val_sub_le [of "nChainWork to" "nChainWork frm"]
      limbs_val_sub_le [of "nChainWork frm" "nChainWork to"]
    by (auto simp: d_def wt_def wo_def a256.wf_sub is_arith256_def nat_diff_distrib')
  obtain p where p: "GetBlockProof tip = Inr p" "is_arith256 p" "limbs_val p = block_work (nBits tip)"
    using GetBlockProof_val by blast
  have m: "is_arith256 (uint_mul d (uint_of_u64 WIDTH spacing))"
    using d(1) by (intro a256.wf_mul a256.wf_of_u64)
  obtain q where q: "uint_div (uint_mul d (uint_of_u64 WIDTH spacing)) p = Inr q" "is_arith256 q" "limbs_val q = r"
    using a256.quot_val [OF m p(2)] tip p(3) d a256.wf_of_u64 [of spacing]
    by (auto simp: a256.val_mul a256.val_of_u64 r_def)
  have gt: "uint_CompareTo (nChainWork to) (nChainWork frm) > 0 \<longleftrightarrow> wo < wt"
    using a256.cmp_gt [OF w] by (simp add: wt_def wo_def)
  have big: "uint_bits q > 63 \<longleftrightarrow> \<not> r < 2 ^ 63"
    using uint_bits_less_iff [of q 63] q(3) by auto
  have low: "sint (word_of_int s * uint_GetLow64 q) = s * int r" if "r < 2 ^ 63" "s = 1 \<or> s = - 1" for s
  proof -
    have "unat (uint_GetLow64 q) = r"
      using limbs_val_GetLow64 [of q] q(2,3) that(1) by (simp add: is_arith256_def WIDTH_def)
    then have "uint_GetLow64 q = word_of_int (int r)" by (metis of_int_of_nat_eq word_of_int_eq_iff unat_eq_nat_uint uint_nat word_of_int_uint)
    then have "sint (word_of_int s * uint_GetLow64 q) = sint (word_of_int (s * int r) :: u64)"
      by simp
    also have "\<dots> = signed_take_bit 63 (s * int r)"
      by (simp only: sint_sbintrunc') simp
    also have "\<dots> = s * int r"
      using that by (intro signed_take_bit_int_eq_self) auto
    finally show ?thesis .
  qed
  show ?thesis
    unfolding GetBlockProofEquivalentTime_def Let_def gt d_def [symmetric] p(1) q(1) sum.case big
    using low [of 1] low [of "- 1"] by (simp add: if_distrib)
qed

subsection \<open>An example index\<close>

text \<open>Four headers with target zero: \<open>0\<close> is the root, \<open>1\<close> and \<open>2\<close> extend it, \<open>3\<close> is a second child
  of the root.\<close>

definition demo_entry :: "nat \<Rightarrow> addr option \<Rightarrow> addr option \<Rightarrow> int \<Rightarrow> u32 \<Rightarrow> u32 \<Rightarrow> CBlockIndex" where
  "demo_entry i prev skip height t tmax = CBlockIndex_SetNull\<lparr>phashBlock := Some (replicate 32 (of_nat i)),
     pprev := prev, pskip := skip, nHeight := height, nTime := t, nTimeMax := tmax\<rparr>"

definition demo_index :: index_store where
  "demo_index = [0 \<mapsto> demo_entry 0 None None 0 10 10, 1 \<mapsto> demo_entry 1 (Some 0) (Some 0) 1 5 10,
     2 \<mapsto> demo_entry 2 (Some 1) (Some 0) 2 20 20, 3 \<mapsto> demo_entry 3 (Some 0) (Some 0) 1 7 10]"

lemma block_work_0: "block_work 0 = 0"
proof -
  have "limbs_val (fst (SetCompact 0)) = 0" using SetCompact_val(2) [of 0] by simp
  then show ?thesis by (auto simp: block_work_def split: prod.splits)
qed

lemma demo_index_wf: "wf_index demo_index"
proof -
  have zero: "is_arith256 (uint_zero WIDTH)" "limbs_val (uint_zero WIDTH) = 0"
    by (simp_all add: is_arith256_def uint_zero_def)
  have skip: "GetSkipHeight (Suc 0) = 0" "GetSkipHeight 2 = 0"
    by (simp_all add: GetSkipHeight_def InvertLowestOne_def)
  have two: "nth_prev h 2 p = nth_prev h (Suc (Suc 0)) p" for h p by (simp only: numeral_2_eq_2)
  show ?thesis
    unfolding wf_index_def
    by (auto simp: demo_index_def demo_entry_def CBlockIndex_SetNull_def wf_entry_def wf_child_def zero skip
        block_work_0 two split: if_splits)
qed

definition empty_tree :: block_tree where
  "empty_tree = \<lparr>index = Map.empty, mapBlockIndex = Map.empty, pindexBestHeader = None,
     setDirtyBlockIndex = {}, mapPrevBlockIndex = []\<rparr>"

lemma empty_tree_wf: "wf_tree empty_tree"
  by (simp add: empty_tree_def wf_tree_def wf_index_def best_header_ok_def)

definition demo_block_tree :: block_tree where
  "demo_block_tree = \<lparr>index = demo_index,
     mapBlockIndex = [replicate 32 0 \<mapsto> 0, replicate 32 1 \<mapsto> 1, replicate 32 2 \<mapsto> 2, replicate 32 3 \<mapsto> 3], pindexBestHeader = Some 2,
     setDirtyBlockIndex = {}, mapPrevBlockIndex = [(replicate 32 0, 1), (replicate 32 1, 2), (replicate 32 0, 3)]\<rparr>"

lemma demo_block_tree_wf: "wf_tree demo_block_tree"
proof -
  have "best_header_ok demo_index (Some 2)"
    by (auto simp: best_header_ok_def demo_index_def demo_entry_def CBlockIndex_SetNull_def split: if_splits)
  moreover have "mapBlockIndex demo_block_tree x = Some p \<longleftrightarrow> (\<exists>b. demo_index p = Some b \<and> phashBlock b = Some x)" for x p
    by (auto simp: demo_block_tree_def demo_index_def demo_entry_def CBlockIndex_SetNull_def split: if_splits)
  moreover have "(x, p) \<in> set (mapPrevBlockIndex demo_block_tree) \<longleftrightarrow>
        (\<exists>b q qb. demo_index p = Some b \<and> pprev b = Some q \<and> demo_index q = Some qb \<and> phashBlock qb = Some x)" for x p
    by (auto simp: demo_block_tree_def demo_index_def demo_entry_def CBlockIndex_SetNull_def split: if_splits)
  ultimately show ?thesis using demo_index_wf unfolding wf_tree_def by (simp add: demo_block_tree_def)
qed

definition demo_header :: "uint256 \<Rightarrow> u32 \<Rightarrow> CBlockHeader" where
  "demo_header prev nonce = \<lparr>hdr_nVersion = 1, hdr_hashPrevBlock = prev, hdr_hashMerkleRoot = uint256_null,
     hdr_nTime = 10, hdr_nBits = 0x207fffff, hdr_nNonce = nonce\<rparr>"

definition demo_hash :: "CBlockHeader \<Rightarrow> uint256" where
  "demo_hash block = ucast (hdr_nNonce block) # replicate 31 0"

lemma demo_hash_neq:
  "demo_hash (demo_header (replicate 32 1) 7) \<noteq> replicate 32 1"
  "demo_hash (demo_header x 8) \<noteq> demo_hash (demo_header (replicate 32 1) 7)"
proof -
  have "hd (demo_hash (demo_header (replicate 32 1) 7)) \<noteq> hd (replicate 32 1)"
    by (simp add: demo_hash_def demo_header_def)
  then show "demo_hash (demo_header (replicate 32 1) 7) \<noteq> replicate 32 1" by metis
  show "demo_hash (demo_header x 8) \<noteq> demo_hash (demo_header (replicate 32 1) 7)"
    by (simp add: demo_hash_def demo_header_def)
qed

section \<open>Properties\<close>

text \<open>Property C4. In a well-formed index the skip-list walk of \<open>GetAncestor\<close> returns exactly the entry that
  following \<open>pprev\<close> down to the requested height reaches, an entry of that height, and null outside the
  range of heights; it never fails its assertion.\<close>

theorem GetAncestor_correct:
  assumes "wf_index h" "h p = Some b"
  shows "GetAncestor h p height =
      Inr (if height < 0 \<or> nHeight b < height then None else nth_prev h (nat (nHeight b - height)) p) \<and>
    (0 \<le> height \<and> height \<le> nHeight b \<longrightarrow>
      (\<exists>q qb. GetAncestor h p height = Inr (Some q) \<and> h q = Some qb \<and> nHeight qb = height))"
proof -
  note G = GetAncestor_nth_prev [OF assms, of height]
  have "\<exists>q qb. GetAncestor h p height = Inr (Some q) \<and> h q = Some qb \<and> nHeight qb = height"
    if r: "0 \<le> height" "height \<le> nHeight b"
  proof -
    have "int (nat (nHeight b - height)) \<le> nHeight b" using r by simp
    from nth_prev_Some [OF assms this] show ?thesis using G r by fastforce
  qed
  with G show ?thesis by blast
qed

theorem GetAncestor_correct_witness:
  "wf_index demo_index \<and> GetAncestor demo_index 2 1 = Inr (Some 1)"
proof -
  have b: "demo_index 2 = Some (demo_entry 2 (Some 1) (Some 0) 2 20 20)" by (simp add: demo_index_def)
  have "nth_prev demo_index 1 2 = Some 1" by (simp add: demo_index_def demo_entry_def)
  moreover have "nHeight (demo_entry 2 (Some 1) (Some 0) 2 20 20) = 2" by (simp add: demo_entry_def)
  ultimately show ?thesis
    using GetAncestor_correct [OF demo_index_wf b, of 1] demo_index_wf by simp
qed

text \<open>Property C3. Adding any header to a well-formed tree succeeds and leaves a well-formed tree: heights,
  skip pointers, the maximal time and the chain work of every entry are right, the two maps index the
  entries by hash and by predecessor, and the best header has the most work of all usable headers. No
  existing entry changes.\<close>

theorem AddToBlockIndex_invariant:
  assumes "wf_tree t" "index t a = None" "GetHash block \<noteq> hdr_hashPrevBlock block" "status_arg s"
  shows "\<exists>t' p. AddToBlockIndex GetHash a t block s = Inr (t', p) \<and> wf_tree t' \<and>
     mapBlockIndex t' (GetHash block) = Some p \<and> (\<forall>r b. index t r = Some b \<longrightarrow> index t' r = Some b)"
  using assms by (rule AddToBlockIndex_wf_tree)

theorem AddToBlockIndex_invariant_witness:
  "\<exists>t' p. AddToBlockIndex demo_hash 0 empty_tree (demo_header (replicate 32 1) 7) BLOCK_VALID_TREE = Inr (t', p) \<and>
     wf_tree t'"
proof -
  have "demo_hash (demo_header (replicate 32 1) 7) \<noteq> hdr_hashPrevBlock (demo_header (replicate 32 1) 7)"
    using demo_hash_neq(1) by (simp add: demo_header_def)
  moreover have "status_arg BLOCK_VALID_TREE" by (simp add: status_arg_def block_status_defs)
  ultimately show ?thesis
    using AddToBlockIndex_invariant [OF empty_tree_wf, of 0 demo_hash "demo_header (replicate 32 1) 7" BLOCK_VALID_TREE]
    by (auto simp: empty_tree_def)
qed

text \<open>A header with a known predecessor is stored one above it, with the predecessor's work plus
  \<open>2^256 / (target + 1)\<close>, and \<open>GetBlockHeader\<close> returns the header that was added.\<close>

theorem AddToBlockIndex_entry_of_header:
  assumes "wf_tree t" "index t a = None" "GetHash block \<noteq> hdr_hashPrevBlock block" "status_arg s"
    and "mapBlockIndex t (GetHash block) = None"
    and "mapBlockIndex t (hdr_hashPrevBlock block) = Some q" "index t q = Some qb"
  shows "\<exists>t' b. AddToBlockIndex GetHash a t block s = Inr (t', a) \<and> index t' a = Some b \<and>
     pprev b = Some q \<and> nHeight b = nHeight qb + 1 \<and>
     limbs_val (nChainWork b) = (limbs_val (nChainWork qb) + block_work (hdr_nBits block)) mod 2 ^ 256 \<and>
     GetBlockHeader (index t') b = Inr block"
proof -
  from AddToBlockIndex_new [where GetHash = GetHash, OF assms(1-3,5,4)] obtain t' b where
    r: "AddToBlockIndex GetHash a t block s = Inr (t', a)" "entry_of t block (GetHash block) b"
      "wf_entry ((index t)(a \<mapsto> b)) a b" "index t' = (index t)(a \<mapsto> b)" by blast
  have "q \<noteq> a" using assms(2,7) by auto
  then have "wf_child ((index t)(a \<mapsto> b)) a qb b" "pprev b = Some q"
    using r(2,3) assms(6,7) by (auto simp: wf_entry_def entry_of_def)
  moreover have "GetBlockHeader (index t') b = Inr block"
    using GetBlockHeader_entry [OF assms(1,2) r(2)] assms(6) r(4) by simp
  ultimately show ?thesis
    using r by (intro exI [of _ t'] exI [of _ b]) (simp add: wf_child_def entry_of_def)
qed

theorem AddToBlockIndex_entry_of_header_witness:
  "\<exists>t t' b. wf_tree t \<and> AddToBlockIndex demo_hash 1 t (demo_header (demo_hash (demo_header (replicate 32 1) 7)) 8)
     BLOCK_VALID_TREE = Inr (t', 1) \<and> index t' 1 = Some b \<and> pprev b = Some 0"
proof -
  let ?g = "demo_header (replicate 32 1) 7"
  let ?b = "demo_header (demo_hash ?g) 8"
  have hash: "demo_hash ?g \<noteq> replicate 32 1" "demo_hash ?b \<noteq> demo_hash ?g"
    by (rule demo_hash_neq)+
  have st: "status_arg BLOCK_VALID_TREE" by (simp add: status_arg_def block_status_defs)
  have ne: "demo_hash ?g \<noteq> hdr_hashPrevBlock ?g" using hash(1) by (simp add: demo_header_def)
  have em: "index empty_tree 0 = None" "mapBlockIndex empty_tree (demo_hash ?g) = None"
    by (simp_all add: empty_tree_def)
  from AddToBlockIndex_new [where GetHash = demo_hash, OF empty_tree_wf em(1) ne em(2) st] obtain t b0 where
    t: "AddToBlockIndex demo_hash 0 empty_tree ?g BLOCK_VALID_TREE = Inr (t, 0)"
      "index t = (index empty_tree)(0 \<mapsto> b0)"
      "mapBlockIndex t = (mapBlockIndex empty_tree)(demo_hash ?g \<mapsto> 0)" by blast
  have wf: "wf_tree t"
    using AddToBlockIndex_wf_tree [where GetHash = demo_hash, OF empty_tree_wf em(1) ne st] t(1) by auto
  have "hdr_hashPrevBlock ?b = demo_hash ?g" by (simp add: demo_header_def)
  then show ?thesis
    using AddToBlockIndex_entry_of_header [where GetHash = demo_hash and block = ?b and a = 1 and t = t and q = 0
        and qb = b0 and s = BLOCK_VALID_TREE, OF wf] t(2,3) hash(2) st wf
    by (auto simp: empty_tree_def)
qed

text \<open>Property C13. \<open>SetTip\<close> makes the vector the branch of the new tip, although it stops at the first entry
  that is already in place.\<close>

theorem SetTip_correct:
  assumes "wf_index h" "chain_wf h vChain" "h p = Some b"
  shows "SetTip h vChain (Some p) = Inr (branch h p) \<and> chain_wf h (branch h p) \<and>
     chain_Tip (branch h p) = Some p \<and> chain_Height (branch h p) = nHeight b"
proof -
  have "branch h p ! nat (nHeight b) = Some p" using nth_branch [of h p b "nat (nHeight b)"] assms(3) by simp
  then show ?thesis
    using SetTip_branch [OF assms] assms(3) wf_index_height [OF assms(1,3)]
    by (auto simp: chain_wf_def chain_Tip_def chain_Height_def)
qed

theorem SetTip_correct_witness:
  "\<exists>vc. SetTip demo_index [] (Some 2) = Inr vc \<and> SetTip demo_index vc (Some 3) = Inr [Some 0, Some 3]"
proof -
  have b: "demo_index 2 = Some (demo_entry 2 (Some 1) (Some 0) 2 20 20)"
    "demo_index 3 = Some (demo_entry 3 (Some 0) (Some 0) 1 7 10)" by (simp_all add: demo_index_def)
  have "chain_wf demo_index []" by (simp add: chain_wf_def)
  note 1 = SetTip_correct [OF demo_index_wf this b(1)]
  note 2 = SetTip_correct [OF demo_index_wf conjunct1 [OF conjunct2 [OF 1]] b(2)]
  have "branch demo_index 3 = [Some 0, Some 3]"
    by (simp add: branch_def b(2)) (simp add: demo_entry_def demo_index_def)
  then show ?thesis using 1 2 by simp
qed

text \<open>Property C14. \<open>FindFork\<close> returns the highest common ancestor: the highest ancestor of the entry (or the
  entry itself) that is on the chain, and null only when there is none.\<close>

theorem FindFork_correct:
  assumes "wf_index h" "chain_wf h vChain" "h p = Some b"
  shows "\<exists>r. FindFork h vChain (Some p) = Inr r \<and> is_fork h vChain p r"
  using assms by (rule FindFork_fork)

theorem FindFork_correct_witness:
  "\<exists>r. FindFork demo_index (branch demo_index 2) (Some 3) = Inr r \<and>
     is_fork demo_index (branch demo_index 2) 3 r"
proof -
  have b: "demo_index 3 = Some (demo_entry 3 (Some 0) (Some 0) 1 7 10)" by (simp add: demo_index_def)
  have "chain_wf demo_index (branch demo_index 2)"
    unfolding chain_wf_def by (rule disjI2, rule exI [of _ 2]) (simp add: demo_index_def)
  from FindFork_correct [OF demo_index_wf this b] show ?thesis .
qed

text \<open>The locator of an entry consists of the hashes of its ancestors at the heights
  \<open>n, n-1, ..., n-10\<close> and then at exponentially growing distances; it starts with the entry, ends with the
  root, and below height \<open>2^k\<close> has at most \<open>k + 12\<close> hashes.\<close>

theorem GetLocator_correct:
  assumes "wf_index h" "chain_wf h vChain" "h p = Some b" "nHeight b < 2 ^ k"
  shows "\<exists>vHave. GetLocator h vChain (Some p) = Inr vHave \<and> length vHave \<le> k + 12 \<and>
     vHave = map (\<lambda>i. hash_of h (the (nth_prev h (nat (nHeight b) - i) p)))
       (locator_heights 1 0 (nat (nHeight b))) \<and>
     hd vHave = hash_of h p \<and> last vHave = hash_of h (the (nth_prev h (nat (nHeight b)) p))"
proof -
  let ?n = "nat (nHeight b)"
  have "?n < 2 ^ k" using assms(4) by (simp add: nat_less_iff wf_index_height [OF assms(1,3)])
  from length_locator_heights [OF this] show ?thesis
    using GetLocator_heights [OF assms(1-3)] locator_heights_ends [of 1 0 ?n] assms(3)
    by (simp add: hd_map last_map)
qed

theorem GetLocator_correct_witness:
  "\<exists>vHave. GetLocator demo_index [] (Some 2) = Inr vHave \<and> length vHave \<le> 14"
proof -
  have b: "demo_index 2 = Some (demo_entry 2 (Some 1) (Some 0) 2 20 20)" by (simp add: demo_index_def)
  have "chain_wf demo_index []" by (simp add: chain_wf_def)
  from GetLocator_correct [OF demo_index_wf this b, of 2] show ?thesis by (auto simp: demo_entry_def)
qed

text \<open>Property C36. Locators do their work: a node whose active chain shares a block, \<open>m\<close> back, with the branch of a block \<open>p\<close> it
  knows finds from the locator of \<open>p\<close> a block of its chain that is an ancestor of \<open>p\<close>. When \<open>m\<close> is at most 11 the block found is
  at most \<open>m\<close> back, so that the last common block is found exactly; otherwise it is at most \<open>2 * m - 11\<close> back.\<close>

theorem locator_finds_ancestor:
  assumes "wf_tree t" "chain_wf (index t) vChain" "index t p = Some b"
    and "nth_prev (index t) m p = Some c" "Some c \<in> set vChain"
  shows "\<exists>vHave q n. GetLocator (index t) vChain (Some p) = Inr vHave \<and>
     FindForkInGlobalIndex (mapBlockIndex t) (index t) vChain vHave = Inr (Some q) \<and>
     Some q \<in> set vChain \<and> nth_prev (index t) n p = Some q \<and> (n \<le> m \<or> n + 11 \<le> 2 * m)"
  using assms by (rule FindForkInGlobalIndex_locator)

theorem locator_finds_ancestor_witness:
  "wf_tree demo_block_tree \<and> (\<exists>vHave. GetLocator demo_index [Some 0, Some 1] (Some 2) = Inr vHave \<and>
     FindForkInGlobalIndex (mapBlockIndex demo_block_tree) demo_index [Some 0, Some 1] vHave = Inr (Some 1))"
proof -
  have b: "index demo_block_tree 2 = Some (demo_entry 2 (Some 1) (Some 0) 2 20 20)" by (simp add: demo_block_tree_def demo_index_def)
  have "branch demo_index 1 = [Some 0, Some 1]"
    by (simp add: branch_def demo_index_def demo_entry_def upt_rec numeral_2_eq_2)
  then have ch: "chain_wf (index demo_block_tree) [Some 0, Some 1]"
    unfolding chain_wf_def by (intro disjI2 exI [of _ 1]) (simp add: demo_block_tree_def demo_index_def)
  have prev: "nth_prev (index demo_block_tree) (Suc 0) 2 = Some 1" "nth_prev (index demo_block_tree) 0 2 = Some 2"
    by (simp_all add: demo_block_tree_def demo_index_def demo_entry_def)
  obtain vHave q n where q: "GetLocator demo_index [Some 0, Some 1] (Some 2) = Inr vHave"
    "FindForkInGlobalIndex (mapBlockIndex demo_block_tree) demo_index [Some 0, Some 1] vHave = Inr (Some q)"
    "Some q \<in> set [Some 0, Some (1 :: nat)]" "nth_prev demo_index n 2 = Some q" "n \<le> 1"
    using locator_finds_ancestor [OF demo_block_tree_wf ch b prev(1)] by (auto simp: demo_block_tree_def)
  then have "q = 1" using prev by (cases n) (auto simp: demo_block_tree_def)
  then show ?thesis using q(1,2) demo_block_tree_wf by auto
qed

text \<open>\<open>FindEarliestAtLeast\<close>, a binary search on the running maximum of the block times, returns the
  first block of the chain whose own time is at least the given one, and null exactly when there is none.\<close>

theorem FindEarliestAtLeast_correct:
  assumes "wf_index h" "chain_wf h vChain"
  shows "\<exists>k. FindEarliestAtLeast h vChain x = Inr (if k = length vChain then None else vChain ! k) \<and>
     k \<le> length vChain \<and> (\<forall>i < k. time_at h (vChain ! i) < x) \<and>
     (k < length vChain \<longrightarrow> x \<le> time_at h (vChain ! k))"
  using assms by (rule FindEarliestAtLeast_first)

theorem FindEarliestAtLeast_correct_witness:
  "\<exists>k. FindEarliestAtLeast demo_index (branch demo_index 2) 15 =
     Inr (if k = length (branch demo_index 2) then None else branch demo_index 2 ! k)"
proof -
  have "chain_wf demo_index (branch demo_index 2)"
    unfolding chain_wf_def by (rule disjI2, rule exI [of _ 2]) (simp add: demo_index_def)
  from FindEarliestAtLeast_correct [OF demo_index_wf this, of 15] show ?thesis by blast
qed

text \<open>\<open>GetMedianTimePast\<close> returns a median of the times of the last (at most eleven) blocks: one of
  these times, with at most half of them below and at most half of them above.\<close>

theorem GetMedianTimePast_median:
  assumes "wf_index h" "h p = Some b"
  shows "\<exists>m. GetMedianTimePast h p = Inr m \<and> m \<in> set (past_times h p) \<and>
     2 * length (filter (\<lambda>x. x < m) (past_times h p)) \<le> length (past_times h p) \<and>
     2 * length (filter (\<lambda>x. m < x) (past_times h p)) \<le> length (past_times h p)"
proof -
  let ?ts = "past_times h p"
  have "?ts \<noteq> []" by (simp add: past_times_def nMedianTimeSpan_def)
  then have k: "length ?ts div 2 < length ?ts" by (cases ?ts) simp_all
  show ?thesis
    using sort_nth_median [OF k] GetMedianTimePast_val [OF assms] by auto
qed

theorem GetMedianTimePast_median_witness:
  "\<exists>m. GetMedianTimePast demo_index 2 = Inr m \<and> m \<in> set (past_times demo_index 2)"
proof -
  have b: "demo_index 2 = Some (demo_entry 2 (Some 1) (Some 0) 2 20 20)" by (simp add: demo_index_def)
  from GetMedianTimePast_median [OF demo_index_wf b] show ?thesis by blast
qed

text \<open>\<open>GetBlockProof\<close> is \<open>2^256 / (target + 1)\<close>, computed without leaving 256 bits and without a
  division by zero, and zero for a negative, overflowing or zero target; \<open>GetBlockProofEquivalentTime\<close> is the
  signed work difference times the spacing over that proof, clamped to 63 bits.\<close>

theorem GetBlockProof_correct:
  assumes "is_arith256 (nChainWork to)" "is_arith256 (nChainWork frm)" "block_work (nBits tip) \<noteq> 0"
  shows "(\<exists>w. GetBlockProof tip = Inr w \<and> is_arith256 w \<and> limbs_val w = block_work (nBits tip)) \<and>
    (let wt = limbs_val (nChainWork to); wo = limbs_val (nChainWork frm);
         r = (nat \<bar>int wt - int wo\<bar> * unat spacing) mod 2 ^ 256 div block_work (nBits tip)
     in GetBlockProofEquivalentTime to frm tip spacing
        = Inr ((if wo < wt then 1 else - 1) * (if r < 2 ^ 63 then int r else 2 ^ 63 - 1)))"
  using GetBlockProof_val [of tip] GetBlockProofEquivalentTime_val [OF assms, of spacing]
  unfolding Let_def by blast

theorem GetBlockProof_correct_witness:
  "\<exists>w. GetBlockProof (CBlockIndex_SetNull\<lparr>nBits := 0x03000001\<rparr>) = Inr w \<and> limbs_val w = 2 ^ 255"
proof -
  have "\<not> bit (0x03000001 :: u32) 23" by code_simp
  then have v: "limbs_val (fst (SetCompact 0x03000001)) = 1"
    "\<not> fst (snd (SetCompact 0x03000001))" "\<not> snd (snd (SetCompact 0x03000001))"
    using SetCompact_val(2-4) [of "0x03000001"] by simp_all
  have "block_work 0x03000001 = 2 ^ 256 div (1 + 1)"
    using v by (cases "SetCompact 0x03000001") (simp add: block_work_def)
  also have "\<dots> = 2 ^ 255" by (simp only: one_add_one) simp
  finally have bw: "block_work 0x03000001 = 2 ^ 255" .
  have z: "is_arith256 (nChainWork CBlockIndex_SetNull)"
    by (simp add: CBlockIndex_SetNull_def uint_zero_def is_arith256_def)
  have "block_work (nBits (CBlockIndex_SetNull\<lparr>nBits := 0x03000001\<rparr>)) \<noteq> 0" using bw by simp
  from GetBlockProof_correct [OF z z this, of 0] bw show ?thesis by auto
qed

text \<open>The comparator of the candidate set is a strict linear order on the entries: total,
  transitive and irreflexive, and an entry with more work is never less.\<close>

theorem work_less_linear:
  assumes "wf_index h" "pa \<in> dom h" "pb \<in> dom h" "pc \<in> dom h"
  shows "\<exists>ab bc ac ba. work_less h pa pb = Inr ab \<and> work_less h pb pc = Inr bc \<and> work_less h pa pc = Inr ac \<and>
     work_less h pb pa = Inr ba \<and> (ab \<and> bc \<longrightarrow> ac) \<and> \<not> (ab \<and> ba) \<and> (pa \<noteq> pb \<longrightarrow> ab \<or> ba) \<and>
     (limbs_val (nChainWork (the (h pb))) < limbs_val (nChainWork (the (h pa))) \<longrightarrow> \<not> ab)"
proof -
  obtain a b c where "h pa = Some a" "h pb = Some b" "h pc = Some c" using assms(2-4) by blast
  then show ?thesis
    using work_less_iff [OF assms(1)] by auto
qed

theorem work_less_linear_witness:
  "\<exists>ab. work_less demo_index 0 1 = Inr ab"
proof -
  have "0 \<in> dom demo_index" "1 \<in> dom demo_index" "2 \<in> dom demo_index" by (simp_all add: demo_index_def)
  from work_less_linear [OF demo_index_wf this] show ?thesis by blast
qed

end
