(* ===== verification/Params.thy ===== *)
theory Params
  imports Serialize
begin

text \<open>
  The consensus parameters of a network, \<^verbatim>\<open>src/src/consensus/params.h\<close>, and the constants of
  \<^verbatim>\<open>src/src/consensus/consensus.h\<close>. The C++ \<open>int\<close> and \<open>int64_t\<close> members are integers; the operations that use
  them say where a width matters.
\<close>

datatype DeploymentPos =
  DEPLOYMENT_TESTDUMMY | DEPLOYMENT_CSV | DEPLOYMENT_DIP0001 | DEPLOYMENT_BIP147 | DEPLOYMENT_DIP0003
| DEPLOYMENT_DIP0008

record BIP9Deployment =
  dep_bit :: nat
  nStartTime :: int
  nTimeout :: int
  nWindowSize :: int
  nThreshold :: int

datatype LLMQType = LLMQ_NONE | LLMQ_5_60 | LLMQ_40_60 | LLMQ_40_85

record LLMQParams =
  llmq_type :: LLMQType
  llmq_name :: string
  llmq_size :: int
  minSize :: int
  llmq_threshold :: int
  dkgInterval :: int
  dkgPhaseBlocks :: int
  dkgMiningWindowStart :: int
  dkgMiningWindowEnd :: int
  dkgBadVotesThreshold :: int
  signingActiveQuorumCount :: int
  keepOldConnections :: int

record Params =
  hashGenesisBlock :: uint256
  hashDevnetGenesisBlock :: uint256
  nSubsidyHalvingInterval :: int
  nMasternodePaymentsStartBlock :: int
  nMasternodePaymentsIncreaseBlock :: int
  nMasternodePaymentsIncreasePeriod :: int
  nDirectSendConfirmationsRequired :: int
  nDirectSendKeepLock :: int
  nDirectSendSigsRequired :: int
  nDirectSendSigsTotal :: int
  nBudgetPaymentsStartBlock :: int
  nBudgetPaymentsCycleBlocks :: int
  nBudgetPaymentsWindowBlocks :: int
  nSuperblockStartBlock :: int
  nSuperblockStartHash :: uint256
  nSuperblockCycle :: int
  nGovernanceMinQuorum :: int
  nGovernanceFilterElements :: int
  nMasternodeMinimumConfirmations :: int
  BIP34Height :: int
  BIP34Hash :: uint256
  BIP65Height :: int
  BIP66Height :: int
  DIP0001Height :: int
  DIP0003Height :: int
  DIP0003EnforcementHeight :: int
  DIP0003EnforcementHash :: uint256
  T3Height :: int
  nRuleChangeActivationThreshold :: u32
  nMinerConfirmationWindow :: u32
  vDeployments :: "DeploymentPos \<Rightarrow> BIP9Deployment"
  powLimit :: uint256
  fPowAllowMinDifficultyBlocks :: bool
  fPowNoRetargeting :: bool
  nPowTargetSpacing :: int
  nPowTargetTimespan :: int
  nMinimumChainWork :: uint256
  defaultAssumeValid :: uint256
  nMinimumDifficultyBlocks :: int
  nHighSubsidyBlocks :: int
  nHighSubsidyFactor :: int
  llmqs :: "LLMQType \<rightharpoonup> LLMQParams"
  llmqChainLocks :: LLMQType
  llmqForDirectSend :: LLMQType

text \<open>C++ integer division rounds towards zero.\<close>

definition cdiv :: "int \<Rightarrow> int \<Rightarrow> int" where
  "cdiv a b = sgn a * sgn b * (\<bar>a\<bar> div \<bar>b\<bar>)"

definition cmod :: "int \<Rightarrow> int \<Rightarrow> int" where
  "cmod a b = a - cdiv a b * b"

lemma cdiv_nonneg [simp]: "0 \<le> a \<Longrightarrow> 0 \<le> b \<Longrightarrow> cdiv a b = a div b"
  by (cases "a = 0"; cases "b = 0") (simp_all add: cdiv_def sgn_if)

lemma cmod_nonneg [simp]: "0 \<le> a \<Longrightarrow> 0 \<le> b \<Longrightarrow> cmod a b = a mod b"
  by (simp add: cmod_def minus_div_mult_eq_mod)

definition DifficultyAdjustmentInterval :: "Params \<Rightarrow> int" where
  "DifficultyAdjustmentInterval params = cdiv (nPowTargetTimespan params) (nPowTargetSpacing params)"

definition MAX_LEGACY_BLOCK_SIZE :: nat where "MAX_LEGACY_BLOCK_SIZE = 1000000"

definition MAX_DIP0001_BLOCK_SIZE :: nat where "MAX_DIP0001_BLOCK_SIZE = 2000000"

definition MaxBlockSize :: "bool \<Rightarrow> nat" where
  "MaxBlockSize fDIP0001Active = (if fDIP0001Active then MAX_DIP0001_BLOCK_SIZE else MAX_LEGACY_BLOCK_SIZE)"

definition MaxBlockSigOps :: "bool \<Rightarrow> nat" where
  "MaxBlockSigOps fDIP0001Active = MaxBlockSize fDIP0001Active div 50"

definition MAX_TX_EXTRA_PAYLOAD :: nat where "MAX_TX_EXTRA_PAYLOAD = 10000"

definition COINBASE_MATURITY :: int where "COINBASE_MATURITY = 100"

definition LOCKTIME_VERIFY_SEQUENCE :: nat where "LOCKTIME_VERIFY_SEQUENCE = 1"

definition LOCKTIME_MEDIAN_TIME_PAST :: nat where "LOCKTIME_MEDIAN_TIME_PAST = 2"

end
