(* ===== verification/Pow.thy ===== *)
theory Pow
  imports Chain Params
begin

text \<open>
  Difficulty retargeting and the proof-of-work check, \<^verbatim>\<open>src/src/pow.cpp\<close>. The overloads that C++ selects are
  kept: multiplying by a built-in integer uses the 32-bit multiplier (an \<open>int64_t\<close> factor is cut to 32
  bits), dividing converts the divisor through the 64-bit constructor.
\<close>

definition nPastBlocks :: nat where "nPastBlocks = 24"

text \<open>One round per past block; \<open>r\<close> rounds remain and \<open>nCountBlocks\<close> counts up.\<close>

fun DGW_loop :: "index_store \<Rightarrow> nat \<Rightarrow> nat \<Rightarrow> addr \<Rightarrow> base_uint \<Rightarrow> chain_error + base_uint \<times> addr" where
  "DGW_loop h 0 nCountBlocks pindex avg = Inr (avg, pindex)"
| "DGW_loop h (Suc r) nCountBlocks pindex avg =
     bindE (deref BadPointer h pindex) (\<lambda>b.
       let bnTarget = fst (SetCompact (nBits b)) in
       bindE (if nCountBlocks = 1 then Inr bnTarget
              else map_sum ArithError id
                (uint_div (uint_add (uint_mul32 avg (of_nat nCountBlocks)) bnTarget)
                  (uint_of_u64 WIDTH (of_nat (nCountBlocks + 1))))) (\<lambda>avg'.
       if nCountBlocks \<noteq> nPastBlocks
       then (case pprev b of None \<Rightarrow> Inl AssertFailed
             | Some q \<Rightarrow> DGW_loop h r (nCountBlocks + 1) q avg')
       else DGW_loop h r (nCountBlocks + 1) pindex avg'))"

definition compact_of :: "base_uint \<Rightarrow> chain_error + u32" where
  "compact_of a = assert_some (GetCompact a False)"

definition clamp_limit :: "base_uint \<Rightarrow> base_uint \<Rightarrow> base_uint" where
  "clamp_limit bnNew bnPowLimit = (if uint_CompareTo bnNew bnPowLimit > 0 then bnPowLimit else bnNew)"

definition clamp_timespan :: "int \<Rightarrow> int \<Rightarrow> int" where
  "clamp_timespan nActual nTarget =
     (let a = (if nActual < cdiv nTarget 3 then cdiv nTarget 3 else nActual)
      in if a > nTarget * 3 then nTarget * 3 else a)"

definition target_timespan :: "Params \<Rightarrow> int \<Rightarrow> int" where
  "target_timespan params lastHeight =
     (if lastHeight < 226649 then int nPastBlocks * 150 else int nPastBlocks * nPowTargetSpacing params)"

text \<open>The part of \<open>DarkGravityWave\<close> after the shortcuts of the test networks.\<close>

definition DGW_retarget :: "index_store \<Rightarrow> addr \<Rightarrow> CBlockIndex \<Rightarrow> Params \<Rightarrow> chain_error + u32" where
  "DGW_retarget h p lastBlock params =
     bindE (DGW_loop h nPastBlocks 1 p (uint_zero WIDTH)) (\<lambda>(avg, q).
     bindE (deref BadPointer h q) (\<lambda>qb.
       let nTargetTimespan = target_timespan params (nHeight lastBlock);
           nActualTimespan = clamp_timespan (GetBlockTime lastBlock - GetBlockTime qb) nTargetTimespan
       in bindE (map_sum ArithError id
            (uint_div (uint_mul32 avg (word_of_int nActualTimespan))
               (uint_of_u64 WIDTH (word_of_int nTargetTimespan)))) (\<lambda>bnNew.
          compact_of (clamp_limit bnNew (UintToArith256 (powLimit params))))))"

definition DarkGravityWave ::
    "index_store \<Rightarrow> addr option \<Rightarrow> CBlockHeader \<Rightarrow> Params \<Rightarrow> chain_error + u32" where
  "DarkGravityWave h pindexLast pblock params =
     (let bnPowLimit = UintToArith256 (powLimit params) in
      case pindexLast of None \<Rightarrow> compact_of bnPowLimit
      | Some p \<Rightarrow>
        bindE (deref BadPointer h p) (\<lambda>b.
          if nHeight b < int nPastBlocks then compact_of bnPowLimit
          else if fPowAllowMinDifficultyBlocks params \<and>
                  uint (hdr_nTime pblock) > GetBlockTime b + 2 * 60 * 60
          then compact_of bnPowLimit
          else if fPowAllowMinDifficultyBlocks params \<and>
                  uint (hdr_nTime pblock) > GetBlockTime b + nPowTargetSpacing params * 10
          then compact_of (clamp_limit (uint_mul32 (fst (SetCompact (nBits b))) 10) bnPowLimit)
          else DGW_retarget h p b params))"

definition GetNextWorkRequired ::
    "index_store \<Rightarrow> addr \<Rightarrow> CBlockHeader \<Rightarrow> Params \<Rightarrow> chain_error + u32" where
  "GetNextWorkRequired h pindexLast pblock params =
     bindE (deref BadPointer h pindexLast) (\<lambda>b.
       if nHeight b < nMinimumDifficultyBlocks params then compact_of (UintToArith256 (powLimit params))
       else DarkGravityWave h (Some pindexLast) pblock params)"

definition CheckProofOfWork :: "uint256 \<Rightarrow> u32 \<Rightarrow> Params \<Rightarrow> bool" where
  "CheckProofOfWork hash bits params =
     (case SetCompact bits of (bnTarget, fNegative, fOverflow) \<Rightarrow>
        if fNegative \<or> uint_EqualTo bnTarget 0 \<or> fOverflow
           \<or> uint_CompareTo bnTarget (UintToArith256 (powLimit params)) > 0 then False
        else if uint_CompareTo (UintToArith256 hash) bnTarget > 0 then False
        else True)"

subsection \<open>The check\<close>

lemma CheckProofOfWork_iff:
  assumes "is_uint256 hash" "is_uint256 (powLimit params)"
  shows "CheckProofOfWork hash bits params \<longleftrightarrow>
    (case SetCompact bits of (t, neg, ovf) \<Rightarrow>
       \<not> neg \<and> \<not> ovf \<and> limbs_val t \<noteq> 0 \<and> limbs_val t \<le> le_val (powLimit params) \<and> le_val hash \<le> limbs_val t)"
proof -
  obtain t neg ovf where sc: "SetCompact bits = (t, neg, ovf)" by (metis prod_cases3)
  have t: "is_arith256 t" using SetCompact_wf [of bits] sc by simp
  have eq: "uint_EqualTo t 0 \<longleftrightarrow> limbs_val t = 0"
    using t uint_EqualTo_val [of t 0] by (simp add: is_arith256_def WIDTH_def)
  show ?thesis
    using a256.cmp_gt [OF t UintToArith256_wf, of "powLimit params"] a256.cmp_gt [OF UintToArith256_wf t, of hash]
      assms eq sc by (auto simp: CheckProofOfWork_def limbs_val_UintToArith256)
qed

subsection \<open>Bounds of the next target\<close>

lemma compact_of_le:
  assumes "is_arith256 a"
  shows "\<exists>c r. compact_of a = Inr c \<and> SetCompact c = (r, False, False) \<and> limbs_val r \<le> limbs_val a"
proof -
  have len: "length a = WIDTH" using assms by (simp add: is_arith256_def)
  then obtain c where c: "GetCompact a False = Some c" using GetCompact_val by blast
  obtain r k where "SetCompact c = (r, False, False)" "limbs_val r = limbs_val a div 256 ^ k * 256 ^ k"
    using GetCompact_SetCompact [OF len c] by blast
  then show ?thesis using c by (auto simp: compact_of_def assert_some_def)
qed

lemma clamp_limit_val:
  assumes "is_arith256 a" "is_arith256 l"
  shows "is_arith256 (clamp_limit a l)" "limbs_val (clamp_limit a l) = min (limbs_val a) (limbs_val l)"
  using assms a256.clamp_le [OF assms] by (simp_all add: clamp_limit_def)

lemma DGW_loop_total:
  assumes wf: "wf_index h"
  shows "h p = Some b \<Longrightarrow> is_arith256 avg \<Longrightarrow> n + r = nPastBlocks + 1 \<Longrightarrow> 1 \<le> n \<Longrightarrow> int r \<le> nHeight b + 1 \<Longrightarrow>
    \<exists>avg' q. DGW_loop h r n p avg = Inr (avg', q) \<and> is_arith256 avg' \<and> nth_prev h (r - 1) p = Some q"
proof (induction r arbitrary: n p b avg)
  case (Suc r)
  let ?t = "fst (SetCompact (nBits b))"
  have t: "is_arith256 ?t" by (rule SetCompact_wf)
  have nz: "limbs_val (uint_of_u64 WIDTH (of_nat (n + 1))) \<noteq> 0"
    using Suc.prems(3) by (simp only: a256.val_of_u64 unat_of_nat) (simp add: nPastBlocks_def)
  have sum: "is_arith256 (uint_add (uint_mul32 avg (of_nat n)) ?t)"
    using Suc.prems(2) t by (intro a256.wf_add a256.wf_mul32)
  obtain a where a: "(if n = 1 then Inr ?t else map_sum ArithError id
      (uint_div (uint_add (uint_mul32 avg (of_nat n)) ?t) (uint_of_u64 WIDTH (of_nat (n + 1))))) = Inr a"
      "is_arith256 a"
    using t a256.quot_val [OF sum a256.wf_of_u64 nz] by (cases "n = 1") auto
  have d: "deref BadPointer h p = Inr b" using Suc.prems(1) by simp
  have step: "DGW_loop h (Suc r) n p avg = (if n \<noteq> nPastBlocks
      then (case pprev b of None \<Rightarrow> Inl AssertFailed | Some q \<Rightarrow> DGW_loop h r (n + 1) q a)
      else DGW_loop h r (n + 1) p a)"
    by (simp only: DGW_loop.simps d bindE_simps Let_def a(1))
  show ?case
  proof (cases r)
    case 0
    then have "n = nPastBlocks" using Suc.prems(3) by simp
    then show ?thesis using 0 Suc.prems(1) a(2) unfolding step by simp
  next
    case (Suc r')
    then have n: "n \<noteq> nPastBlocks" using Suc.prems(3) by simp
    obtain q where q: "pprev b = Some q"
      using wf_index_pprev_iff [OF wf Suc.prems(1)] Suc.prems(5) Suc by fastforce
    then obtain qb where qb: "h q = Some qb" "nHeight b = nHeight qb + 1"
      using wf Suc.prems(1) wf_index_prev by metis
    have "\<exists>avg' s. DGW_loop h r (n + 1) q a = Inr (avg', s) \<and> is_arith256 avg' \<and> nth_prev h (r - 1) q = Some s"
      using Suc.prems(3-5) qb a(2) by (intro Suc.IH) auto
    moreover have "DGW_loop h (Suc r) n p avg = DGW_loop h r (n + 1) q a"
      unfolding step using n q by simp
    ultimately show ?thesis using Suc q Suc.prems(1) by auto
  qed
qed simp

definition DGW_params_ok :: "Params \<Rightarrow> bool" where
  "DGW_params_ok params \<longleftrightarrow> is_uint256 (powLimit params) \<and> 0 < nPowTargetSpacing params \<and>
     nPowTargetSpacing params < 2 ^ 32"

lemma target_timespan_word:
  assumes "DGW_params_ok params"
  shows "unat (word_of_int (target_timespan params ht) :: u64) = nat (target_timespan params ht)"
    "0 < target_timespan params ht"
proof -
  have r: "0 < target_timespan params ht" "target_timespan params ht < 2 ^ 64"
    using assms by (auto simp: target_timespan_def DGW_params_ok_def nPastBlocks_def)
  then show "0 < target_timespan params ht" by simp
  have "uint (word_of_int (target_timespan params ht) :: u64) = target_timespan params ht"
    using r by (simp add: uint_word_of_int)
  then show "unat (word_of_int (target_timespan params ht) :: u64) = nat (target_timespan params ht)"
    by (simp add: unat_eq_nat_uint)
qed

lemma DGW_retarget_le:
  assumes wf: "wf_index h" and p: "h p = Some b" and ht: "int nPastBlocks \<le> nHeight b"
    and ok: "DGW_params_ok params"
  shows "\<exists>c r. DGW_retarget h p b params = Inr c \<and> SetCompact c = (r, False, False) \<and>
     limbs_val r \<le> le_val (powLimit params)"
proof -
  have lim: "is_arith256 (UintToArith256 (powLimit params))"
    "limbs_val (UintToArith256 (powLimit params)) = le_val (powLimit params)"
    using ok by (simp_all add: UintToArith256_wf limbs_val_UintToArith256 DGW_params_ok_def)
  have zero: "is_arith256 (uint_zero WIDTH)" by (simp add: is_arith256_def uint_zero_def)
  have "\<exists>avg q. DGW_loop h nPastBlocks 1 p (uint_zero WIDTH) = Inr (avg, q) \<and> is_arith256 avg \<and>
      nth_prev h (nPastBlocks - 1) p = Some q"
    using ht by (intro DGW_loop_total [OF wf p zero]) simp_all
  then obtain avg q where a: "DGW_loop h nPastBlocks 1 p (uint_zero WIDTH) = Inr (avg, q)" "is_arith256 avg"
      "nth_prev h (nPastBlocks - 1) p = Some q" by blast
  obtain qb where qb: "h q = Some qb" using nth_prev_Some_heap [OF a(3)] by blast
  define tt where "tt = target_timespan params (nHeight b)"
  define x where "x = uint_mul32 avg (word_of_int (clamp_timespan (GetBlockTime b - GetBlockTime qb) tt))"
  have nz: "limbs_val (uint_of_u64 WIDTH (word_of_int tt)) \<noteq> 0"
    using target_timespan_word [OF ok, of "nHeight b"] unfolding a256.val_of_u64 tt_def by simp
  have "is_arith256 x" unfolding x_def by (rule a256.wf_mul32 [OF a(2)])
  from a256.quot_val [OF this a256.wf_of_u64 nz] obtain y where
    y: "uint_div x (uint_of_u64 WIDTH (word_of_int tt)) = Inr y" "is_arith256 y" by blast
  note cl = clamp_limit_val [OF y(2) lim(1)]
  from compact_of_le [OF cl(1)] show ?thesis
    using a(1) qb y(1) cl(2) lim(2) by (auto simp: DGW_retarget_def Let_def x_def tt_def)
qed

lemma GetNextWorkRequired_le:
  assumes wf: "wf_index h" and p: "h p = Some b" and ok: "DGW_params_ok params"
  shows "\<exists>c r. GetNextWorkRequired h p pblock params = Inr c \<and> SetCompact c = (r, False, False) \<and>
     limbs_val r \<le> le_val (powLimit params)"
proof -
  have lim: "is_arith256 (UintToArith256 (powLimit params))"
    "limbs_val (UintToArith256 (powLimit params)) = le_val (powLimit params)"
    using ok by (simp_all add: UintToArith256_wf limbs_val_UintToArith256 DGW_params_ok_def)
  note cl = clamp_limit_val [OF a256.wf_mul32 [OF SetCompact_wf] lim(1), of "nBits b" 10]
  define Q where "Q x \<longleftrightarrow> (\<exists>c r. x = Inr c \<and> SetCompact c = (r, False, False) \<and>
     limbs_val r \<le> le_val (powLimit params))" for x :: "chain_error + u32"
  have "Q (compact_of (UintToArith256 (powLimit params)))"
    unfolding Q_def using compact_of_le [OF lim(1)] lim(2) by auto
  moreover have "Q (compact_of (clamp_limit (uint_mul32 (fst (SetCompact (nBits b))) 10)
      (UintToArith256 (powLimit params))))"
    unfolding Q_def using compact_of_le [OF cl(1)] cl(2) lim(2) by fastforce
  moreover have "Q (DGW_retarget h p b params)" if "\<not> nHeight b < int nPastBlocks"
    unfolding Q_def using DGW_retarget_le [OF wf p _ ok] that by simp
  ultimately show ?thesis
    unfolding Q_def [symmetric] using p by (simp add: GetNextWorkRequired_def DarkGravityWave_def Let_def)
qed

subsection \<open>The retargeting formula\<close>

text \<open>The running average of the targets on natural numbers, and the targets of the last blocks.\<close>

fun dgw_avg :: "nat \<Rightarrow> nat list \<Rightarrow> nat \<Rightarrow> nat" where
  "dgw_avg n [] avg = avg"
| "dgw_avg n (t # ts) avg = dgw_avg (n + 1) ts (if n = 1 then t else (avg * n + t) div (n + 1))"

definition target_at :: "index_store \<Rightarrow> addr option \<Rightarrow> nat" where
  "target_at h p = limbs_val (fst (SetCompact (nBits (the (h (the p))))))"

definition past_targets :: "index_store \<Rightarrow> nat \<Rightarrow> addr \<Rightarrow> nat list" where
  "past_targets h n p = map (\<lambda>i. target_at h (nth_prev h i p)) [0..<n]"

lemma past_targets_Suc:
  assumes "h p = Some b" "pprev b = Some q"
  shows "past_targets h (Suc n) p = limbs_val (fst (SetCompact (nBits b))) # past_targets h n q"
proof -
  have "past_targets h (Suc n) p = target_at h (nth_prev h 0 p) # map (\<lambda>i. target_at h (nth_prev h (Suc i) p)) [0..<n]"
    unfolding past_targets_def by (simp add: upt_conv_Cons map_Suc_upt [symmetric] del: upt_Suc nth_prev.simps)
  then show ?thesis using assms by (simp add: past_targets_def target_at_def)
qed

lemma avg_step_le:
  fixes avg n t T :: nat
  assumes "avg \<le> T" "t \<le> T"
  shows "(avg * n + t) div (n + 1) \<le> T"
proof -
  have "avg * n + t \<le> T * n + T" using assms by (intro add_mono mult_right_mono) simp_all
  then have "(avg * n + t) div (n + 1) \<le> (T * (n + 1)) div (n + 1)" by (intro div_le_mono) simp
  also have "\<dots> = T" by (rule nonzero_mult_div_cancel_right) simp
  finally show ?thesis .
qed

lemma dgw_avg_le:
  "(\<And>t. t \<in> set ts \<Longrightarrow> t \<le> T) \<Longrightarrow> avg \<le> T \<Longrightarrow> dgw_avg n ts avg \<le> T"
proof (induction n ts avg rule: dgw_avg.induct)
  case (2 n t ts avg)
  then have "(if n = 1 then t else (avg * n + t) div (n + 1)) \<le> T"
    using avg_step_le [of avg T t n] by simp
  with "2.IH" "2.prems"(1) show ?case unfolding dgw_avg.simps by simp
qed simp

lemma DGW_loop_val:
  assumes wf: "wf_index h" and T: "T * (nPastBlocks + 1) < 2 ^ 256"
  shows "h p = Some b \<Longrightarrow> is_arith256 avg \<Longrightarrow> n + r = nPastBlocks + 1 \<Longrightarrow> 1 \<le> n \<Longrightarrow> int r \<le> nHeight b + 1 \<Longrightarrow>
    limbs_val avg \<le> T \<Longrightarrow> (\<And>t. t \<in> set (past_targets h r p) \<Longrightarrow> t \<le> T) \<Longrightarrow>
    \<exists>avg' q. DGW_loop h r n p avg = Inr (avg', q) \<and> is_arith256 avg' \<and> nth_prev h (r - 1) p = Some q \<and>
      limbs_val avg' = dgw_avg n (past_targets h r p) (limbs_val avg)"
proof (induction r arbitrary: n p b avg)
  case 0
  then show ?case by (simp add: past_targets_def)
next
  case (Suc r)
  let ?t = "fst (SetCompact (nBits b))"
  have t: "is_arith256 ?t" by (rule SetCompact_wf)
  have "target_at h (nth_prev h 0 p) \<in> set (past_targets h (Suc r) p)"
    unfolding past_targets_def set_map by (rule imageI) auto
  then have tT: "limbs_val ?t \<le> T"
    using Suc.prems(1,7) by (auto simp: target_at_def)
  have n: "unat (of_nat n :: u32) = n" "unat (of_nat (n + 1) :: u64) = n + 1" "n \<le> nPastBlocks"
    using Suc.prems(3) by (simp_all only: unat_of_nat) (simp_all add: nPastBlocks_def)
  have "limbs_val avg * n + limbs_val ?t \<le> T * nPastBlocks + T"
    using Suc.prems(6) tT n(3) by (intro add_mono mult_mono) simp_all
  then have fit: "limbs_val avg * unat (of_nat n :: u32) + limbs_val ?t < 2 ^ 256" using T n(1) by simp
  have k: "unat (of_nat (n + 1) :: u64) = unat (of_nat n :: u32) + 1" using n by simp
  obtain a where a: "(if n = 1 then Inr ?t else map_sum ArithError id
      (uint_div (uint_add (uint_mul32 avg (of_nat n)) ?t) (uint_of_u64 WIDTH (of_nat (n + 1))))) = Inr a"
      "is_arith256 a" "limbs_val a = (if n = 1 then limbs_val ?t else (limbs_val avg * n + limbs_val ?t) div (n + 1))"
    using t a256.weighted_avg [OF Suc.prems(2) t fit k] n(1) by (cases "n = 1") auto
  have aT: "limbs_val a \<le> T" using a(3) tT avg_step_le [OF Suc.prems(6) tT, of n] by simp
  have d: "deref BadPointer h p = Inr b" using Suc.prems(1) by simp
  have step: "DGW_loop h (Suc r) n p avg = (if n \<noteq> nPastBlocks
      then (case pprev b of None \<Rightarrow> Inl AssertFailed | Some q \<Rightarrow> DGW_loop h r (n + 1) q a)
      else DGW_loop h r (n + 1) p a)"
    by (simp only: DGW_loop.simps d bindE_simps Let_def a(1))
  show ?case
  proof (cases r)
    case 0
    then have "n = nPastBlocks" using Suc.prems(3) by simp
    moreover have "past_targets h (Suc 0) p = [limbs_val ?t]"
      using Suc.prems(1) by (simp add: past_targets_def target_at_def)
    ultimately show ?thesis using 0 Suc.prems(1) a(2,3) unfolding step by simp
  next
    case (Suc r')
    then have n': "n \<noteq> nPastBlocks" using Suc.prems(3) by simp
    obtain q where q: "pprev b = Some q"
      using wf_index_pprev_iff [OF wf Suc.prems(1)] Suc.prems(5) Suc by fastforce
    then obtain qb where qb: "h q = Some qb" "nHeight b = nHeight qb + 1"
      using wf Suc.prems(1) wf_index_prev by metis
    note pt = past_targets_Suc [of h p b q r, OF Suc.prems(1) q]
    have "\<exists>avg' s. DGW_loop h r (n + 1) q a = Inr (avg', s) \<and> is_arith256 avg' \<and> nth_prev h (r - 1) q = Some s \<and>
        limbs_val avg' = dgw_avg (n + 1) (past_targets h r q) (limbs_val a)"
      using Suc.prems(3-5,7) qb a(2) aT pt by (intro Suc.IH) auto
    moreover have "DGW_loop h (Suc r) n p avg = DGW_loop h r (n + 1) q a" unfolding step using n' q by simp
    ultimately show ?thesis using Suc q Suc.prems(1) a(3) pt by auto
  qed
qed

lemma clamp_timespan_bounds:
  "0 \<le> nTarget \<Longrightarrow> nTarget div 3 \<le> clamp_timespan a nTarget \<and> clamp_timespan a nTarget \<le> nTarget * 3"
  by (auto simp: clamp_timespan_def Let_def)

lemma clamp_timespan_minmax: "0 \<le> tt \<Longrightarrow> clamp_timespan a tt = max (tt div 3) (min (tt * 3) a)"
  by (auto simp: clamp_timespan_def Let_def)

lemma dgw_avg_run: "1 < n \<Longrightarrow> dgw_avg n (replicate k t) t = t"
proof (induction k arbitrary: n)
  case (Suc k)
  have "(t * n + t) div (n + 1) = t" using nonzero_mult_div_cancel_right [of "n + 1" t] by (simp add: algebra_simps)
  then show ?case using Suc by simp
qed simp

lemma dgw_avg_const: "0 < k \<Longrightarrow> dgw_avg 1 (replicate k t) a = t"
  by (cases k) (simp_all add: dgw_avg_run del: dgw_avg.simps(2), simp add: dgw_avg_run)

lemma DGW_retarget_val:
  assumes wf: "wf_index h" and p: "h p = Some b" and ht: "int nPastBlocks \<le> nHeight b"
    and ok: "DGW_params_ok params" and sp: "nPowTargetSpacing params * 72 < 2 ^ 32"
    and T: "\<And>t. t \<in> set (past_targets h nPastBlocks p) \<Longrightarrow> t \<le> T" "T * (72 * nat (max 150 (nPowTargetSpacing params))) < 2 ^ 256"
  defines "tt \<equiv> target_timespan params (nHeight b)"
  defines "sp_n \<equiv> clamp_timespan (time_at h (Some p) - time_at h (nth_prev h (nPastBlocks - 1) p)) tt"
  shows "\<exists>y. DGW_retarget h p b params = compact_of y \<and> is_arith256 y \<and>
     limbs_val y = min (dgw_avg 1 (past_targets h nPastBlocks p) 0 * nat sp_n div nat tt) (le_val (powLimit params))"
proof -
  have lim: "is_arith256 (UintToArith256 (powLimit params))"
    "limbs_val (UintToArith256 (powLimit params)) = le_val (powLimit params)"
    using ok by (simp_all add: UintToArith256_wf limbs_val_UintToArith256 DGW_params_ok_def)
  have zero: "is_arith256 (uint_zero WIDTH)" "limbs_val (uint_zero WIDTH) = 0"
    by (simp_all add: is_arith256_def uint_zero_def)
  have "T * (nPastBlocks + 1) \<le> T * (72 * nat (max 150 (nPowTargetSpacing params)))"
    by (intro mult_left_mono) (simp_all add: nPastBlocks_def)
  then have T25: "T * (nPastBlocks + 1) < 2 ^ 256" using T(2) by (rule le_less_trans)
  have "\<exists>avg q. DGW_loop h nPastBlocks 1 p (uint_zero WIDTH) = Inr (avg, q) \<and> is_arith256 avg \<and>
      nth_prev h (nPastBlocks - 1) p = Some q \<and>
      limbs_val avg = dgw_avg 1 (past_targets h nPastBlocks p) (limbs_val (uint_zero WIDTH))"
    using ht T(1) by (intro DGW_loop_val [OF wf T25 p zero(1)]) (simp_all add: zero(2) nPastBlocks_def)
  then obtain avg q where a: "DGW_loop h nPastBlocks 1 p (uint_zero WIDTH) = Inr (avg, q)" "is_arith256 avg"
      "nth_prev h (nPastBlocks - 1) p = Some q" "limbs_val avg = dgw_avg 1 (past_targets h nPastBlocks p) 0"
    by (auto simp: zero(2))
  obtain qb where qb: "h q = Some qb" using nth_prev_Some_heap [OF a(3)] by blast
  have sp_n: "clamp_timespan (GetBlockTime b - GetBlockTime qb) tt = sp_n"
    using a(3) qb p by (simp add: sp_n_def time_at_def)
  have tt: "0 < tt" "unat (word_of_int tt :: u64) = nat tt"
    using target_timespan_word [OF ok, of "nHeight b"] by (simp_all add: tt_def)
  have bnd: "0 \<le> sp_n" "sp_n < 2 ^ 32"
  proof -
    have "tt * 3 < 2 ^ 32" using sp by (auto simp: tt_def target_timespan_def nPastBlocks_def)
    then show "sp_n < 2 ^ 32"
      using clamp_timespan_bounds [of tt "time_at h (Some p) - time_at h (nth_prev h (nPastBlocks - 1) p)"] tt(1)
      unfolding sp_n_def by linarith
    show "0 \<le> sp_n"
      using clamp_timespan_bounds [of tt "time_at h (Some p) - time_at h (nth_prev h (nPastBlocks - 1) p)"] tt(1)
        pos_imp_zdiv_nonneg_iff [of 3 tt] unfolding sp_n_def by linarith
  qed
  have un: "unat (word_of_int sp_n :: u32) = nat sp_n"
    using bnd by (simp add: unat_eq_nat_uint uint_word_of_int)
  have avg: "limbs_val avg \<le> T" unfolding a(4) by (rule dgw_avg_le [OF T(1)]) simp_all
  have "sp_n \<le> tt * 3"
    using clamp_timespan_bounds [of tt "time_at h (Some p) - time_at h (nth_prev h (nPastBlocks - 1) p)"] tt(1) unfolding sp_n_def by linarith
  then have "nat sp_n \<le> 72 * nat (max 150 (nPowTargetSpacing params))"
    by (auto simp: tt_def target_timespan_def nPastBlocks_def nat_le_iff split: if_splits)
  then have "limbs_val avg * nat sp_n \<le> T * (72 * nat (max 150 (nPowTargetSpacing params)))" using avg by (intro mult_mono) simp_all
  then have "limbs_val avg * nat sp_n < 2 ^ 256" using T(2) by (rule le_less_trans)
  then have fit: "limbs_val avg * unat (word_of_int sp_n :: u32) < 2 ^ 256" unfolding un by simp
  have nz: "unat (word_of_int tt :: u64) \<noteq> 0" using tt by simp
  from a256.scale_clamp [OF a(2) lim(1) fit nz] obtain y where
    y: "uint_div (uint_mul32 avg (word_of_int sp_n)) (uint_of_u64 WIDTH (word_of_int tt)) = Inr y" "is_arith256 y"
      "limbs_val (clamp_limit y (UintToArith256 (powLimit params)))
        = min (limbs_val avg * nat sp_n div nat tt) (le_val (powLimit params))"
    unfolding clamp_limit_def un tt(2) lim(2) by blast
  show ?thesis
    using a(1,4) qb y sp_n clamp_limit_val(1) [OF y(2) lim(1)]
    by (intro exI [of _ "clamp_limit y (UintToArith256 (powLimit params))"])
      (simp add: DGW_retarget_def tt_def)
qed

subsection \<open>An example chain of forty blocks\<close>

text \<open>Block \<open>i\<close> has address and height \<open>i\<close>, a block every 100 seconds and target \<open>2^215\<close>.\<close>

definition demo_bits :: u32 where "demo_bits = 0x1d000080"

definition demo_long :: index_store where
  "demo_long i = (if i < 40 then Some (CBlockIndex_SetNull\<lparr>phashBlock := Some (replicate 32 (of_nat i)),
     pprev := (if i = 0 then None else Some (i - 1)),
     pskip := (if i = 0 then None else Some (GetSkipHeight i)),
     nHeight := int i, nTime := of_nat (100 * i), nTimeMax := of_nat (100 * i), nBits := demo_bits,
     nChainWork := uint_of_u64 WIDTH (of_nat ((i + 1) * (2 ^ 41 - 1)))\<rparr>) else None)"

lemma demo_bits_target: "limbs_val (fst (SetCompact demo_bits)) = 2 ^ 215"
  "\<not> fst (snd (SetCompact demo_bits))" "\<not> snd (snd (SetCompact demo_bits))"
proof -
  have "\<not> bit (0x1d000080 :: u32) 23" by code_simp
  then show "limbs_val (fst (SetCompact demo_bits)) = 2 ^ 215"
    "\<not> fst (snd (SetCompact demo_bits))" "\<not> snd (snd (SetCompact demo_bits))"
    using SetCompact_val(2-4) [of demo_bits] by (simp_all add: demo_bits_def)
qed

lemma demo_bits_work: "block_work demo_bits = 2 ^ 41 - 1"
proof -
  have "block_work demo_bits = 2 ^ 256 div (2 ^ 215 + 1)"
    using demo_bits_target by (cases "SetCompact demo_bits") (simp add: block_work_def)
  then show ?thesis by simp
qed

lemma demo_long_prev: "i < 40 \<Longrightarrow> n \<le> i \<Longrightarrow> nth_prev demo_long n i = Some (i - n)"
proof (induction n arbitrary: i)
  case (Suc n)
  then show ?case by (simp add: demo_long_def [of i])
qed (simp add: demo_long_def)

lemma demo_long_work:
  assumes "i < 40"
  shows "limbs_val (uint_of_u64 WIDTH (of_nat ((i + 1) * (2 ^ 41 - 1)))) = (i + 1) * (2 ^ 41 - 1)"
proof -
  have "(i + 1) * (2 ^ 41 - 1) \<le> 40 * (2 ^ 41 - 1)" using assms by (intro mult_right_mono) simp_all
  also have "\<dots> < 2 ^ 64" by simp
  finally show ?thesis by (simp only: a256.val_of_u64 unat_of_nat) simp
qed

lemma demo_long_wf: "wf_index demo_long"
  unfolding wf_index_def
proof (intro allI impI)
  fix p b assume b: "demo_long p = Some b"
  then have p: "p < 40" by (simp add: demo_long_def split: if_splits)
  show "wf_entry demo_long p b"
  proof (cases p)
    case 0
    then show ?thesis
      using b demo_long_work [of 0] a256.wf_of_u64
      by (auto simp: demo_long_def wf_entry_def demo_bits_work)
  next
    case (Suc q)
    have skip: "GetSkipHeight p < p" using Suc by (simp add: GetSkipHeight_less)
    have "nth_prev demo_long (p - GetSkipHeight p) p = Some (GetSkipHeight p)"
      using demo_long_prev [of p "p - GetSkipHeight p"] p skip by simp
    moreover have "(of_nat (100 * p) :: u32) = max (of_nat (100 * q)) (of_nat (100 * p))"
    proof -
      have "unat (of_nat (100 * q) :: u32) \<le> unat (of_nat (100 * p) :: u32)"
        using p Suc by (simp only: unat_of_nat) simp
      then show ?thesis by (simp add: max_def word_le_nat_alt)
    qed
    moreover have "(q + 1) * (2 ^ 41 - 1) + (2 ^ 41 - 1) = (p + 1) * (2 ^ 41 - 1)" using Suc by simp
    moreover have "(p + 1) * (2 ^ 41 - 1) < 2 ^ 256"
      using mult_right_mono [of "p + 1" 40 "2 ^ 41 - 1 :: nat"] p by simp
    moreover have "nat (1 + int q) = Suc q" by simp
    ultimately show ?thesis
      using b p Suc demo_long_work [of p] demo_long_work [of q] a256.wf_of_u64
      by (auto simp: demo_long_def wf_entry_def wf_child_def demo_bits_work)
  qed
qed

definition demo_params :: Params where
  "demo_params = \<lparr>hashGenesisBlock = replicate 32 0, hashDevnetGenesisBlock = replicate 32 0,
     nSubsidyHalvingInterval = 210240, nMasternodePaymentsStartBlock = 1,
     nMasternodePaymentsIncreaseBlock = 1, nMasternodePaymentsIncreasePeriod = 1,
     nDirectSendConfirmationsRequired = 1, nDirectSendKeepLock = 1, nDirectSendSigsRequired = 1,
     nDirectSendSigsTotal = 1, nBudgetPaymentsStartBlock = 1, nBudgetPaymentsCycleBlocks = 1,
     nBudgetPaymentsWindowBlocks = 1, nSuperblockStartBlock = 1, nSuperblockStartHash = replicate 32 0,
     nSuperblockCycle = 1, nGovernanceMinQuorum = 1, nGovernanceFilterElements = 1,
     nMasternodeMinimumConfirmations = 1, BIP34Height = 1, BIP34Hash = replicate 32 0, BIP65Height = 1,
     BIP66Height = 1, DIP0001Height = 1, DIP0003Height = 1, DIP0003EnforcementHeight = 1,
     DIP0003EnforcementHash = replicate 32 0, T3Height = 1, nRuleChangeActivationThreshold = 8,
     nMinerConfirmationWindow = 10,
     vDeployments = (\<lambda>_. \<lparr>dep_bit = 0, nStartTime = 0, nTimeout = 1000000,
       nWindowSize = 10, nThreshold = 8\<rparr>),
     powLimit = replicate 29 255 @ [0, 0, 0], fPowAllowMinDifficultyBlocks = False,
     fPowNoRetargeting = False, nPowTargetSpacing = 60, nPowTargetTimespan = 86400,
     nMinimumChainWork = replicate 32 0, defaultAssumeValid = replicate 32 0, nMinimumDifficultyBlocks = 0,
     nHighSubsidyBlocks = 0, nHighSubsidyFactor = 1, llmqs = Map.empty, llmqChainLocks = LLMQ_NONE,
     llmqForDirectSend = LLMQ_NONE\<rparr>"

lemma demo_params_ok: "DGW_params_ok demo_params"
  by (simp add: DGW_params_ok_def demo_params_def is_uint256_def)

section \<open>Properties\<close>

text \<open>Property C16. The next required target never exceeds the limit of the network, whatever branch of
  \<open>GetNextWorkRequired\<close> and \<open>DarkGravityWave\<close> computes it: the computation neither divides by zero nor fails
  an assertion, and its compact result decodes without flags to at most the limit.\<close>

theorem GetNextWorkRequired_bounded:
  assumes "wf_index h" "h p = Some b" "DGW_params_ok params"
  shows "\<exists>c r. GetNextWorkRequired h p pblock params = Inr c \<and> SetCompact c = (r, False, False) \<and>
     limbs_val r \<le> le_val (powLimit params)"
  using assms by (rule GetNextWorkRequired_le)

theorem GetNextWorkRequired_bounded_witness:
  "\<exists>c r. GetNextWorkRequired demo_long 30 (demo_header [] 0) demo_params = Inr c \<and>
     SetCompact c = (r, False, False) \<and> limbs_val r \<le> le_val (powLimit demo_params)"
  by (rule GetNextWorkRequired_bounded [OF demo_long_wf _ demo_params_ok]) (simp add: demo_long_def)

text \<open>Property C15. The retargeting as a formula: the new target is the running average of the last 24 targets, times the time between the
  first and the last of these blocks, held between a third and three times the target time of 24 blocks, over that target time,
  and at most the limit of the network. The target spacing is 150 seconds below height 226649 and the parameter from there on.
  No product wraps around as long as every target times three times the target time is below \<open>2^256\<close>; with the
  spacing of 60 seconds of the main network this holds for all targets below \<open>2^242\<close>, its limit being below \<open>2^236\<close>.\<close>

theorem DarkGravityWave_formula:
  assumes "wf_index h" "h p = Some b" "24 \<le> nHeight b" "DGW_params_ok params"
    and "nPowTargetSpacing params * 72 < 2 ^ 32" "\<not> fPowAllowMinDifficultyBlocks params"
    and "\<forall>t \<in> set (past_targets h 24 p). t * (72 * nat (max 150 (nPowTargetSpacing params))) < 2 ^ 256"
  shows "let tt = 24 * (if nHeight b < 226649 then 150 else nPowTargetSpacing params);
      elapsed = max (tt div 3) (min (tt * 3) (time_at h (Some p) - time_at h (nth_prev h 23 p)))
    in \<exists>y. DarkGravityWave h (Some p) pblock params = compact_of y \<and> is_arith256 y \<and>
        limbs_val y = min (dgw_avg 1 (past_targets h 24 p) 0 * nat elapsed div nat tt) (le_val (powLimit params))"
proof -
  have eq: "DarkGravityWave h (Some p) pblock params = DGW_retarget h p b params"
    using assms(2,3,6) by (simp add: DarkGravityWave_def nPastBlocks_def)
  have tt: "target_timespan params (nHeight b) = 24 * (if nHeight b < 226649 then 150 else nPowTargetSpacing params)"
    by (simp add: target_timespan_def nPastBlocks_def)
  have "0 \<le> target_timespan params (nHeight b)"
    using target_timespan_word(2) [OF assms(4), of "nHeight b"] by simp
  note cl = clamp_timespan_minmax [OF this [unfolded tt]]
  let ?T = "Max (set (past_targets h nPastBlocks p))"
  have ne: "past_targets h nPastBlocks p \<noteq> []" by (simp add: past_targets_def nPastBlocks_def)
  have T: "t \<le> ?T" if "t \<in> set (past_targets h nPastBlocks p)" for t using that by simp
  have "?T \<in> set (past_targets h 24 p)" using Max_in [of "set (past_targets h nPastBlocks p)"] ne by (simp add: nPastBlocks_def)
  then have "?T * (72 * nat (max 150 (nPowTargetSpacing params))) < 2 ^ 256" using assms(7) by blast
  note B = this
  have "int nPastBlocks \<le> nHeight b" using assms(3) by (simp add: nPastBlocks_def)
  note v = DGW_retarget_val [OF assms(1,2) this assms(4,5) T B]
  have n: "nPastBlocks = 24" "24 - 1 = (23 :: nat)" by (simp_all add: nPastBlocks_def)
  show ?thesis using v unfolding Let_def eq tt n cl by blast
qed

theorem DarkGravityWave_formula_witness:
  "\<exists>y. DarkGravityWave demo_long (Some 30) (demo_header [] 0) demo_params = compact_of y \<and> is_arith256 y \<and>
     limbs_val y = min (2 ^ 215 * 2300 div 3600) (le_val (powLimit demo_params))"
proof -
  obtain b where b: "demo_long 30 = Some b" "nHeight b = 30" by (simp add: demo_long_def)
  have prev: "nth_prev demo_long i 30 = Some (30 - i)" if "i < 24" for i
    using demo_long_prev [of 30 i] that by simp
  have t: "target_at demo_long (nth_prev demo_long i 30) = 2 ^ 215" if "i < 24" for i
    using demo_bits_target(1) that less_imp_diff_less [of 30 40 i] by (simp add: prev target_at_def demo_long_def)
  then have "past_targets demo_long 24 30 = map (\<lambda>_. 2 ^ 215) [0..<24]" unfolding past_targets_def by (intro map_cong) simp_all
  then have past: "past_targets demo_long 24 30 = replicate 24 (2 ^ 215)" by (simp only: map_replicate_const length_upt) simp
  have el: "time_at demo_long (Some 30) - time_at demo_long (nth_prev demo_long 23 30) = 2300"
    using prev [of 23] by (simp add: time_at_def demo_long_def GetBlockTime_def)
  have avg: "dgw_avg 1 (replicate 24 (2 ^ 215)) 0 = 2 ^ 215" by (rule dgw_avg_const) simp
  show ?thesis
    using DarkGravityWave_formula [OF demo_long_wf b(1) _ demo_params_ok, of "demo_header [] 0"] b(2)
    unfolding past el avg Let_def by (simp add: demo_params_def)
qed

text \<open>Property C31. \<open>CheckProofOfWork\<close> accepts a hash exactly when the compact target is positive, fits 256 bits, is
  at most the limit of the network and at least the hash read as a little-endian number.\<close>

theorem CheckProofOfWork_correct:
  assumes "is_uint256 hash" "is_uint256 (powLimit params)"
  shows "CheckProofOfWork hash bits params \<longleftrightarrow>
    (case SetCompact bits of (t, neg, ovf) \<Rightarrow>
       \<not> neg \<and> \<not> ovf \<and> limbs_val t \<noteq> 0 \<and> limbs_val t \<le> le_val (powLimit params) \<and> le_val hash \<le> limbs_val t)"
  using assms by (rule CheckProofOfWork_iff)

theorem CheckProofOfWork_correct_witness:
  "is_uint256 (replicate 32 0) \<and> \<not> CheckProofOfWork (replicate 32 0) 0 demo_params"
proof -
  have "limbs_val (fst (SetCompact 0)) = 0" using SetCompact_val(2) [of 0] by simp
  then show ?thesis
    using CheckProofOfWork_correct [of "replicate 32 0" demo_params 0] demo_params_ok
    by (auto simp: is_uint256_def DGW_params_ok_def split: prod.splits)
qed

end
