(* ===== verification/Versionbits.thy ===== *)
theory Versionbits
  imports Pow
begin

text \<open>
  The BIP9 deployment logic of \<^verbatim>\<open>src/src/versionbits.cpp\<close>: the threshold state machine, its cache and the
  signalling condition. A concrete \<open>AbstractThresholdConditionChecker\<close> is a record of its virtual functions
  applied to the parameters. \<open>ref_state\<close> is the state machine without a cache.
\<close>

datatype ThresholdState =
  THRESHOLD_DEFINED | THRESHOLD_STARTED | THRESHOLD_LOCKED_IN | THRESHOLD_ACTIVE | THRESHOLD_FAILED

type_synonym ThresholdConditionCache = "addr option \<rightharpoonup> ThresholdState"

record checker =
  ck_Condition :: "CBlockIndex \<Rightarrow> bool"
  ck_BeginTime :: int
  ck_EndTime :: int
  ck_Period :: int
  ck_Threshold :: int

definition VERSIONBITS_TOP_BITS :: u32 where "VERSIONBITS_TOP_BITS = 0x20000000"
definition VERSIONBITS_TOP_MASK :: u32 where "VERSIONBITS_TOP_MASK = 0xE0000000"

definition VersionBitsMask :: "Params \<Rightarrow> DeploymentPos \<Rightarrow> u32" where
  "VersionBitsMask params pos = push_bit (dep_bit (vDeployments params pos)) 1"

text \<open>\<open>Period\<close> and \<open>Threshold\<close> return 64-bit members as \<open>int\<close>.\<close>

definition as_int :: "int \<Rightarrow> int" where
  "as_int x = sint (word_of_int x :: u32)"

definition VersionBitsConditionChecker :: "Params \<Rightarrow> DeploymentPos \<Rightarrow> checker" where
  "VersionBitsConditionChecker params pos =
     (let d = vDeployments params pos in
      \<lparr>ck_Condition = (\<lambda>b. nVersion b AND VERSIONBITS_TOP_MASK = VERSIONBITS_TOP_BITS \<and>
                           nVersion b AND VersionBitsMask params pos \<noteq> 0),
       ck_BeginTime = nStartTime d,
       ck_EndTime = nTimeout d,
       ck_Period = as_int (if nWindowSize d \<noteq> 0 then nWindowSize d else uint (nMinerConfirmationWindow params)),
       ck_Threshold = as_int (if nThreshold d \<noteq> 0 then nThreshold d
                              else uint (nRuleChangeActivationThreshold params))\<rparr>)"

text \<open>The loop that counts the signalling blocks of a period; running past the root follows a null pointer.\<close>

fun count_signals :: "index_store \<Rightarrow> checker \<Rightarrow> nat \<Rightarrow> addr option \<Rightarrow> int \<Rightarrow> chain_error + int" where
  "count_signals h ck 0 pindexCount cnt = Inr cnt"
| "count_signals h ck (Suc i) None cnt = Inl BadPointer"
| "count_signals h ck (Suc i) (Some p) cnt =
     bindE (deref BadPointer h p) (\<lambda>b.
       count_signals h ck i (pprev b) (if ck_Condition ck b then cnt + 1 else cnt))"

definition next_state :: "index_store \<Rightarrow> checker \<Rightarrow> ThresholdState \<Rightarrow> addr \<Rightarrow> chain_error + ThresholdState" where
  "next_state h ck state p =
     (case state of
        THRESHOLD_DEFINED \<Rightarrow> bindE (GetMedianTimePast h p) (\<lambda>t.
          Inr (if t \<ge> ck_EndTime ck then THRESHOLD_FAILED
               else if t \<ge> ck_BeginTime ck then THRESHOLD_STARTED else state))
      | THRESHOLD_STARTED \<Rightarrow> bindE (GetMedianTimePast h p) (\<lambda>t.
          if t \<ge> ck_EndTime ck then Inr THRESHOLD_FAILED
          else bindE (count_signals h ck (nat (ck_Period ck)) (Some p) 0) (\<lambda>cnt.
            Inr (if cnt \<ge> ck_Threshold ck then THRESHOLD_LOCKED_IN else state)))
      | THRESHOLD_LOCKED_IN \<Rightarrow> Inr THRESHOLD_ACTIVE
      | THRESHOLD_FAILED \<Rightarrow> Inr state
      | THRESHOLD_ACTIVE \<Rightarrow> Inr state)"

text \<open>The walk back to a block with a known state. The last block pushed is the head of \<open>vToCompute\<close>; the
  heights fall by a period each round.\<close>

fun walk_back ::
    "nat \<Rightarrow> index_store \<Rightarrow> checker \<Rightarrow> addr option \<Rightarrow> ThresholdConditionCache \<Rightarrow> addr list
     \<Rightarrow> chain_error + addr option \<times> ThresholdConditionCache \<times> addr list" where
  "walk_back 0 h ck pindexPrev cache vToCompute = Inl OutOfFuel"
| "walk_back (Suc fuel) h ck pindexPrev cache vToCompute =
     (if cache pindexPrev \<noteq> None then Inr (pindexPrev, cache, vToCompute)
      else case pindexPrev of
        None \<Rightarrow> Inr (None, cache(None \<mapsto> THRESHOLD_DEFINED), vToCompute)
      | Some p \<Rightarrow>
          bindE (GetMedianTimePast h p) (\<lambda>t.
            if t < ck_BeginTime ck then Inr (Some p, cache(Some p \<mapsto> THRESHOLD_DEFINED), vToCompute)
            else bindE (deref BadPointer h p) (\<lambda>b.
              bindE (GetAncestor h p (nHeight b - ck_Period ck)) (\<lambda>q.
                walk_back fuel h ck q cache (p # vToCompute)))))"

fun walk_forward ::
    "index_store \<Rightarrow> checker \<Rightarrow> ThresholdState \<Rightarrow> ThresholdConditionCache \<Rightarrow> addr list
     \<Rightarrow> chain_error + ThresholdState \<times> ThresholdConditionCache" where
  "walk_forward h ck state cache [] = Inr (state, cache)"
| "walk_forward h ck state cache (p # vToCompute) =
     bindE (next_state h ck state p) (\<lambda>stateNext.
       walk_forward h ck stateNext (cache(Some p \<mapsto> stateNext)) vToCompute)"

definition period_start :: "index_store \<Rightarrow> checker \<Rightarrow> addr \<Rightarrow> chain_error + addr option" where
  "period_start h ck p =
     bindE (deref BadPointer h p) (\<lambda>b.
       if ck_Period ck = 0 then Inl (ArithError DivisionByZero)
       else GetAncestor h p (nHeight b - cmod (nHeight b + 1) (ck_Period ck)))"

definition GetStateFor ::
    "index_store \<Rightarrow> checker \<Rightarrow> addr option \<Rightarrow> ThresholdConditionCache
     \<Rightarrow> chain_error + ThresholdState \<times> ThresholdConditionCache" where
  "GetStateFor h ck pindexPrev cache =
     bindE (case pindexPrev of None \<Rightarrow> Inr None | Some p \<Rightarrow> period_start h ck p) (\<lambda>start.
       let fuel = (case start of None \<Rightarrow> 1 | Some a \<Rightarrow> (case h a of None \<Rightarrow> 1 | Some b \<Rightarrow> nat (nHeight b) + 2)) in
       bindE (walk_back fuel h ck start cache []) (\<lambda>(pindexPrev, cache, vToCompute).
         case cache pindexPrev of None \<Rightarrow> Inl AssertFailed
         | Some state \<Rightarrow> walk_forward h ck state cache vToCompute))"

fun since_loop ::
    "nat \<Rightarrow> index_store \<Rightarrow> checker \<Rightarrow> ThresholdState \<Rightarrow> addr \<Rightarrow> ThresholdConditionCache
     \<Rightarrow> chain_error + int \<times> ThresholdConditionCache" where
  "since_loop 0 h ck initialState pindexPrev cache = Inl OutOfFuel"
| "since_loop (Suc fuel) h ck initialState pindexPrev cache =
     bindE (deref BadPointer h pindexPrev) (\<lambda>b.
     bindE (GetAncestor h pindexPrev (nHeight b - ck_Period ck)) (\<lambda>previousPeriodParent.
       case previousPeriodParent of None \<Rightarrow> Inr (nHeight b + 1, cache)
       | Some q \<Rightarrow> bindE (GetStateFor h ck (Some q) cache) (\<lambda>(s, cache).
           if s = initialState then since_loop fuel h ck initialState q cache
           else Inr (nHeight b + 1, cache))))"

definition GetStateSinceHeightFor ::
    "index_store \<Rightarrow> checker \<Rightarrow> addr option \<Rightarrow> ThresholdConditionCache
     \<Rightarrow> chain_error + int \<times> ThresholdConditionCache" where
  "GetStateSinceHeightFor h ck pindexPrev cache =
     bindE (GetStateFor h ck pindexPrev cache) (\<lambda>(initialState, cache).
       if initialState = THRESHOLD_DEFINED then Inr (0, cache)
       else case pindexPrev of None \<Rightarrow> Inl BadPointer
         | Some p \<Rightarrow> bindE (period_start h ck p) (\<lambda>start.
             case start of None \<Rightarrow> Inl BadPointer
             | Some a \<Rightarrow> bindE (deref BadPointer h a) (\<lambda>b.
                 since_loop (nat (nHeight b) + 1) h ck initialState a cache)))"

fun window_loop :: "nat \<Rightarrow> index_store \<Rightarrow> checker \<Rightarrow> int \<Rightarrow> addr option \<Rightarrow> int \<Rightarrow> chain_error + int" where
  "window_loop fuel h ck nStopHeight None cnt = Inr cnt"
| "window_loop 0 h ck nStopHeight (Some p) cnt = Inl OutOfFuel"
| "window_loop (Suc fuel) h ck nStopHeight (Some p) cnt =
     bindE (deref BadPointer h p) (\<lambda>b.
       if nHeight b = nStopHeight then Inr cnt
       else window_loop fuel h ck nStopHeight (pprev b) (if ck_Condition ck b then cnt + 1 else cnt))"

definition CountBlocksInWindow :: "index_store \<Rightarrow> checker \<Rightarrow> addr \<Rightarrow> chain_error + int" where
  "CountBlocksInWindow h ck p =
     bindE (deref BadPointer h p) (\<lambda>b.
       if ck_Period ck = 0 then Inl (ArithError DivisionByZero)
       else window_loop (nat (nHeight b) + 1) h ck (nHeight b - cmod (nHeight b) (ck_Period ck) - 1) (Some p) 0)"

text \<open>The public entry points, with one cache per deployment.\<close>

type_synonym VersionBitsCache = "DeploymentPos \<Rightarrow> ThresholdConditionCache"

definition VersionBitsState ::
    "index_store \<Rightarrow> addr option \<Rightarrow> Params \<Rightarrow> DeploymentPos \<Rightarrow> VersionBitsCache
     \<Rightarrow> chain_error + ThresholdState \<times> VersionBitsCache" where
  "VersionBitsState h pindexPrev params pos caches =
     map_sum id (\<lambda>(s, c). (s, caches(pos := c)))
       (GetStateFor h (VersionBitsConditionChecker params pos) pindexPrev (caches pos))"

definition VersionBitsStateSinceHeight ::
    "index_store \<Rightarrow> addr option \<Rightarrow> Params \<Rightarrow> DeploymentPos \<Rightarrow> VersionBitsCache
     \<Rightarrow> chain_error + int \<times> VersionBitsCache" where
  "VersionBitsStateSinceHeight h pindexPrev params pos caches =
     map_sum id (\<lambda>(n, c). (n, caches(pos := c)))
       (GetStateSinceHeightFor h (VersionBitsConditionChecker params pos) pindexPrev (caches pos))"

definition VersionBitsCountBlocksInWindow ::
    "index_store \<Rightarrow> addr \<Rightarrow> Params \<Rightarrow> DeploymentPos \<Rightarrow> chain_error + int" where
  "VersionBitsCountBlocksInWindow h pindex params pos =
     CountBlocksInWindow h (VersionBitsConditionChecker params pos) pindex"

definition VersionBitsCache_Clear :: VersionBitsCache where
  "VersionBitsCache_Clear = (\<lambda>_. Map.empty)"

section \<open>The reference state machine\<close>

definition mtp :: "index_store \<Rightarrow> addr \<Rightarrow> int" where
  "mtp h p = sort (past_times h p) ! (length (past_times h p) div 2)"

definition signals :: "index_store \<Rightarrow> checker \<Rightarrow> nat \<Rightarrow> addr \<Rightarrow> int" where
  "signals h ck n p = int (card {i. i < n \<and> ck_Condition ck (the (h (the (nth_prev h i p))))})"

definition ref_next :: "index_store \<Rightarrow> checker \<Rightarrow> ThresholdState \<Rightarrow> addr \<Rightarrow> ThresholdState" where
  "ref_next h ck s p =
     (case s of
        THRESHOLD_DEFINED \<Rightarrow> if mtp h p \<ge> ck_EndTime ck then THRESHOLD_FAILED
                             else if mtp h p \<ge> ck_BeginTime ck then THRESHOLD_STARTED else s
      | THRESHOLD_STARTED \<Rightarrow> if mtp h p \<ge> ck_EndTime ck then THRESHOLD_FAILED
                             else if signals h ck (nat (ck_Period ck)) p \<ge> ck_Threshold ck
                             then THRESHOLD_LOCKED_IN else s
      | THRESHOLD_LOCKED_IN \<Rightarrow> THRESHOLD_ACTIVE
      | _ \<Rightarrow> s)"

text \<open>The state after \<open>n\<close> whole periods; \<open>p\<close> is the last block of the \<open>n\<close>-th one.\<close>

fun ref_state :: "index_store \<Rightarrow> checker \<Rightarrow> nat \<Rightarrow> addr \<Rightarrow> ThresholdState" where
  "ref_state h ck 0 p = THRESHOLD_DEFINED"
| "ref_state h ck (Suc n) p =
     (if mtp h p < ck_BeginTime ck then THRESHOLD_DEFINED
      else ref_next h ck (ref_state h ck n (the (nth_prev h (nat (ck_Period ck)) p))) p)"

text \<open>\<open>p\<close> ends the \<open>n\<close>-th period; the null pointer stands before the first one.\<close>

definition ends_period :: "index_store \<Rightarrow> checker \<Rightarrow> nat \<Rightarrow> addr option \<Rightarrow> bool" where
  "ends_period h ck n p \<longleftrightarrow>
     (case p of None \<Rightarrow> n = 0
      | Some a \<Rightarrow> (case h a of None \<Rightarrow> False | Some b \<Rightarrow> nHeight b + 1 = int n * ck_Period ck \<and> 0 < n))"

definition cache_ok :: "index_store \<Rightarrow> checker \<Rightarrow> ThresholdConditionCache \<Rightarrow> bool" where
  "cache_ok h ck c \<longleftrightarrow>
     (\<forall>k s. c k = Some s \<longrightarrow> (\<exists>n. ends_period h ck n k \<and> s = ref_state h ck n (the k)))"

section \<open>The cache agrees with the reference\<close>

lemma GetMedianTimePast_mtp: "wf_index h \<Longrightarrow> h p = Some b \<Longrightarrow> GetMedianTimePast h p = Inr (mtp h p)"
  by (simp add: GetMedianTimePast_val mtp_def)

lemma signals_Suc:
  assumes "h p = Some b" "pprev b = Some q"
  shows "signals h ck (Suc n) p = (if ck_Condition ck b then 1 else 0) + signals h ck n q"
proof -
  let ?A = "{i. i < n \<and> ck_Condition ck (the (h (the (nth_prev h i q))))}"
  have "{i. i < Suc n \<and> ck_Condition ck (the (h (the (nth_prev h i p))))}
      = (if ck_Condition ck b then {0} else {}) \<union> Suc ` ?A" (is "?B = ?C")
  proof (rule set_eqI)
    show "i \<in> ?B \<longleftrightarrow> i \<in> ?C" for i using assms by (cases i) auto
  qed
  moreover have "card (Suc ` ?A) = card ?A" by (rule card_image) simp
  ultimately show ?thesis by (simp add: signals_def)
qed

lemma count_signals_val:
  assumes wf: "wf_index h"
  shows "h p = Some b \<Longrightarrow> int n \<le> nHeight b + 1 \<Longrightarrow>
    count_signals h ck n (Some p) k = Inr (k + signals h ck n p)"
proof (induction n arbitrary: p b k)
  case 0
  then show ?case by (simp add: signals_def)
next
  case (Suc n)
  show ?case
  proof (cases "pprev b")
    case None
    then have "nHeight b = 0" using wf_index_root [OF wf Suc.prems(1)] by simp
    then have "n = 0" using Suc.prems(2) by simp
    then show ?thesis using Suc.prems(1) by (simp add: signals_def Collect_conv_if)
  next
    case (Some q)
    then obtain qb where qb: "h q = Some qb" "nHeight b = nHeight qb + 1"
      using wf Suc.prems(1) wf_index_prev by metis
    then show ?thesis
      using Suc.IH [OF qb(1)] Suc.prems Some signals_Suc [of h p b q ck n] by simp
  qed
qed

lemma next_state_ref:
  assumes "wf_index h" "h p = Some b" "0 < ck_Period ck" "ck_Period ck \<le> nHeight b + 1"
  shows "next_state h ck s p = Inr (ref_next h ck s p)"
  using GetMedianTimePast_mtp [OF assms(1,2)] count_signals_val [OF assms(1,2), of "nat (ck_Period ck)" ck 0] assms(3,4)
  by (auto simp: next_state_def ref_next_def split: ThresholdState.split)

lemma ends_period_bounds:
  assumes "ends_period h ck n (Some p)" "0 < ck_Period ck"
  obtains b where "h p = Some b" "nHeight b + 1 = int n * ck_Period ck" "0 < n" "ck_Period ck \<le> nHeight b + 1"
proof -
  from assms obtain b where b: "h p = Some b" "nHeight b + 1 = int n * ck_Period ck" "0 < n"
    by (auto simp: ends_period_def split: option.splits)
  have "1 * ck_Period ck \<le> int n * ck_Period ck" using b(3) assms(2) by (intro mult_right_mono) auto
  with b that show thesis by simp
qed

lemma ends_period_prev:
  assumes wf: "wf_index h" and e: "ends_period h ck (Suc n) (Some p)" and P: "0 < ck_Period ck"
    and b: "h p = Some b"
  obtains q where "GetAncestor h p (nHeight b - ck_Period ck) = Inr q" "ends_period h ck n q"
    "ref_state h ck n (the q) = ref_state h ck n (the (nth_prev h (nat (ck_Period ck)) p))"
proof -
  have ht: "nHeight b - ck_Period ck = int n * ck_Period ck - 1"
    using e b by (simp add: ends_period_def algebra_simps)
  show thesis
  proof (cases "n = 0")
    case True
    then have "GetAncestor h p (nHeight b - ck_Period ck) = Inr None"
      using GetAncestor_nth_prev [OF wf b, of "nHeight b - ck_Period ck"] ht by simp
    with True that show thesis by (simp add: ends_period_def)
  next
    case False
    have "1 * 1 \<le> int n * ck_Period ck" using False P by (intro mult_mono) auto
    then have ge: "0 \<le> nHeight b - ck_Period ck" using ht by simp
    then have "int (nat (ck_Period ck)) \<le> nHeight b" using P by simp
    then obtain q qb where q: "nth_prev h (nat (ck_Period ck)) p = Some q" "h q = Some qb"
        "nHeight qb = nHeight b - int (nat (ck_Period ck))"
      using nth_prev_Some [OF wf b] by metis
    have "GetAncestor h p (nHeight b - ck_Period ck) = Inr (Some q)"
      using GetAncestor_nth_prev [OF wf b, of "nHeight b - ck_Period ck"] ge q(1) P by simp
    moreover have "ends_period h ck n (Some q)"
      using q ht P False by (simp add: ends_period_def)
    ultimately show thesis using that q(1) by simp
  qed
qed

lemma cache_ok_upd:
  assumes "cache_ok h ck c" "ends_period h ck n k" "s = ref_state h ck n (the k)"
  shows "cache_ok h ck (c(k \<mapsto> s))"
  using assms by (auto simp: cache_ok_def)

lemma ends_period_inj:
  "ends_period h ck n k \<Longrightarrow> ends_period h ck m k \<Longrightarrow> 0 < ck_Period ck \<Longrightarrow> n = m"
  by (auto simp: ends_period_def split: option.splits)

text \<open>What the walk back leaves to compute: the blocks that end the periods after \<open>m\<close> up to \<open>n\<close>.\<close>

fun todo_ok :: "index_store \<Rightarrow> checker \<Rightarrow> nat \<Rightarrow> addr option \<Rightarrow> addr list \<Rightarrow> nat \<Rightarrow> addr option \<Rightarrow> bool" where
  "todo_ok h ck m k [] n a \<longleftrightarrow> m = n \<and> k = a"
| "todo_ok h ck m k (p # ps) n a \<longleftrightarrow>
     ends_period h ck (Suc m) (Some p) \<and> ck_BeginTime ck \<le> mtp h p \<and>
     ref_state h ck m (the k) = ref_state h ck m (the (nth_prev h (nat (ck_Period ck)) p)) \<and>
     todo_ok h ck (Suc m) (Some p) ps n a"

lemma walk_back_ok:
  assumes wf: "wf_index h" and P: "0 < ck_Period ck"
  shows "cache_ok h ck c \<Longrightarrow> ends_period h ck m k \<Longrightarrow> m < fuel \<Longrightarrow> todo_ok h ck m k ps n a \<Longrightarrow>
    \<exists>k' c' ps' m'. walk_back fuel h ck k c ps = Inr (k', c', ps') \<and> cache_ok h ck c' \<and>
      ends_period h ck m' k' \<and> c' k' = Some (ref_state h ck m' (the k')) \<and> todo_ok h ck m' k' ps' n a"
proof (induction fuel arbitrary: k m ps)
  case (Suc fuel)
  show ?case
  proof (cases "c k")
    case (Some s)
    then obtain m' where "ends_period h ck m' k" "s = ref_state h ck m' (the k)"
      using Suc.prems(1) by (auto simp: cache_ok_def)
    moreover have "m' = m" using ends_period_inj [OF calculation(1) Suc.prems(2) P] .
    ultimately show ?thesis using Some Suc.prems by auto
  next
    case None
    show ?thesis
    proof (cases k)
      case [simp]: None
      have "m = 0" using Suc.prems(2) by (simp add: ends_period_def)
      then show ?thesis
        using \<open>c k = None\<close> Suc.prems cache_ok_upd [OF Suc.prems(1,2)] by auto
    next
      case [simp]: (Some p)
      obtain b where b: "h p = Some b" "0 < m"
        using Suc.prems(2) P by (auto elim: ends_period_bounds)
      then obtain m0 where m0: "m = Suc m0" by (cases m) auto
      note med = GetMedianTimePast_mtp [OF wf b(1)]
      show ?thesis
      proof (cases "mtp h p < ck_BeginTime ck")
        case True
        have "ref_state h ck m p = THRESHOLD_DEFINED" using True m0 by simp
        then show ?thesis
          using \<open>c k = None\<close> Suc.prems cache_ok_upd [OF Suc.prems(1,2)] True med by auto
      next
        case False
        obtain q where q: "GetAncestor h p (nHeight b - ck_Period ck) = Inr q" "ends_period h ck m0 q"
            "ref_state h ck m0 (the q) = ref_state h ck m0 (the (nth_prev h (nat (ck_Period ck)) p))"
        proof -
          have "ends_period h ck (Suc m0) (Some p)" using Suc.prems(2) m0 by simp
          from ends_period_prev [OF wf this P b(1)] that show ?thesis by blast
        qed
        have "\<exists>k' c' ps' m'. walk_back fuel h ck q c (p # ps) = Inr (k', c', ps') \<and> cache_ok h ck c' \<and>
            ends_period h ck m' k' \<and> c' k' = Some (ref_state h ck m' (the k')) \<and> todo_ok h ck m' k' ps' n a"
          using Suc.prems m0 q False by (intro Suc.IH) auto
        then show ?thesis using \<open>c k = None\<close> False med b(1) q(1) by simp
      qed
    qed
  qed
qed simp

lemma walk_forward_ok:
  assumes wf: "wf_index h" and P: "0 < ck_Period ck"
  shows "cache_ok h ck c \<Longrightarrow> s = ref_state h ck m (the k) \<Longrightarrow> todo_ok h ck m k ps n a \<Longrightarrow>
    \<exists>c'. walk_forward h ck s c ps = Inr (ref_state h ck n (the a), c') \<and> cache_ok h ck c'"
proof (induction ps arbitrary: k m s c)
  case (Cons p ps)
  obtain b where b: "h p = Some b" "ck_Period ck \<le> nHeight b + 1"
    using Cons.prems(3) P by (auto elim: ends_period_bounds)
  let ?s = "ref_next h ck s p"
  have s: "?s = ref_state h ck (Suc m) p" using Cons.prems(2,3) by auto
  have "cache_ok h ck (c(Some p \<mapsto> ?s))"
    using Cons.prems s by (intro cache_ok_upd [of h ck c "Suc m"]) auto
  moreover have "?s = ref_state h ck (Suc m) (the (Some p))" using s by simp
  moreover have "todo_ok h ck (Suc m) (Some p) ps n a" using Cons.prems(3) by simp
  ultimately have "\<exists>c'. walk_forward h ck ?s (c(Some p \<mapsto> ?s)) ps = Inr (ref_state h ck n (the a), c') \<and> cache_ok h ck c'"
    by (rule Cons.IH)
  then show ?case by (simp only: walk_forward.simps next_state_ref [OF wf b(1) P b(2)] bindE_simps)
qed auto

lemma period_start_ok:
  assumes wf: "wf_index h" and P: "0 < ck_Period ck" and b: "h p = Some b"
  defines "n \<equiv> nat ((nHeight b + 1) div ck_Period ck)"
  shows "\<exists>a. period_start h ck p = Inr a \<and> ends_period h ck n a \<and>
    (0 < n \<longrightarrow> a = nth_prev h (nat ((nHeight b + 1) mod ck_Period ck)) p)"
proof -
  have h0: "0 \<le> nHeight b" using wf_index_height [OF wf b] .
  let ?r = "(nHeight b + 1) mod ck_Period ck"
  have r: "0 \<le> ?r" "?r < ck_Period ck" using P by simp_all
  have nn: "0 \<le> (nHeight b + 1) div ck_Period ck" using P h0 by (simp add: pos_imp_zdiv_nonneg_iff)
  then have n: "int n = (nHeight b + 1) div ck_Period ck" by (simp add: n_def)
  have eq: "nHeight b + 1 = int n * ck_Period ck + ?r" unfolding n by simp
  have G: "period_start h ck p = GetAncestor h p (nHeight b - ?r)"
    using b P h0 by (simp add: period_start_def)
  show ?thesis
  proof (cases "n = 0")
    case True
    then have "nHeight b - ?r = - 1" using eq by simp
    then show ?thesis
      using G GetAncestor_nth_prev [OF wf b, of "- 1"] True by (simp add: ends_period_def)
  next
    case False
    have "1 * 1 \<le> int n * ck_Period ck" using False P by (intro mult_mono) auto
    then have ge: "0 \<le> nHeight b - ?r" using eq by simp
    then have "int (nat ?r) \<le> nHeight b" using r by simp
    then obtain q qb where q: "nth_prev h (nat ?r) p = Some q" "h q = Some qb" "nHeight qb = nHeight b - int (nat ?r)"
      using nth_prev_Some [OF wf b] by metis
    then show ?thesis
      using G GetAncestor_nth_prev [OF wf b, of "nHeight b - ?r"] ge r(1) eq False
      by (auto simp: ends_period_def)
  qed
qed

lemma GetStateFor_ok:
  assumes wf: "wf_index h" and P: "0 < ck_Period ck" and c: "cache_ok h ck c" and b: "h p = Some b"
  defines "n \<equiv> nat ((nHeight b + 1) div ck_Period ck)"
  shows "\<exists>c'. GetStateFor h ck (Some p) c =
      Inr (ref_state h ck n (the (nth_prev h (nat ((nHeight b + 1) mod ck_Period ck)) p)), c') \<and> cache_ok h ck c'"
proof -
  obtain a where a: "period_start h ck p = Inr a" "ends_period h ck n a"
      "0 < n \<longrightarrow> a = nth_prev h (nat ((nHeight b + 1) mod ck_Period ck)) p"
    using period_start_ok [OF wf P b] by (auto simp: n_def)
  define fuel where "fuel = (case a of None \<Rightarrow> 1 | Some x \<Rightarrow> (case h x of None \<Rightarrow> 1 | Some b \<Rightarrow> nat (nHeight b) + 2))"
  have fuel: "n < fuel"
  proof (cases a)
    case (Some x)
    then obtain xb where xb: "h x = Some xb" "nHeight xb + 1 = int n * ck_Period ck" "0 < n"
      using a(2) P ends_period_bounds by metis
    have "int n * 1 \<le> int n * ck_Period ck" using P by (intro mult_left_mono) auto
    then have "int n \<le> nHeight xb + 1" using xb(2) by linarith
    then show ?thesis using Some xb(1) by (simp add: fuel_def)
  qed (use a(2) in \<open>simp add: fuel_def ends_period_def\<close>)
  have "todo_ok h ck n a [] n a" by simp
  from walk_back_ok [OF wf P c a(2) fuel this] obtain k' c' ps' m' where
    w: "walk_back fuel h ck a c [] = Inr (k', c', ps')" "cache_ok h ck c'" "ends_period h ck m' k'"
      "c' k' = Some (ref_state h ck m' (the k'))" "todo_ok h ck m' k' ps' n a" by blast
  from walk_forward_ok [OF wf P w(2) refl w(5)] obtain c'' where
    "walk_forward h ck (ref_state h ck m' (the k')) c' ps' = Inr (ref_state h ck n (the a), c'')" "cache_ok h ck c''"
    by blast
  moreover have "ref_state h ck n (the a)
      = ref_state h ck n (the (nth_prev h (nat ((nHeight b + 1) mod ck_Period ck)) p))"
    using a(3) by (cases n) auto
  ultimately show ?thesis
    using a(1) w(1,4) unfolding GetStateFor_def by (simp add: fuel_def [symmetric])
qed

section \<open>BIP9 without shortcuts\<close>

text \<open>The contextual rule that a block is later than the median time of its predecessors.\<close>

definition times_ok :: "index_store \<Rightarrow> bool" where
  "times_ok h \<longleftrightarrow> (\<forall>p b q. h p = Some b \<longrightarrow> pprev b = Some q \<longrightarrow> mtp h q < GetBlockTime b)"

lemma sort_nth_ge:
  fixes xs :: "int list"
  assumes "k < length xs" "length (filter (\<lambda>x. x < m) xs) \<le> k"
  shows "m \<le> sort xs ! k"
proof (rule ccontr)
  assume "\<not> m \<le> sort xs ! k"
  then have "{..k} \<subseteq> {i. i < length (sort xs) \<and> sort xs ! i < m}"
    using assms(1) sorted_nth_mono [OF sorted_sort [of xs], of _ k] by (fastforce simp: not_le)
  moreover have "finite {i. i < length (sort xs) \<and> sort xs ! i < m}" by simp
  ultimately have "card {..k} \<le> card {i. i < length (sort xs) \<and> sort xs ! i < m}" by (rule card_mono [rotated])
  also have "\<dots> = length (filter (\<lambda>x. x < m) (sort xs))" by (simp only: length_filter_conv_card)
  also have "\<dots> = length (filter (\<lambda>x. x < m) xs)" by (metis filter_sort length_sort)
  finally show False using assms(2) by simp
qed

lemma past_times_Cons:
  assumes wf: "wf_index h" and b: "h p = Some b" "pprev b = Some q"
  shows "past_times h p = GetBlockTime b # take 10 (past_times h q)"
proof -
  obtain qb where qb: "h q = Some qb" "nHeight b = nHeight qb + 1" using wf b wf_index_prev by metis
  have len: "min nMedianTimeSpan (nat (nHeight b) + 1) = Suc (min 10 (nat (nHeight qb) + 1))"
    using qb wf_index_height [OF wf qb(1)] by (simp add: nMedianTimeSpan_def nat_add_distrib)
  have "past_times h p = time_at h (nth_prev h 0 p) #
      map (\<lambda>i. time_at h (nth_prev h (Suc i) p)) [0..<min 10 (nat (nHeight qb) + 1)]"
    unfolding past_times_def b(1) option.sel len
    by (simp only: upt_conv_Cons [OF zero_less_Suc] list.map map_Suc_upt [symmetric] map_map comp_def)
  moreover have "nth_prev h (Suc i) p = nth_prev h i q" for i using b by simp
  moreover have "take 10 (past_times h q) = map (\<lambda>i. time_at h (nth_prev h i q)) [0..<min 10 (nat (nHeight qb) + 1)]"
    unfolding past_times_def qb(1) option.sel
    by (simp add: take_map take_upt min_def nMedianTimeSpan_def del: upt_Suc upt_rec_numeral)
  ultimately show ?thesis using b(1) by (simp add: time_at_def)
qed

lemma past_times_ne: "past_times h p \<noteq> []"
  by (simp add: past_times_def nMedianTimeSpan_def)

lemma mtp_mono:
  assumes wf: "wf_index h" and ok: "times_ok h" and b: "h p = Some b" "pprev b = Some q"
  shows "mtp h q \<le> mtp h p"
proof -
  let ?tp = "past_times h p" and ?tq = "past_times h q"
  have tp: "?tp = GetBlockTime b # take 10 ?tq" by (rule past_times_Cons [OF wf b])
  have later: "mtp h q < GetBlockTime b" using ok b by (auto simp: times_ok_def)
  have k: "length ?tq div 2 < length ?tq" using past_times_ne [of h q] by (cases ?tq) simp_all
  have "length (filter (\<lambda>x. x < mtp h q) ?tp) = length (filter (\<lambda>x. x < mtp h q) (take 10 ?tq))"
    using tp later by simp
  also have "\<dots> \<le> length (filter (\<lambda>x. x < mtp h q) ?tq)"
    by (metis append_take_drop_id filter_append le_add1 length_append)
  also have "\<dots> \<le> length ?tq div 2" using sort_nth_median(2) [OF k] by (simp add: mtp_def)
  also have "\<dots> \<le> length ?tp div 2"
  proof (rule div_le_mono)
    have "length ?tq \<le> 11" by (simp add: past_times_def nMedianTimeSpan_def)
    then show "length ?tq \<le> length ?tp" unfolding tp by simp
  qed
  finally have le: "length (filter (\<lambda>x. x < mtp h q) ?tp) \<le> length ?tp div 2" .
  have "length ?tp div 2 < length ?tp" using past_times_ne [of h p] by (cases ?tp) simp_all
  from sort_nth_ge [OF this le] show ?thesis by (simp add: mtp_def [of h p])
qed

lemma mtp_mono_prev:
  assumes "wf_index h" "times_ok h"
  shows "nth_prev h n p = Some q \<Longrightarrow> mtp h q \<le> mtp h p"
proof (induction n arbitrary: p)
  case (Suc n)
  then obtain b r where "h p = Some b" "pprev b = Some r" "nth_prev h n r = Some q"
    by (auto split: option.splits)
  with Suc.IH mtp_mono [OF assms] show ?case by (meson order_trans)
qed (auto split: option.splits)

fun plain_state :: "index_store \<Rightarrow> checker \<Rightarrow> nat \<Rightarrow> addr \<Rightarrow> ThresholdState" where
  "plain_state h ck 0 p = THRESHOLD_DEFINED"
| "plain_state h ck (Suc n) p = ref_next h ck (plain_state h ck n (the (nth_prev h (nat (ck_Period ck)) p))) p"

lemma ends_period_prev_Some:
  assumes wf: "wf_index h" and e: "ends_period h ck (Suc n) (Some p)" and P: "0 < ck_Period ck" and n: "0 < n"
  obtains q where "nth_prev h (nat (ck_Period ck)) p = Some q" "ends_period h ck n (Some q)"
proof -
  obtain b where b: "h p = Some b" "nHeight b + 1 = int (Suc n) * ck_Period ck"
    using e P ends_period_bounds by metis
  have "1 * 1 \<le> int n * ck_Period ck" using n P by (intro mult_mono) auto
  then have "ck_Period ck \<le> nHeight b" using b(2) by (simp add: algebra_simps)
  then have "int (nat (ck_Period ck)) \<le> nHeight b" using P by simp
  then obtain q qb where q: "nth_prev h (nat (ck_Period ck)) p = Some q" "h q = Some qb"
      "nHeight qb = nHeight b - int (nat (ck_Period ck))"
    using nth_prev_Some [OF wf b(1)] by metis
  then have "ends_period h ck n (Some q)" using b n P by (simp add: ends_period_def algebra_simps)
  with q(1) that show thesis by blast
qed

lemma ref_state_plain:
  assumes wf: "wf_index h" and ok: "times_ok h" and P: "0 < ck_Period ck"
    and T: "ck_BeginTime ck \<le> ck_EndTime ck"
  shows "ends_period h ck n (Some p) \<Longrightarrow> ref_state h ck n p = plain_state h ck n p \<and>
    (mtp h p < ck_BeginTime ck \<longrightarrow> plain_state h ck n p = THRESHOLD_DEFINED)"
proof (induction n arbitrary: p)
  case (Suc n)
  let ?q = "the (nth_prev h (nat (ck_Period ck)) p)"
  show ?case
  proof (cases "n = 0")
    case True
    then show ?thesis using T by (auto simp: ref_next_def)
  next
    case False
    then obtain q where q: "nth_prev h (nat (ck_Period ck)) p = Some q" "ends_period h ck n (Some q)"
      using ends_period_prev_Some [OF wf Suc.prems P] by blast
    have "mtp h q \<le> mtp h p" by (rule mtp_mono_prev [OF wf ok q(1)])
    with Suc.IH [OF q(2)] q(1) T show ?thesis by (auto simp: ref_next_def)
  qed
qed simp

text \<open>The transitions of BIP9 from one period to the next.\<close>

inductive bip9_step :: "ThresholdState \<Rightarrow> ThresholdState \<Rightarrow> bool" where
  stay_defined: "bip9_step THRESHOLD_DEFINED THRESHOLD_DEFINED"
| start: "bip9_step THRESHOLD_DEFINED THRESHOLD_STARTED"
| expire: "bip9_step THRESHOLD_DEFINED THRESHOLD_FAILED"
| stay_started: "bip9_step THRESHOLD_STARTED THRESHOLD_STARTED"
| lock_in: "bip9_step THRESHOLD_STARTED THRESHOLD_LOCKED_IN"
| fail: "bip9_step THRESHOLD_STARTED THRESHOLD_FAILED"
| activate: "bip9_step THRESHOLD_LOCKED_IN THRESHOLD_ACTIVE"
| stay_active: "bip9_step THRESHOLD_ACTIVE THRESHOLD_ACTIVE"
| stay_failed: "bip9_step THRESHOLD_FAILED THRESHOLD_FAILED"

code_pred bip9_step .

inductive_cases bip9_step_activeE: "bip9_step THRESHOLD_ACTIVE s"
inductive_cases bip9_step_failedE: "bip9_step THRESHOLD_FAILED s"

lemma ref_next_step: "bip9_step s (ref_next h ck s p)"
  by (auto simp: ref_next_def intro: bip9_step.intros split: ThresholdState.split)

lemma active_terminal: "bip9_step\<^sup>*\<^sup>* s s' \<Longrightarrow> s = THRESHOLD_ACTIVE \<Longrightarrow> s' = THRESHOLD_ACTIVE"
  by (induction rule: rtranclp_induct) (auto elim: bip9_step_activeE)

lemma plain_state_steps:
  assumes wf: "wf_index h" and P: "0 < ck_Period ck"
  shows "ends_period h ck (m + n) (Some p) \<Longrightarrow> 0 < m \<Longrightarrow>
    \<exists>q. nth_prev h (n * nat (ck_Period ck)) p = Some q \<and> ends_period h ck m (Some q) \<and>
      bip9_step\<^sup>*\<^sup>* (plain_state h ck m q) (plain_state h ck (m + n) p)"
proof (induction n arbitrary: p)
  case 0
  then show ?case by (auto simp: ends_period_def split: option.splits)
next
  case (Suc n)
  obtain r where r: "nth_prev h (nat (ck_Period ck)) p = Some r" "ends_period h ck (m + n) (Some r)"
    using ends_period_prev_Some [OF wf _ P, of "m + n" p] Suc.prems by auto
  from Suc.IH [OF r(2) Suc.prems(2)] obtain q where q: "nth_prev h (n * nat (ck_Period ck)) r = Some q"
      "ends_period h ck m (Some q)" "bip9_step\<^sup>*\<^sup>* (plain_state h ck m q) (plain_state h ck (m + n) r)" by blast
  have "nth_prev h (Suc n * nat (ck_Period ck)) p = Some q"
    using nth_prev_trans [OF r(1), of "n * nat (ck_Period ck)"] q(1) by simp
  moreover have "bip9_step (plain_state h ck (m + n) r) (plain_state h ck (m + Suc n) p)"
    using ref_next_step [of "plain_state h ck (m + n) r" h ck p] r(1) by simp
  ultimately show ?case using q(2,3) by (auto intro: rtranclp.rtrancl_into_rtrancl)
qed

text \<open>The BIP9 state of the block after \<open>p\<close>.\<close>

definition bip9_state :: "index_store \<Rightarrow> checker \<Rightarrow> addr \<Rightarrow> ThresholdState" where
  "bip9_state h ck p =
     (let ht = nHeight (the (h p)) in
      plain_state h ck (nat ((ht + 1) div ck_Period ck)) (the (nth_prev h (nat ((ht + 1) mod ck_Period ck)) p)))"

definition checker_ok :: "checker \<Rightarrow> bool" where
  "checker_ok ck \<longleftrightarrow> 0 < ck_Period ck \<and> ck_BeginTime ck \<le> ck_EndTime ck"

lemma period_start_Some:
  assumes wf: "wf_index h" and P: "0 < ck_Period ck" and b: "h p = Some b"
    and n: "0 < nat ((nHeight b + 1) div ck_Period ck)"
  obtains a where "period_start h ck p = Inr (Some a)"
    "ends_period h ck (nat ((nHeight b + 1) div ck_Period ck)) (Some a)"
    "nth_prev h (nat ((nHeight b + 1) mod ck_Period ck)) p = Some a"
proof -
  obtain a where a: "period_start h ck p = Inr a" "ends_period h ck (nat ((nHeight b + 1) div ck_Period ck)) a"
      "a = nth_prev h (nat ((nHeight b + 1) mod ck_Period ck)) p"
    using period_start_ok [OF wf P b] n by blast
  have "a \<noteq> None"
  proof
    assume "a = None"
    then show False using a(2) n by (simp add: ends_period_def)
  qed
  then obtain q where "a = Some q" by blast
  with a that show thesis by metis
qed

lemma GetStateFor_bip9:
  assumes wf: "wf_index h" and ok: "times_ok h" and ck: "checker_ok ck" and c: "cache_ok h ck c"
    and b: "h p = Some b"
  shows "\<exists>c'. GetStateFor h ck (Some p) c = Inr (bip9_state h ck p, c') \<and> cache_ok h ck c'"
proof -
  have P: "0 < ck_Period ck" and T: "ck_BeginTime ck \<le> ck_EndTime ck" using ck by (simp_all add: checker_ok_def)
  let ?n = "nat ((nHeight b + 1) div ck_Period ck)" and ?r = "nat ((nHeight b + 1) mod ck_Period ck)"
  have "ref_state h ck ?n (the (nth_prev h ?r p)) = plain_state h ck ?n (the (nth_prev h ?r p))"
  proof (cases "?n = 0")
    case False
    then obtain a where "ends_period h ck ?n (Some a)" "nth_prev h ?r p = Some a"
      using period_start_Some [OF wf P b] by blast
    then show ?thesis using ref_state_plain [OF wf ok P T] by simp
  qed simp
  then show ?thesis
    using GetStateFor_ok [OF wf P c b] b by (simp add: bip9_state_def Let_def)
qed

lemma bip9_state_active:
  assumes wf: "wf_index h" and P: "0 < ck_Period ck" and b: "h p = Some b" and q: "nth_prev h k p = Some q"
    and act: "bip9_state h ck q = THRESHOLD_ACTIVE"
  shows "bip9_state h ck p = THRESHOLD_ACTIVE"
proof -
  obtain qb where qb: "h q = Some qb" using nth_prev_Some_heap [OF q] by blast
  have hq: "nHeight qb = nHeight b - int k" "int k \<le> nHeight b" using nth_prev_height [OF wf b q qb] by simp_all
  define m n where "m = nat ((nHeight qb + 1) div ck_Period ck)" and "n = nat ((nHeight b + 1) div ck_Period ck)"
  define rq rp where "rq = nat ((nHeight qb + 1) mod ck_Period ck)" and "rp = nat ((nHeight b + 1) mod ck_Period ck)"
  have actq: "plain_state h ck m (the (nth_prev h rq q)) = THRESHOLD_ACTIVE"
    using act qb by (simp add: bip9_state_def Let_def m_def rq_def)
  then have m0: "0 < m" by (cases m) simp_all
  have nn: "0 \<le> (nHeight qb + 1) div ck_Period ck" "0 \<le> (nHeight b + 1) div ck_Period ck"
    using P hq wf_index_height [OF wf b] wf_index_height [OF wf qb] by (simp_all add: pos_imp_zdiv_nonneg_iff)
  have eqs: "nHeight qb + 1 = int m * ck_Period ck + int rq" "nHeight b + 1 = int n * ck_Period ck + int rp"
    using P nn by (simp_all add: m_def n_def rq_def rp_def)
  have "(nHeight qb + 1) div ck_Period ck \<le> (nHeight b + 1) div ck_Period ck"
    using hq P by (intro zdiv_mono1) simp_all
  then have mn: "m \<le> n" by (simp add: m_def n_def nat_mono)
  obtain ap where ap: "ends_period h ck n (Some ap)" "nth_prev h rp p = Some ap"
    using period_start_Some [OF wf P b] m0 mn unfolding n_def [symmetric] rp_def [symmetric]
    by (metis less_le_trans)
  from plain_state_steps [OF wf P, of m "n - m" ap] ap(1) mn m0 obtain aq where
    aq: "nth_prev h ((n - m) * nat (ck_Period ck)) ap = Some aq"
      "bip9_step\<^sup>*\<^sup>* (plain_state h ck m aq) (plain_state h ck n ap)" by auto
  have "int ((n - m) * nat (ck_Period ck)) = (int n - int m) * ck_Period ck" using mn P by (simp add: of_nat_diff)
  then have "int (rp + (n - m) * nat (ck_Period ck)) = int (k + rq)"
    using eqs hq(1) unfolding of_nat_add by (simp add: algebra_simps)
  then have "nth_prev h rq q = Some aq"
    using nth_prev_trans [OF ap(2)] nth_prev_trans [OF q, of rq] aq(1) by (metis of_nat_eq_iff)
  then have "plain_state h ck n ap = THRESHOLD_ACTIVE" using active_terminal [OF aq(2)] actq by simp
  then show ?thesis using b ap(2) by (simp add: bip9_state_def Let_def n_def rp_def)
qed

subsection \<open>Caches survive a growing index\<close>

lemma nth_prev_in_old:
  assumes "wf_index h" "h a = None" "h p = Some b" "int n \<le> nHeight b"
  shows "(h(a \<mapsto> x)) (the (nth_prev (h(a \<mapsto> x)) n p)) = h (the (nth_prev h n p))"
proof -
  have "p \<noteq> a" using assms by auto
  moreover obtain q qb where "nth_prev h n p = Some q" "h q = Some qb"
    using nth_prev_Some [OF assms(1,3,4)] by blast
  ultimately show ?thesis using assms(1,2) by (auto simp: nth_prev_update_new)
qed

lemma mtp_update_new:
  assumes wf: "wf_index h" and new: "h a = None" and b: "h p = Some b"
  shows "mtp (h(a \<mapsto> x)) p = mtp h p"
proof -
  have "p \<noteq> a" using new b by auto
  have "time_at (h(a \<mapsto> x)) (nth_prev (h(a \<mapsto> x)) i p) = time_at h (nth_prev h i p)"
    if "i < min nMedianTimeSpan (nat (nHeight b) + 1)" for i
  proof -
    have "int i \<le> nHeight b" using that wf_index_height [OF wf b] by auto
    from nth_prev_in_old [OF wf new b this] show ?thesis by (simp add: time_at_def del: fun_upd_apply)
  qed
  then have "past_times (h(a \<mapsto> x)) p = past_times h p"
    using b \<open>p \<noteq> a\<close> unfolding past_times_def by (intro map_cong) auto
  then show ?thesis by (simp add: mtp_def)
qed

lemma ends_period_update_new:
  "h a = None \<Longrightarrow> ends_period h ck n k \<Longrightarrow> ends_period (h(a \<mapsto> x)) ck n k"
  by (auto simp: ends_period_def split: option.splits)

lemma ref_state_update_new:
  assumes wf: "wf_index h" and new: "h a = None" and P: "0 < ck_Period ck"
  shows "ends_period h ck n (Some p) \<Longrightarrow> ref_state (h(a \<mapsto> x)) ck n p = ref_state h ck n p"
proof (induction n arbitrary: p)
  case (Suc n)
  obtain b where b: "h p = Some b" "ck_Period ck \<le> nHeight b + 1" using Suc.prems P ends_period_bounds by metis
  have pa: "p \<noteq> a" using b new by auto
  let ?h = "h(a \<mapsto> x)"
  have m: "mtp ?h p = mtp h p" by (rule mtp_update_new [OF wf new b(1)])
  have "?h (the (nth_prev ?h i p)) = h (the (nth_prev h i p))" if "i < nat (ck_Period ck)" for i
    using nth_prev_in_old [OF wf new b(1), of i x] that b(2) by simp
  then have s: "signals ?h ck (nat (ck_Period ck)) p = signals h ck (nat (ck_Period ck)) p"
    unfolding signals_def by (intro arg_cong [where f = int] arg_cong [where f = card]) (auto simp del: fun_upd_apply)
  have nx: "ref_next ?h ck st p = ref_next h ck st p" for st
    by (simp add: ref_next_def m s cong: ThresholdState.case_cong)
  have np: "nth_prev ?h (nat (ck_Period ck)) p = nth_prev h (nat (ck_Period ck)) p"
    by (rule nth_prev_update_new [OF wf new pa])
  have "ref_state ?h ck n (the (nth_prev h (nat (ck_Period ck)) p)) = ref_state h ck n (the (nth_prev h (nat (ck_Period ck)) p))"
  proof (cases "n = 0")
    case False
    then show ?thesis using ends_period_prev_Some [OF wf Suc.prems P] Suc.IH by (metis gr0I option.sel)
  qed simp
  then show ?case using m nx np by (simp del: fun_upd_apply)
qed simp

lemma cache_ok_update_new:
  assumes wf: "wf_index h" and new: "h a = None" and P: "0 < ck_Period ck" and c: "cache_ok h ck c"
  shows "cache_ok (h(a \<mapsto> x)) ck c"
  unfolding cache_ok_def
proof (intro allI impI)
  fix k s assume "c k = Some s"
  then obtain n where n: "ends_period h ck n k" "s = ref_state h ck n (the k)"
    using c by (auto simp: cache_ok_def)
  have "ref_state (h(a \<mapsto> x)) ck n (the k) = ref_state h ck n (the k)"
  proof (cases k)
    case None
    then show ?thesis using n(1) by (simp add: ends_period_def)
  next
    case (Some p)
    then show ?thesis using ref_state_update_new [OF wf new P, of n p x] n(1) by simp
  qed
  then show "\<exists>n. ends_period (h(a \<mapsto> x)) ck n k \<and> s = ref_state (h(a \<mapsto> x)) ck n (the k)"
    using n ends_period_update_new [of h a ck n k x] new by auto
qed

lemma times_ok_update_new:
  assumes wf: "wf_index h" and new: "h a = None" and ok: "times_ok h"
    and b: "pprev b = Some q" "h q = Some qb" "mtp h q < GetBlockTime b"
  shows "times_ok (h(a \<mapsto> b))"
  unfolding times_ok_def
proof (intro allI impI)
  fix p pb r assume p: "(h(a \<mapsto> b)) p = Some pb" "pprev pb = Some r"
  show "mtp (h(a \<mapsto> b)) r < GetBlockTime pb"
  proof (cases "p = a")
    case True
    then show ?thesis using p b mtp_update_new [OF wf new b(2), of b] by simp
  next
    case False
    then have "h p = Some pb" using p(1) by simp
    then obtain rb where "h r = Some rb" using wf_index_prev [OF wf _ p(2)] by metis
    then show ?thesis using mtp_update_new [OF wf new, of r rb b] ok \<open>h p = Some pb\<close> p(2) by (simp add: times_ok_def)
  qed
qed

lemma bip9_state_update_new:
  assumes wf: "wf_index h" "wf_index (h(a \<mapsto> x))" and new: "h a = None" and ok: "times_ok h" "times_ok (h(a \<mapsto> x))"
    and ck: "checker_ok ck" and b: "h p = Some b"
  shows "bip9_state (h(a \<mapsto> x)) ck p = bip9_state h ck p"
proof -
  have P: "0 < ck_Period ck" and T: "ck_BeginTime ck \<le> ck_EndTime ck" using ck by (simp_all add: checker_ok_def)
  let ?h = "h(a \<mapsto> x)" and ?n = "nat ((nHeight b + 1) div ck_Period ck)" and ?r = "nat ((nHeight b + 1) mod ck_Period ck)"
  have pa: "p \<noteq> a" using b new by auto
  have "plain_state ?h ck ?n (the (nth_prev h ?r p)) = plain_state h ck ?n (the (nth_prev h ?r p))"
  proof (cases "?n = 0")
    case False
    then obtain e where e: "ends_period h ck ?n (Some e)" "nth_prev h ?r p = Some e"
      using period_start_Some [OF wf(1) P b] by blast
    then show ?thesis
      using ref_state_plain [OF wf(1) ok(1) P T e(1)] ref_state_plain [OF wf(2) ok(2) P T ends_period_update_new [of h a ck, OF new e(1)]]
        ref_state_update_new [OF wf(1) new P e(1), of x] by simp
  qed simp
  then show ?thesis using b pa nth_prev_update_new [OF wf(1) new pa, of x] by (simp add: bip9_state_def Let_def del: fun_upd_apply) simp
qed

lemma bip9_state_child:
  assumes wf: "wf_index h" and P: "0 < ck_Period ck" and a: "h a = Some b" "pprev b = Some q" "h q = Some qb"
  shows "bip9_state h ck a =
    (if (nHeight qb + 2) mod ck_Period ck = 0 then ref_next h ck (bip9_state h ck q) a else bip9_state h ck q)"
proof -
  let ?P = "ck_Period ck" and ?k = "nHeight qb + 1"
  have k: "nHeight b = ?k" "0 < ?k" using wf_index_prev [OF wf a(1,2)] a(3) wf_index_height [OF wf a(3)] by auto
  have prev: "nth_prev h (Suc i) a = nth_prev h i q" for i using a by simp
  have two: "nHeight qb + 2 = ?k + 1" by simp
  show ?thesis
  proof (cases "(?k + 1) mod ?P = 0")
    case True
    then have "?P dvd ?k + 1" by (rule mod_0_imp_dvd)
    then obtain d where d: "?k + 1 = ?P * d" by (rule dvdE)
    have dpos: "0 < d" using d k(2) P by (metis add_pos_pos zero_less_mult_pos zero_less_one)
    have kd: "?k = ?P * (d - 1) + (?P - 1)" using d by (simp add: algebra_simps)
    have km: "?k mod ?P = ?P - 1" "?k div ?P = d - 1" using P int_mod_pos_eq [OF kd] int_div_pos_eq [OF kd] by simp_all
    have n: "nat d = Suc (nat (d - 1))" "nat ?P = Suc (nat (?P - 1))" using dpos P by simp_all
    have "bip9_state h ck a = plain_state h ck (nat d) a" using a(1) k(1) d P by (simp add: bip9_state_def)
    also have "\<dots> = ref_next h ck (plain_state h ck (nat (d - 1)) (the (nth_prev h (nat (?P - 1)) q))) a"
      unfolding n(1) plain_state.simps n(2) prev ..
    also have "plain_state h ck (nat (d - 1)) (the (nth_prev h (nat (?P - 1)) q)) = bip9_state h ck q"
      using a(3) km by (simp add: bip9_state_def)
    finally show ?thesis unfolding two using True by (simp only: if_True refl)
  next
    case False
    let ?r = "?k mod ?P"
    have r: "?k + 1 = ?P * (?k div ?P) + (?r + 1)" "0 \<le> ?r" "?r < ?P" using P by simp_all
    have "?r + 1 \<noteq> ?P"
    proof
      assume "?r + 1 = ?P"
      then have "?k + 1 = ?P * (?k div ?P + 1)" using r(1) by (simp add: algebra_simps)
      then show False using False by (metis mod_mult_self1_is_0)
    qed
    then have "(?k + 1) mod ?P = ?r + 1" "(?k + 1) div ?P = ?k div ?P"
      using int_mod_pos_eq [OF r(1)] int_div_pos_eq [OF r(1)] r(2,3) by simp_all
    moreover have "nat (?k mod ?P + 1) = Suc (nat (?k mod ?P))" using P by (simp add: nat_add_distrib)
    ultimately have "bip9_state h ck a = bip9_state h ck q" using a k(1) prev by (simp add: bip9_state_def Let_def del: nth_prev.simps)
    then show ?thesis unfolding two using False by (simp only: if_False)
  qed
qed

lemma new_header_state:
  assumes wf: "wf_tree t" and ok: "times_ok (index t)" and ck: "checker_ok ck" and c: "cache_ok (index t) ck c"
    and new: "index t a = None" "GetHash block \<noteq> hdr_hashPrevBlock block" "mapBlockIndex t (GetHash block) = None" and st: "status_arg s"
    and q: "mapBlockIndex t (hdr_hashPrevBlock block) = Some q" "index t q = Some qb" and m: "mtp (index t) q < uint (hdr_nTime block)"
  shows "\<exists>t' sq cq sa ca. AddToBlockIndex GetHash a t block s = Inr (t', a) \<and> times_ok (index t') \<and>
      GetStateFor (index t) ck (Some q) c = Inr (sq, cq) \<and> cache_ok (index t') ck cq \<and>
      GetStateFor (index t') ck (Some a) cq = Inr (sa, ca) \<and>
      sa = (if (nHeight qb + 2) mod ck_Period ck = 0 then ref_next (index t') ck sq a else sq)"
proof -
  let ?h = "index t"
  have P: "0 < ck_Period ck" using ck by (simp add: checker_ok_def)
  have wfi: "wf_index ?h" using wf by (simp add: wf_tree_def)
  from AddToBlockIndex_new [where GetHash = GetHash, OF wf new st] obtain t' b where
    t': "AddToBlockIndex GetHash a t block s = Inr (t', a)" "entry_of t block (GetHash block) b" "index t' = ?h(a \<mapsto> b)" by blast
  have b: "pprev b = Some q" "GetBlockTime b = uint (hdr_nTime block)" using t'(2) q(1) by (simp_all add: entry_of_def GetBlockTime_def)
  have wft': "wf_index (?h(a \<mapsto> b))"
    using AddToBlockIndex_wf_tree [where GetHash = GetHash, OF wf new(1,2) st] t'(1,3) by (auto simp: wf_tree_def)
  have ok': "times_ok (?h(a \<mapsto> b))" using times_ok_update_new [OF wfi new(1) ok b(1) q(2)] b(2) m by simp
  obtain cq where cq: "GetStateFor ?h ck (Some q) c = Inr (bip9_state ?h ck q, cq)" "cache_ok ?h ck cq"
    using GetStateFor_bip9 [OF wfi ok ck c q(2)] by blast
  have cq': "cache_ok (?h(a \<mapsto> b)) ck cq" by (rule cache_ok_update_new [OF wfi new(1) P cq(2)])
  have ha: "(?h(a \<mapsto> b)) a = Some b" "(?h(a \<mapsto> b)) q = Some qb" using q(2) new(1) by auto
  obtain ca where ca: "GetStateFor (?h(a \<mapsto> b)) ck (Some a) cq = Inr (bip9_state (?h(a \<mapsto> b)) ck a, ca)"
    using GetStateFor_bip9 [OF wft' ok' ck cq' ha(1)] by blast
  have "bip9_state (?h(a \<mapsto> b)) ck a = (if (nHeight qb + 2) mod ck_Period ck = 0
      then ref_next (?h(a \<mapsto> b)) ck (bip9_state ?h ck q) a else bip9_state ?h ck q)"
    using bip9_state_child [OF wft' P ha(1) b(1) ha(2)] bip9_state_update_new [OF wfi wft' new(1) ok ok' ck q(2)] by (simp only:)
  then show ?thesis using t'(1) ok' cq(1) cq' ca
    by (intro exI [of _ t'] exI [of _ "bip9_state ?h ck q"] exI [of _ cq] exI [of _ "bip9_state (?h(a \<mapsto> b)) ck a"] exI [of _ ca] conjI)
      (simp_all only: t'(3))
qed

subsection \<open>The height a state began at\<close>

lemma ends_period_state:
  assumes "ends_period h ck n (Some p)" "0 < ck_Period ck"
  shows "bip9_state h ck p = plain_state h ck n p"
proof -
  obtain b where b: "h p = Some b" "nHeight b + 1 = int n * ck_Period ck"
    using assms ends_period_bounds by metis
  then show ?thesis using assms(2) by (simp add: bip9_state_def Let_def)
qed

text \<open>\<open>q\<close> is the block that ends the \<open>m\<close>-th period below the end \<open>p\<close> of the \<open>n\<close>-th.\<close>

definition period_end :: "index_store \<Rightarrow> checker \<Rightarrow> nat \<Rightarrow> addr \<Rightarrow> nat \<Rightarrow> addr" where
  "period_end h ck n p m = the (nth_prev h ((n - m) * nat (ck_Period ck)) p)"

lemma since_loop_ok:
  assumes wf: "wf_index h" and ok: "times_ok h" and ck: "checker_ok ck"
  shows "cache_ok h ck c \<Longrightarrow> ends_period h ck n (Some p) \<Longrightarrow> n \<le> fuel \<Longrightarrow> plain_state h ck n p = s \<Longrightarrow>
    \<exists>m c'. since_loop fuel h ck s p c = Inr (int m * ck_Period ck, c') \<and> cache_ok h ck c' \<and> 0 < m \<and> m \<le> n \<and>
      (\<forall>j. m \<le> j \<and> j \<le> n \<longrightarrow> plain_state h ck j (period_end h ck n p j) = s) \<and>
      (m = 1 \<or> plain_state h ck (m - 1) (period_end h ck n p (m - 1)) \<noteq> s)"
proof (induction fuel arbitrary: n p c)
  case 0
  then show ?case by (auto simp: ends_period_def split: option.splits)
next
  case (Suc fuel)
  have P: "0 < ck_Period ck" using ck by (simp add: checker_ok_def)
  obtain b where b: "h p = Some b" "nHeight b + 1 = int n * ck_Period ck" "0 < n"
    using Suc.prems(2) P ends_period_bounds by metis
  have here: "plain_state h ck j (period_end h ck n p j) = s" if "n \<le> j" "j \<le> n" for j
    using that Suc.prems(4) b(1) by (simp add: period_end_def)
  obtain n0 where n0: "n = Suc n0" using b(3) by (cases n) auto
  have e: "ends_period h ck (Suc n0) (Some p)" using Suc.prems(2) n0 by simp
  show ?case
  proof (cases "n0 = 0")
    case True
    then have "nHeight b - ck_Period ck = - 1" using b(2) n0 by simp
    then have "since_loop (Suc fuel) h ck s p c = Inr (nHeight b + 1, c)"
      using b(1) GetAncestor_nth_prev [OF wf b(1), of "- 1"] by simp
    then show ?thesis
      using True n0 b(2) here Suc.prems(1) by (intro exI [of _ 1] exI [of _ c]) auto
  next
    case False
    then obtain q where q: "nth_prev h (nat (ck_Period ck)) p = Some q" "ends_period h ck n0 (Some q)"
      using ends_period_prev_Some [OF wf e P] by blast
    then obtain qb where qb: "h q = Some qb" using nth_prev_Some_heap by blast
    have "0 \<le> nHeight b - ck_Period ck"
      using nth_prev_height [OF wf b(1) q(1) qb] P by simp
    then have anc: "GetAncestor h p (nHeight b - ck_Period ck) = Inr (Some q)"
      using GetAncestor_nth_prev [OF wf b(1), of "nHeight b - ck_Period ck"] q(1) P by simp
    obtain c1 where c1: "GetStateFor h ck (Some q) c = Inr (plain_state h ck n0 q, c1)" "cache_ok h ck c1"
      using GetStateFor_bip9 [OF wf ok ck Suc.prems(1) qb] ends_period_state [OF q(2) P] by auto
    have pe: "period_end h ck n p j = period_end h ck n0 q j" if "j \<le> n0" for j
      using nth_prev_trans [OF q(1), of "(n0 - j) * nat (ck_Period ck)"] that n0
      by (simp add: period_end_def Suc_diff_le)
    show ?thesis
    proof (cases "plain_state h ck n0 q = s")
      case True
      from Suc.IH [OF c1(2) q(2) _ True] Suc.prems(3) n0 obtain m c' where
        m: "since_loop fuel h ck s q c1 = Inr (int m * ck_Period ck, c')" "cache_ok h ck c'" "0 < m" "m \<le> n0"
          "\<forall>j. m \<le> j \<and> j \<le> n0 \<longrightarrow> plain_state h ck j (period_end h ck n0 q j) = s"
          "m = 1 \<or> plain_state h ck (m - 1) (period_end h ck n0 q (m - 1)) \<noteq> s" by auto
      have "plain_state h ck j (period_end h ck n p j) = s" if "m \<le> j" "j \<le> n" for j
        using that m(5) here [of j] pe n0 by (cases "j \<le> n0") auto
      moreover have "m = 1 \<or> plain_state h ck (m - 1) (period_end h ck n p (m - 1)) \<noteq> s"
        using m(4,6) pe [of "m - 1"] by auto
      ultimately show ?thesis
        using m(1-4) b(1) anc c1(1) True n0 by (intro exI [of _ m] exI [of _ c']) auto
    next
      case F: False
      have "period_end h ck n p n0 = q" using pe [of n0] q qb by (simp add: period_end_def)
      then show ?thesis
        using F b(1,2) anc c1 n0 False here by (intro exI [of _ n] exI [of _ c1]) auto
    qed
  qed
qed

lemma mtp_in_past: "mtp h p \<in> set (past_times h p)"
  using past_times_ne [of h p] sort_nth_median(1) [of "length (past_times h p) div 2" "past_times h p"]
  by (cases "past_times h p") (simp_all add: mtp_def)

lemma demo_long_at:
  assumes "demo_long p = Some b"
  shows "p < 40" "GetBlockTime b = 100 * int p" "pprev b = (if p = 0 then None else Some (p - 1))"
proof -
  show p: "p < 40" using assms by (rule_tac ccontr) (simp add: demo_long_def)
  have t: "nTime b = of_nat (100 * p)" and "pprev b = (if p = 0 then None else Some (p - 1))"
    using assms p by (auto simp: demo_long_def)
  then show "pprev b = (if p = 0 then None else Some (p - 1))" by simp
  have "unat (of_nat (100 * p) :: u32) = 100 * p" using p by (simp only: unat_of_nat) simp
  then show "GetBlockTime b = 100 * int p" using t by (simp only: GetBlockTime_def uint_nat of_nat_mult of_nat_numeral)
qed

lemma demo_long_mtp:
  assumes "p < 40" shows "0 \<le> mtp demo_long p \<and> mtp demo_long p \<le> 100 * int p"
proof -
  have len: "nat (nHeight (the (demo_long p))) = p" using assms by (simp add: demo_long_def)
  have "0 \<le> x \<and> x \<le> 100 * int p" if x: "x \<in> set (past_times demo_long p)" for x
  proof -
    from x obtain i where i: "i \<le> p" "x = time_at demo_long (nth_prev demo_long i p)"
      unfolding past_times_def len by (fastforce simp: less_Suc_eq_le)
    have "p - i < 40" using assms by simp
    then obtain b where b: "demo_long (p - i) = Some b" unfolding demo_long_def by simp
    then have "time_at demo_long (Some (p - i)) = 100 * int (p - i)"
      using demo_long_at(2) [OF b] by (simp add: time_at_def)
    then show ?thesis using i demo_long_prev [of p i] assms by simp
  qed
  then show ?thesis using mtp_in_past by blast
qed

lemma demo_long_times: "times_ok demo_long"
  unfolding times_ok_def
proof (intro allI impI)
  fix p b q assume b: "demo_long p = Some b" "pprev b = Some q"
  have "q = p - 1" "0 < p" using b(2) demo_long_at(3) [OF b(1)] by (auto split: if_splits)
  then show "mtp demo_long q < GetBlockTime b"
    using demo_long_mtp [of q] demo_long_at(1,2) [OF b(1)] by (cases p) simp_all
qed

definition demo_checker :: checker where
  "demo_checker = VersionBitsConditionChecker demo_params DEPLOYMENT_CSV"

lemma demo_checker_ok: "checker_ok demo_checker"
  by (simp add: checker_ok_def demo_checker_def VersionBitsConditionChecker_def demo_params_def as_int_def)

lemma cache_ok_empty: "cache_ok h ck Map.empty"
  by (simp add: cache_ok_def)

definition demo_long_tree :: block_tree where
  "demo_long_tree = \<lparr>index = demo_long, mapBlockIndex = map_of (map (\<lambda>i. (replicate 32 (of_nat i), i)) [0..<40]), pindexBestHeader = Some 39,
     setDirtyBlockIndex = {}, mapPrevBlockIndex = map (\<lambda>i. (replicate 32 (of_nat (i - 1)), i)) [1..<40]\<rparr>"

definition demo_vote :: checker where
  "demo_vote = \<lparr>ck_Condition = (\<lambda>_. True), ck_BeginTime = 0, ck_EndTime = 2 ^ 40, ck_Period = 20, ck_Threshold = 15\<rparr>"

lemma demo_long_hash: "i < 40 \<Longrightarrow> j < 40 \<Longrightarrow> (replicate 32 (of_nat i :: u8) = replicate 32 (of_nat j)) = (i = j)"
  by (simp add: word_of_nat_eq_iff take_bit_nat_def)

lemma demo_long_map: "mapBlockIndex demo_long_tree x = Some p \<longleftrightarrow> p < 40 \<and> x = replicate 32 (of_nat p)"
proof -
  have "distinct (map fst (map (\<lambda>i. (replicate 32 (of_nat i :: u8), i)) [0..<40]))"
    using demo_long_hash by (simp add: distinct_map inj_on_def)
  then show ?thesis by (auto simp: demo_long_tree_def)
qed

lemma demo_long_tree_wf: "wf_tree demo_long_tree"
proof -
  have best: "best_header_ok demo_long (Some 39)"
  proof -
    have "limbs_val (nChainWork b) \<le> limbs_val (nChainWork c)" if "demo_long p = Some b" "demo_long 39 = Some c" for p b c
    proof -
      have "p < 40" "limbs_val (nChainWork b) = (p + 1) * (2 ^ 41 - 1)" "limbs_val (nChainWork c) = 40 * (2 ^ 41 - 1)"
        using that demo_long_work [of p] demo_long_work [of 39] by (auto simp: demo_long_def split: if_splits)
      then show ?thesis by simp
    qed
    moreover obtain c where "demo_long 39 = Some c" by (simp add: demo_long_def)
    ultimately show ?thesis unfolding best_header_ok_def by auto
  qed
  have hash: "(\<exists>b. demo_long p = Some b \<and> phashBlock b = Some x) \<longleftrightarrow> p < 40 \<and> x = replicate 32 (of_nat p)" for p x
    by (auto simp: demo_long_def)
  have prev: "(\<exists>b q qb. demo_long p = Some b \<and> pprev b = Some q \<and> demo_long q = Some qb \<and> phashBlock qb = Some x) \<longleftrightarrow>
      0 < p \<and> p < 40 \<and> x = replicate 32 (of_nat (p - 1))" for p x
    by (auto simp: demo_long_def)
  have "(x, p) \<in> set (mapPrevBlockIndex demo_long_tree) \<longleftrightarrow> 0 < p \<and> p < 40 \<and> x = replicate 32 (of_nat (p - 1))" for p x
    by (auto simp: demo_long_tree_def)
  then show ?thesis unfolding wf_tree_def using best demo_long_wf hash prev demo_long_map by (simp add: demo_long_tree_def)
qed

lemma demo_long_tree_known: "mapBlockIndex demo_long_tree (replicate 32 38) = Some 38"
  using demo_long_map [of "replicate 32 38" 38] by simp

section \<open>Properties\<close>

text \<open>Property C9. With any cache that holds only right answers, \<open>GetStateFor\<close> returns the state that BIP9
  computes period by period from the genesis block, without cache and without the start-time shortcut, and
  again leaves a cache of right answers. The shortcut is sound because median times never decrease.\<close>

theorem GetStateFor_correct:
  assumes "wf_index h" "times_ok h" "checker_ok ck" "cache_ok h ck c" "h p = Some b"
  shows "\<exists>c'. GetStateFor h ck (Some p) c = Inr (bip9_state h ck p, c') \<and> cache_ok h ck c'"
  using assms by (rule GetStateFor_bip9)

theorem GetStateFor_correct_witness:
  "\<exists>c'. GetStateFor demo_long demo_checker (Some 35) Map.empty = Inr (bip9_state demo_long demo_checker 35, c')"
proof -
  obtain b where "demo_long 35 = Some b" by (simp add: demo_long_def)
  from GetStateFor_correct [OF demo_long_wf demo_long_times demo_checker_ok cache_ok_empty this] show ?thesis by blast
qed

text \<open>Property C26. Once a deployment is active at some block it is active at every descendant, whatever caches the
  two queries use.\<close>

theorem GetStateFor_active_forever:
  assumes "wf_index h" "times_ok h" "checker_ok ck" "cache_ok h ck c" "cache_ok h ck c'"
    and "h p = Some b" "nth_prev h k p = Some q"
    and "GetStateFor h ck (Some q) c = Inr (THRESHOLD_ACTIVE, d)"
  shows "\<exists>d'. GetStateFor h ck (Some p) c' = Inr (THRESHOLD_ACTIVE, d')"
proof -
  obtain qb where qb: "h q = Some qb" using nth_prev_Some_heap [OF assms(7)] by blast
  have "bip9_state h ck q = THRESHOLD_ACTIVE" using GetStateFor_bip9 [OF assms(1-4) qb] assms(8) by simp
  then have "bip9_state h ck p = THRESHOLD_ACTIVE"
    using bip9_state_active [OF assms(1) _ assms(6,7)] assms(3) by (simp add: checker_ok_def)
  then show ?thesis using GetStateFor_bip9 [OF assms(1-3,5,6)] by auto
qed

theorem GetStateFor_active_forever_witness:
  "\<exists>h ck p q c d d'. GetStateFor h ck (Some q) c = Inr (THRESHOLD_ACTIVE, d) \<and> nth_prev h 1 p = Some q \<and>
     GetStateFor h ck (Some p) c = Inr (THRESHOLD_ACTIVE, d')"
proof -
  let ?ck = "\<lparr>ck_Condition = (\<lambda>_. True), ck_BeginTime = 0, ck_EndTime = 100000, ck_Period = 10, ck_Threshold = 8\<rparr>"
  have ck: "checker_ok ?ck" by (simp add: checker_ok_def)
  obtain b qb where b: "demo_long 30 = Some b" "demo_long 29 = Some qb" "nHeight qb = 29" by (simp add: demo_long_def)
  have prev: "nth_prev demo_long 10 29 = Some 19" "nth_prev demo_long 10 19 = Some 9"
    "nth_prev demo_long 0 29 = Some 29" "nth_prev demo_long 1 30 = Some 29"
    using demo_long_prev [of 29 10] demo_long_prev [of 19 10] demo_long_prev [of 29 0] demo_long_prev [of 30 1] by simp_all
  have sig: "signals demo_long ?ck 10 p = 10" for p by (simp add: signals_def)
  have "plain_state demo_long ?ck (Suc (Suc (Suc 0))) 29 = THRESHOLD_ACTIVE"
    using demo_long_mtp [of 9] demo_long_mtp [of 19] by (simp add: prev ref_next_def sig)
  moreover have "plain_state demo_long ?ck 3 29 = plain_state demo_long ?ck (Suc (Suc (Suc 0))) 29"
    by (simp only: numeral_3_eq_3)
  ultimately have "bip9_state demo_long ?ck 29 = THRESHOLD_ACTIVE"
    using b(2,3) prev(3) by (simp add: bip9_state_def Let_def)
  then obtain d where d: "GetStateFor demo_long ?ck (Some 29) Map.empty = Inr (THRESHOLD_ACTIVE, d)"
    using GetStateFor_bip9 [OF demo_long_wf demo_long_times ck cache_ok_empty b(2)] by auto
  from GetStateFor_active_forever [OF demo_long_wf demo_long_times ck cache_ok_empty cache_ok_empty b(1) prev(4) d] d prev(4)
  show ?thesis by blast
qed

lemma bip9_state_decided:
  assumes "h p = Some b" "0 < ck_Period ck" "ck_Period ck \<le> nHeight b + 1"
    and "nth_prev h (nat ((nHeight b + 1) mod ck_Period ck)) p = Some a" "ck_EndTime ck \<le> mtp h a"
  shows "bip9_state h ck p \<in> {THRESHOLD_FAILED, THRESHOLD_ACTIVE}"
proof -
  have "0 < (nHeight b + 1) div ck_Period ck" using assms(2,3) by (simp add: pos_imp_zdiv_pos_iff)
  then obtain n where n: "nat ((nHeight b + 1) div ck_Period ck) = Suc n" by (metis gr0_conv_Suc zero_less_nat_eq)
  have "ref_next h ck s a \<in> {THRESHOLD_FAILED, THRESHOLD_ACTIVE}" for s
    using assms(5) by (cases s) (simp_all add: ref_next_def)
  then show ?thesis using assms(1,4) n by (simp add: bip9_state_def Let_def)
qed

text \<open>Property C28. The vote on a deployment ends: as soon as a whole period has passed and the median time at its last block has reached the
  timeout, \<open>GetStateFor\<close> returns failed or active, which are final, and no state in which the vote is still open.\<close>

theorem GetStateFor_decided:
  assumes "wf_index h" "times_ok h" "checker_ok ck" "cache_ok h ck c" "h p = Some b" "ck_Period ck \<le> nHeight b + 1"
    and "nth_prev h (nat ((nHeight b + 1) mod ck_Period ck)) p = Some a" "GetMedianTimePast h a = Inr t" "ck_EndTime ck \<le> t"
  shows "\<exists>s c'. GetStateFor h ck (Some p) c = Inr (s, c') \<and> s \<in> {THRESHOLD_FAILED, THRESHOLD_ACTIVE}"
proof -
  obtain ab where "h a = Some ab" using nth_prev_Some_heap [OF assms(7)] by blast
  then have "mtp h a = t" using GetMedianTimePast_mtp [OF assms(1)] assms(8) by simp
  then have "bip9_state h ck p \<in> {THRESHOLD_FAILED, THRESHOLD_ACTIVE}"
    using bip9_state_decided [OF assms(5) _ assms(6,7)] assms(3,9) by (simp add: checker_ok_def)
  then show ?thesis using GetStateFor_bip9 [OF assms(1-5)] by blast
qed

theorem GetStateFor_decided_witness:
  "\<exists>s c'. GetStateFor demo_long \<lparr>ck_Condition = (\<lambda>_. False), ck_BeginTime = 0, ck_EndTime = 0, ck_Period = 10, ck_Threshold = 8\<rparr> (Some 29) Map.empty = Inr (s, c') \<and>
     s \<in> {THRESHOLD_FAILED, THRESHOLD_ACTIVE}"
proof -
  let ?ck = "\<lparr>ck_Condition = (\<lambda>_. False), ck_BeginTime = 0, ck_EndTime = 0, ck_Period = 10, ck_Threshold = 8\<rparr>"
  have ck: "checker_ok ?ck" by (simp add: checker_ok_def)
  obtain b where b: "demo_long 29 = Some b" "nHeight b = 29" by (simp add: demo_long_def)
  have t: "GetMedianTimePast demo_long 29 = Inr (mtp demo_long 29)" using GetMedianTimePast_mtp [OF demo_long_wf b(1)] .
  show ?thesis
    by (rule GetStateFor_decided [OF demo_long_wf demo_long_times ck cache_ok_empty b(1) _ _ t])
      (use b(2) demo_long_prev [of 29 0] demo_long_mtp [of 29] in simp_all)
qed

text \<open>Property C27. Version-bits caches need no invalidation when headers arrive. A header that is already known changes nothing.
  A new one on the entry \<open>q\<close>, later than the median time there, is added as \<open>a\<close>, and with the cache that the query for \<open>q\<close> left in
  the old index \<open>GetStateFor\<close> returns for \<open>a\<close> in the new one the state it returned for \<open>q\<close>, moved on by one transition exactly
  when \<open>a\<close> ends a period.\<close>

theorem caches_survive_new_headers:
  assumes "wf_tree t" "times_ok (index t)" "checker_ok ck" "cache_ok (index t) ck c"
    and "index t a = None" "GetHash block \<noteq> hdr_hashPrevBlock block" "status_arg s"
    and "mapBlockIndex t (hdr_hashPrevBlock block) = Some q" "index t q = Some qb"
    and "GetMedianTimePast (index t) q = Inr m" "m < uint (hdr_nTime block)"
  shows "case mapBlockIndex t (GetHash block) of
      Some p \<Rightarrow> AddToBlockIndex GetHash a t block s = Inr (t, p)
    | None \<Rightarrow> \<exists>t' sq cq sa ca. AddToBlockIndex GetHash a t block s = Inr (t', a) \<and> times_ok (index t') \<and>
        GetStateFor (index t) ck (Some q) c = Inr (sq, cq) \<and> cache_ok (index t') ck cq \<and>
        GetStateFor (index t') ck (Some a) cq = Inr (sa, ca) \<and>
        sa = (if (nHeight qb + 2) mod ck_Period ck = 0 then ref_next (index t') ck sq a else sq)"
proof (cases "mapBlockIndex t (GetHash block)")
  case None
  have "wf_index (index t)" using assms(1) by (simp add: wf_tree_def)
  from GetMedianTimePast_mtp [OF this assms(9)] have "mtp (index t) q < uint (hdr_nTime block)" using assms(10,11) by simp
  then show ?thesis
    using new_header_state [where GetHash = GetHash, OF assms(1-6) None assms(7-9)] None by simp
qed (simp add: AddToBlockIndex_def)

theorem caches_survive_new_headers_witness:
  "\<exists>t' c c'. GetStateFor demo_long demo_vote (Some 38) Map.empty = Inr (THRESHOLD_STARTED, c) \<and>
     AddToBlockIndex demo_hash 40 demo_long_tree ((demo_header (replicate 32 38) 7)\<lparr>hdr_nTime := 5000\<rparr>) BLOCK_VALID_TREE = Inr (t', 40) \<and>
     GetStateFor (index t') demo_vote (Some 40) c = Inr (THRESHOLD_LOCKED_IN, c')"
proof -
  let ?b = "(demo_header (replicate 32 38) 7)\<lparr>hdr_nTime := 5000\<rparr>"
  have hd: "hdr_hashPrevBlock ?b = replicate 32 38" "hdr_nTime ?b = 5000" "demo_hash ?b = 7 # replicate 31 0"
    by (simp_all add: demo_header_def demo_hash_def)
  have ne: "7 # replicate 31 0 \<noteq> replicate 32 (x :: u8)" for x
  proof
    assume eq: "7 # replicate 31 0 = replicate 32 x"
    have "x = replicate 32 x ! 0" "x = replicate 32 x ! 1" by simp_all
    then have "x = 7" "x = 0" unfolding eq [symmetric] by simp_all
    then show False by simp
  qed
  then have absent: "mapBlockIndex demo_long_tree (demo_hash ?b) = None" using demo_long_map [of "demo_hash ?b"] hd(3)
    by (metis not_None_eq)
  have ck: "checker_ok demo_vote" by (simp add: checker_ok_def demo_vote_def)
  have st: "status_arg BLOCK_VALID_TREE" by (simp add: status_arg_def block_status_defs)
  obtain qb where qb: "demo_long 38 = Some qb" "nHeight qb = 38" by (simp add: demo_long_def)
  have m: "GetMedianTimePast demo_long 38 = Inr (mtp demo_long 38)" using GetMedianTimePast_mtp [OF demo_long_wf qb(1)] .
  have "bip9_state demo_long demo_vote 38 = THRESHOLD_STARTED"
    using qb demo_long_prev [of 38 19] demo_long_mtp [of 19]
    by (simp add: bip9_state_def demo_vote_def ref_next_def)
  then obtain c0 where c0: "GetStateFor demo_long demo_vote (Some 38) Map.empty = Inr (THRESHOLD_STARTED, c0)"
    using GetStateFor_bip9 [OF demo_long_wf demo_long_times ck cache_ok_empty qb(1)] by auto
  have lt: "mtp h p < 2 ^ 32" for h p
  proof -
    have "uint (x :: u32) < 2 ^ 32" for x using uint_lt2p [of x] by simp
    then show ?thesis using mtp_in_past [of h p] by (auto simp: past_times_def time_at_def GetBlockTime_def)
  qed
  have nx: "ref_next h demo_vote THRESHOLD_STARTED p = THRESHOLD_LOCKED_IN" for h p
    using lt [of h p] by (simp add: ref_next_def demo_vote_def signals_def)
  have ix: "index demo_long_tree = demo_long" "demo_long 40 = None" by (simp_all add: demo_long_tree_def demo_long_def)
  have time: "mtp demo_long 38 < uint (hdr_nTime ?b)" using demo_long_mtp [of 38] hd(2) by simp
  from caches_survive_new_headers [where GetHash = demo_hash and block = ?b and t = demo_long_tree and a = 40 and s = BLOCK_VALID_TREE
      and q = 38, unfolded ix hd(1,3) absent [unfolded hd(3)], OF demo_long_tree_wf demo_long_times ck cache_ok_empty _ ne st demo_long_tree_known qb(1) m time]
  have "\<exists>t' ca. AddToBlockIndex demo_hash 40 demo_long_tree ?b BLOCK_VALID_TREE = Inr (t', 40) \<and>
      GetStateFor (index t') demo_vote (Some 40) c0 = Inr (ref_next (index t') demo_vote THRESHOLD_STARTED 40, ca)"
    using ix(2) c0 qb(2) by (auto simp: demo_vote_def)
  then show ?thesis using c0 nx by metis
qed

lemma window_loop_val:
  assumes wf: "wf_index h"
  shows "h p = Some b \<Longrightarrow> int n \<le> nHeight b + 1 \<Longrightarrow> nat (nHeight b) < fuel \<Longrightarrow>
    window_loop fuel h ck (nHeight b - int n) (Some p) k = Inr (k + signals h ck n p)"
proof (induction fuel arbitrary: p b n k)
  case (Suc fuel)
  show ?case
  proof (cases n)
    case 0
    then show ?thesis using Suc.prems(1) by (simp add: signals_def)
  next
    case (Suc m)
    show ?thesis
    proof (cases "pprev b")
      case None
      then have "nHeight b = 0" "m = 0" using wf_index_root [OF wf Suc.prems(1)] Suc.prems(2) Suc by auto
      moreover have "signals h ck 1 p = (if ck_Condition ck b then 1 else 0)"
      proof -
        have "{i. i < Suc 0 \<and> ck_Condition ck (the (h (the (nth_prev h i p))))} = (if ck_Condition ck b then {0} else {})"
          using Suc.prems(1) by auto
        then show ?thesis by (simp add: signals_def)
      qed
      ultimately show ?thesis using Suc.prems(1) None Suc by simp
    next
      case (Some q)
      obtain qb where qb: "h q = Some qb" "nHeight b = nHeight qb + 1" using wf_index_prev [OF wf Suc.prems(1) Some] by metis
      have "window_loop fuel h ck (nHeight qb - int m) (Some q) k' = Inr (k' + signals h ck m q)" for k'
        using Suc.prems(2,3) qb wf_index_height [OF wf qb(1)] \<open>n = Suc m\<close> by (intro Suc.IH) auto
      then show ?thesis using Suc.prems(1) Some qb(2) signals_Suc [where h = h and p = p and q = q and ck = ck and n = m, OF Suc.prems(1) Some] \<open>n = Suc m\<close> by simp
    qed
  qed
qed simp

text \<open>\<open>CountBlocksInWindow\<close> counts the signalling blocks from the first one of the present period to \<open>p\<close>.\<close>

lemma CountBlocksInWindow_correct:
  assumes "wf_index h" "0 < ck_Period ck" "h p = Some b"
  shows "CountBlocksInWindow h ck p = Inr (signals h ck (nat (nHeight b mod ck_Period ck) + 1) p)"
proof -
  have m: "0 \<le> nHeight b mod ck_Period ck" "nHeight b mod ck_Period ck \<le> nHeight b" "0 \<le> nHeight b"
    using assms(2) wf_index_height [OF assms(1,3)] by (auto intro: zmod_le_nonneg_dividend)
  have "CountBlocksInWindow h ck p = window_loop (nat (nHeight b) + 1) h ck (nHeight b - cmod (nHeight b) (ck_Period ck) - 1) (Some p) 0"
    using assms(2,3) by (simp add: CountBlocksInWindow_def del: window_loop.simps)
  also have "nHeight b - cmod (nHeight b) (ck_Period ck) - 1 = nHeight b - int (nat (nHeight b mod ck_Period ck) + 1)"
    using m assms(2) by simp
  also have "window_loop (nat (nHeight b) + 1) h ck \<dots> (Some p) 0 = Inr (0 + signals h ck (nat (nHeight b mod ck_Period ck) + 1) p)"
    using m by (intro window_loop_val [OF assms(1,3)]) auto
  finally show ?thesis by simp
qed

text \<open>\<open>GetStateSinceHeightFor\<close> returns zero for a deployment still defined and otherwise the first
  height of the run of periods that share the present state.\<close>

theorem GetStateSinceHeightFor_correct:
  assumes "wf_index h" "times_ok h" "checker_ok ck" "cache_ok h ck c" "h p = Some b"
  shows "\<exists>ht c'. GetStateSinceHeightFor h ck (Some p) c = Inr (ht, c') \<and> cache_ok h ck c' \<and>
    (let s = bip9_state h ck p; n = nat ((nHeight b + 1) div ck_Period ck);
         e = the (nth_prev h (nat ((nHeight b + 1) mod ck_Period ck)) p) in
     if s = THRESHOLD_DEFINED then ht = 0
     else (\<exists>m. ht = int m * ck_Period ck \<and> 0 < m \<and> m \<le> n \<and>
       (\<forall>j. m \<le> j \<and> j \<le> n \<longrightarrow> plain_state h ck j (period_end h ck n e j) = s) \<and>
       (m = 1 \<or> plain_state h ck (m - 1) (period_end h ck n e (m - 1)) \<noteq> s)))"
proof -
  have P: "0 < ck_Period ck" using assms(3) by (simp add: checker_ok_def)
  let ?s = "bip9_state h ck p" and ?n = "nat ((nHeight b + 1) div ck_Period ck)"
  obtain c1 where c1: "GetStateFor h ck (Some p) c = Inr (?s, c1)" "cache_ok h ck c1"
    using GetStateFor_bip9 [OF assms] by blast
  show ?thesis
  proof (cases "?s = THRESHOLD_DEFINED")
    case True
    then show ?thesis using c1 by (simp add: GetStateSinceHeightFor_def)
  next
    case False
    have n: "0 < ?n"
    proof (rule ccontr)
      assume "\<not> 0 < ?n"
      then show False using False assms(5) by (simp add: bip9_state_def Let_def)
    qed
    obtain a where a: "period_start h ck p = Inr (Some a)" "ends_period h ck ?n (Some a)"
        "nth_prev h (nat ((nHeight b + 1) mod ck_Period ck)) p = Some a"
      using period_start_Some [OF assms(1) P assms(5) n] by blast
    then obtain ab where ab: "h a = Some ab" "nHeight ab + 1 = int ?n * ck_Period ck"
      using P ends_period_bounds by metis
    have "int ?n * 1 \<le> int ?n * ck_Period ck" using P by (intro mult_left_mono) auto
    then have fuel: "?n \<le> nat (nHeight ab) + 1" using ab(2) by linarith
    have "plain_state h ck ?n a = ?s" using a(3) assms(5) by (simp add: bip9_state_def Let_def)
    from since_loop_ok [OF assms(1-3) c1(2) a(2) fuel this] obtain m c' where mc:
      "since_loop (nat (nHeight ab) + 1) h ck ?s a c1 = Inr (int m * ck_Period ck, c')" "cache_ok h ck c'" "0 < m" "m \<le> ?n"
      "\<forall>j. m \<le> j \<and> j \<le> ?n \<longrightarrow> plain_state h ck j (period_end h ck ?n a j) = ?s"
      "m = 1 \<or> plain_state h ck (m - 1) (period_end h ck ?n a (m - 1)) \<noteq> ?s" by (elim exE conjE) (rule that; assumption)
    then show ?thesis
      using c1(1) False a(1,3) ab(1) unfolding GetStateSinceHeightFor_def Let_def
      by (intro exI [of _ "int m * ck_Period ck"] exI [of _ c']) auto
  qed
qed

theorem GetStateSinceHeightFor_correct_witness:
  "\<exists>ht c'. GetStateSinceHeightFor demo_long demo_checker (Some 35) Map.empty = Inr (ht, c')"
proof -
  obtain b where "demo_long 35 = Some b" by (simp add: demo_long_def)
  from GetStateSinceHeightFor_correct [OF demo_long_wf demo_long_times demo_checker_ok cache_ok_empty this]
  show ?thesis by blast
qed

end
