(* ===== verification/Block_Hash.thy ===== *)
theory Block_Hash
  imports Serialize
begin

text \<open>
  The Merkle-Damgard hashers of \<^verbatim>\<open>src/src/crypto\<close>: \<^verbatim>\<open>sha256.cpp\<close>, \<^verbatim>\<open>sha512.cpp\<close>, \<^verbatim>\<open>sha1.cpp\<close>, \<^verbatim>\<open>ripemd160.cpp\<close>
  and the keyed hashes \<^verbatim>\<open>hmac_sha256.cpp\<close>, \<^verbatim>\<open>hmac_sha512.cpp\<close>. A hasher object is a record of its chaining
  words, its buffer and its byte counter. The unrolled calls of \<open>Round\<close> are a loop over the table of the round
  constants in which round \<open>i\<close> passes register \<open>j - i\<close> for argument \<open>j\<close>, as the permuted argument lists of the
  source do, and updates one of the sixteen schedule words.
  The locale \<open>block_hasher\<close> proves once that the buffering of \<open>Write\<close> is invisible: however the input is cut into
  pieces, the chaining words are those of the whole message. The compression functions of SHA-256 and SHA-512 are
  compared with the definition of FIPS 180-4.
\<close>

subsection \<open>Buffered writing\<close>

record 'w hasher =
  h_s :: "'w list"
  h_buf :: bytes
  h_bytes :: u64

definition memcpy_at :: "bytes \<Rightarrow> nat \<Rightarrow> bytes \<Rightarrow> bytes" where
  "memcpy_at buf off src = take off buf @ src @ drop (off + length src) buf"

text \<open>The loop over the full chunks of the input; the rest of the input is the second result.\<close>

function full_chunks :: "nat \<Rightarrow> ('w list \<Rightarrow> bytes \<Rightarrow> 'w list) \<Rightarrow> 'w list \<Rightarrow> bytes \<Rightarrow> 'w list \<times> bytes" where
  "full_chunks B tr s data =
     (if 0 < B \<and> B \<le> length data then full_chunks B tr (tr s (take B data)) (drop B data) else (s, data))"
  by pat_completeness auto
termination
  by (relation "measure (\<lambda>(B, tr, s, data). length data)") auto

declare full_chunks.simps [simp del]

text \<open>Fill the buffer and process it; the results are the object, the rest of the input and \<open>bufsize\<close>.\<close>

definition fill_buffer ::
  "nat \<Rightarrow> ('w list \<Rightarrow> bytes \<Rightarrow> 'w list) \<Rightarrow> 'w hasher \<Rightarrow> bytes \<Rightarrow> 'w hasher \<times> bytes \<times> nat" where
  "fill_buffer B tr h data = (let bufsize = unat (h_bytes h) mod B in
     if bufsize \<noteq> 0 \<and> B \<le> bufsize + length data
     then let buf = memcpy_at (h_buf h) bufsize (take (B - bufsize) data) in
       (h\<lparr>h_buf := buf, h_bytes := h_bytes h + of_nat (B - bufsize), h_s := tr (h_s h) buf\<rparr>,
        drop (B - bufsize) data, 0)
     else (h, data, bufsize))"

definition keep_rest :: "'w hasher \<Rightarrow> nat \<Rightarrow> bytes \<Rightarrow> 'w hasher" where
  "keep_rest h bufsize data = (if data \<noteq> []
     then h\<lparr>h_buf := memcpy_at (h_buf h) bufsize data, h_bytes := h_bytes h + of_nat (length data)\<rparr> else h)"

definition hasher_Write :: "nat \<Rightarrow> ('w list \<Rightarrow> bytes \<Rightarrow> 'w list) \<Rightarrow> 'w hasher \<Rightarrow> bytes \<Rightarrow> 'w hasher" where
  "hasher_Write B tr h data = (case fill_buffer B tr h data of (h1, data1, bufsize) \<Rightarrow>
     case full_chunks B tr (h_s h1) data1 of (s, data2) \<Rightarrow>
       keep_rest (h1\<lparr>h_s := s, h_bytes := h_bytes h1 + of_nat (length data1 - length data2)\<rparr>) bufsize data2)"

text \<open>\<open>pad\<close> is a chunk that starts with \<open>0x80\<close>; as many bytes of it are written as leave room for the size.\<close>

definition pad_length :: "nat \<Rightarrow> nat \<Rightarrow> u64 \<Rightarrow> nat" where
  "pad_length B szlen nbytes = 1 + (2 * B - szlen - 1 - unat nbytes mod B) mod B"

definition hasher_pad :: "nat \<Rightarrow> ('w list \<Rightarrow> bytes \<Rightarrow> 'w list) \<Rightarrow> (u64 \<Rightarrow> bytes) \<Rightarrow> 'w hasher \<Rightarrow> 'w hasher" where
  "hasher_pad B tr sizedesc h = (let sz = sizedesc (push_bit 3 (h_bytes h)) in
     hasher_Write B tr
       (hasher_Write B tr h (take (pad_length B (length sz) (h_bytes h)) (0x80 # replicate (B - 1) 0))) sz)"

subsection \<open>SHA-256\<close>

definition sha256_Ch :: "u32 \<Rightarrow> u32 \<Rightarrow> u32 \<Rightarrow> u32" where
  "sha256_Ch x y z = z XOR (x AND (y XOR z))"

definition sha256_Maj :: "u32 \<Rightarrow> u32 \<Rightarrow> u32 \<Rightarrow> u32" where
  "sha256_Maj x y z = (x AND y) OR (z AND (x OR y))"

definition sha256_Sigma0 :: "u32 \<Rightarrow> u32" where
  "sha256_Sigma0 x = (drop_bit 2 x OR push_bit 30 x) XOR (drop_bit 13 x OR push_bit 19 x) XOR
     (drop_bit 22 x OR push_bit 10 x)"

definition sha256_Sigma1 :: "u32 \<Rightarrow> u32" where
  "sha256_Sigma1 x = (drop_bit 6 x OR push_bit 26 x) XOR (drop_bit 11 x OR push_bit 21 x) XOR
     (drop_bit 25 x OR push_bit 7 x)"

definition sha256_sigma0 :: "u32 \<Rightarrow> u32" where
  "sha256_sigma0 x = (drop_bit 7 x OR push_bit 25 x) XOR (drop_bit 18 x OR push_bit 14 x) XOR drop_bit 3 x"

definition sha256_sigma1 :: "u32 \<Rightarrow> u32" where
  "sha256_sigma1 x = (drop_bit 17 x OR push_bit 15 x) XOR (drop_bit 19 x OR push_bit 13 x) XOR drop_bit 10 x"

text \<open>The two registers that \<open>Round\<close> assigns, \<open>d\<close> and \<open>h\<close>.\<close>

definition sha256_Round ::
  "u32 \<Rightarrow> u32 \<Rightarrow> u32 \<Rightarrow> u32 \<Rightarrow> u32 \<Rightarrow> u32 \<Rightarrow> u32 \<Rightarrow> u32 \<Rightarrow> u32 \<Rightarrow> u32 \<Rightarrow> u32 \<times> u32" where
  "sha256_Round a b c d e f g h k w = (let t1 = h + sha256_Sigma1 e + sha256_Ch e f g + k + w;
     t2 = sha256_Sigma0 a + sha256_Maj a b c in (d + t1, t1 + t2))"

definition sha256_Initialize :: "u32 list" where
  "sha256_Initialize = [0x6a09e667, 0xbb67ae85, 0x3c6ef372, 0xa54ff53a, 0x510e527f, 0x9b05688c, 0x1f83d9ab, 0x5be0cd19]"

text \<open>The constants of the rounds, eight calls of \<open>Round\<close> at a time: after eight the registers are back in place.\<close>

definition sha256_K1 :: "u32 list" where
  "sha256_K1 = [0x428a2f98, 0x71374491, 0xb5c0fbcf, 0xe9b5dba5, 0x3956c25b, 0x59f111f1, 0x923f82a4, 0xab1c5ed5]"

definition sha256_K2 :: "u32 list" where
  "sha256_K2 = [0xd807aa98, 0x12835b01, 0x243185be, 0x550c7dc3, 0x72be5d74, 0x80deb1fe, 0x9bdc06a7, 0xc19bf174]"

definition sha256_K3 :: "u32 list" where
  "sha256_K3 = [0xe49b69c1, 0xefbe4786, 0x0fc19dc6, 0x240ca1cc, 0x2de92c6f, 0x4a7484aa, 0x5cb0a9dc, 0x76f988da]"

definition sha256_K4 :: "u32 list" where
  "sha256_K4 = [0x983e5152, 0xa831c66d, 0xb00327c8, 0xbf597fc7, 0xc6e00bf3, 0xd5a79147, 0x06ca6351, 0x14292967]"

definition sha256_K5 :: "u32 list" where
  "sha256_K5 = [0x27b70a85, 0x2e1b2138, 0x4d2c6dfc, 0x53380d13, 0x650a7354, 0x766a0abb, 0x81c2c92e, 0x92722c85]"

definition sha256_K6 :: "u32 list" where
  "sha256_K6 = [0xa2bfe8a1, 0xa81a664b, 0xc24b8b70, 0xc76c51a3, 0xd192e819, 0xd6990624, 0xf40e3585, 0x106aa070]"

definition sha256_K7 :: "u32 list" where
  "sha256_K7 = [0x19a4c116, 0x1e376c08, 0x2748774c, 0x34b0bcb5, 0x391c0cb3, 0x4ed8aa4a, 0x5b9cca4f, 0x682e6ff3]"

definition sha256_K8 :: "u32 list" where
  "sha256_K8 = [0x748f82ee, 0x78a5636f, 0x84c87814, 0x8cc70208, 0x90befffa, 0xa4506ceb, 0xbef9a3f7, 0xc67178f2]"

definition sha256_K :: "u32 list" where
  "sha256_K = sha256_K1 @ sha256_K2 @ sha256_K3 @ sha256_K4 @ sha256_K5 @ sha256_K6 @ sha256_K7 @ sha256_K8"

text \<open>One call of \<open>Round\<close> in the unrolled code, shared by the two word sizes: the schedule word of the round, then
  the registers.\<close>

definition sha2_word ::
  "('a::len word \<Rightarrow> 'a word) \<Rightarrow> ('a word \<Rightarrow> 'a word) \<Rightarrow> 'a word list \<Rightarrow> nat \<Rightarrow> 'a word list \<Rightarrow> 'a word" where
  "sha2_word sigma0 sigma1 input i w = (if i < 16 then input ! i
     else w ! (i mod 16) + sigma1 (w ! ((i + 14) mod 16)) + w ! ((i + 9) mod 16) + sigma0 (w ! ((i + 1) mod 16)))"

definition reg_at :: "nat \<Rightarrow> nat \<Rightarrow> nat \<Rightarrow> nat" where
  "reg_at n i j = (j + n - i mod n) mod n"

type_synonym 'a sha2_Round =
  "'a word \<Rightarrow> 'a word \<Rightarrow> 'a word \<Rightarrow> 'a word \<Rightarrow> 'a word \<Rightarrow> 'a word \<Rightarrow> 'a word \<Rightarrow> 'a word \<Rightarrow> 'a word \<Rightarrow> 'a word \<Rightarrow>
   'a word \<times> 'a word"

fun sha2_rounds ::
  "'a::len sha2_Round \<Rightarrow> ('a word \<Rightarrow> 'a word) \<Rightarrow> ('a word \<Rightarrow> 'a word) \<Rightarrow> 'a word list \<Rightarrow>
   nat \<Rightarrow> 'a word list \<Rightarrow> 'a word list \<Rightarrow> 'a word list \<Rightarrow> 'a word list" where
  "sha2_rounds rnd sigma0 sigma1 input i [] r w = r"
| "sha2_rounds rnd sigma0 sigma1 input i (k # ks) r w =
     (let x = sha2_word sigma0 sigma1 input i w;
          p = reg_at 8 i;
          dh = rnd (r ! p 0) (r ! p 1) (r ! p 2) (r ! p 3) (r ! p 4) (r ! p 5) (r ! p 6) (r ! p 7) k x
      in sha2_rounds rnd sigma0 sigma1 input (Suc i) ks (r[p 3 := fst dh, p 7 := snd dh]) (w[i mod 16 := x]))"

definition add_words :: "'a::len word list \<Rightarrow> 'a word list \<Rightarrow> 'a word list" where
  "add_words s r = map2 (+) s r"

definition sha256_block :: "u32 list \<Rightarrow> bytes \<Rightarrow> u32 list" where
  "sha256_block s chunk = add_words s
     (sha2_rounds sha256_Round sha256_sigma0 sha256_sigma1 (map (\<lambda>i. ReadBE32 (drop (4 * i) chunk)) [0..<16])
        0 sha256_K s (replicate 16 0))"

fun sha256_Transform :: "u32 list \<Rightarrow> bytes \<Rightarrow> nat \<Rightarrow> u32 list" where
  "sha256_Transform s chunk 0 = s"
| "sha256_Transform s chunk (Suc blocks) = sha256_Transform (sha256_block s chunk) (drop 64 chunk) blocks"

definition SelfTest :: "(u32 list \<Rightarrow> bytes \<Rightarrow> nat \<Rightarrow> u32 list) \<Rightarrow> bool" where
  "SelfTest tr = (let in1 = [0, 0x80] @ replicate 63 0;
       in2 = [0] @ replicate 64 32 @ [0x80] @ replicate 61 0 @ [2, 0];
       out1 = [0xe3b0c442, 0x98fc1c14, 0x9afbf4c8, 0x996fb924, 0x27ae41e4, 0x649b934c, 0xa495991b, 0x7852b855];
       out2 = [0xce4153b0, 0x147c2a86, 0x3ed4298e, 0xe0676bc8, 0x79fc77a1, 0x2abe1f49, 0xb2b055df, 0x1069523e];
       buf0 = tr sha256_Initialize [] 0
     in buf0 = sha256_Initialize \<and> tr buf0 (drop 1 in1) 1 = out1 \<and> tr sha256_Initialize (drop 1 in2) 2 = out2)"

type_synonym CSHA256 = "u32 hasher"

definition CSHA256 :: CSHA256 where
  "CSHA256 = \<lparr>h_s = sha256_Initialize, h_buf = replicate 64 0, h_bytes = 0\<rparr>"

definition CSHA256_Write :: "CSHA256 \<Rightarrow> bytes \<Rightarrow> CSHA256" where
  "CSHA256_Write h data = (case fill_buffer 64 (\<lambda>s buf. sha256_Transform s buf 1) h data of (h1, data1, bufsize) \<Rightarrow>
     let blocks = length data1 div 64;
         h2 = (if 64 \<le> length data1
           then h1\<lparr>h_s := sha256_Transform (h_s h1) data1 blocks, h_bytes := h_bytes h1 + of_nat (64 * blocks)\<rparr>
           else h1)
     in keep_rest h2 bufsize (drop (64 * blocks) data1))"

definition CSHA256_Finalize :: "CSHA256 \<Rightarrow> bytes" where
  "CSHA256_Finalize h = (let sizedesc = WriteBE64 (push_bit 3 (h_bytes h));
     h1 = CSHA256_Write h (take (1 + (119 - unat (h_bytes h) mod 64) mod 64) (0x80 # replicate 63 0));
     h2 = CSHA256_Write h1 sizedesc
     in concat (map WriteBE32 (h_s h2)))"

definition CSHA256_Reset :: "CSHA256 \<Rightarrow> CSHA256" where
  "CSHA256_Reset h = h\<lparr>h_bytes := 0, h_s := sha256_Initialize\<rparr>"

subsection \<open>SHA-512\<close>

definition sha512_Ch :: "u64 \<Rightarrow> u64 \<Rightarrow> u64 \<Rightarrow> u64" where
  "sha512_Ch x y z = z XOR (x AND (y XOR z))"

definition sha512_Maj :: "u64 \<Rightarrow> u64 \<Rightarrow> u64 \<Rightarrow> u64" where
  "sha512_Maj x y z = (x AND y) OR (z AND (x OR y))"

definition sha512_Sigma0 :: "u64 \<Rightarrow> u64" where
  "sha512_Sigma0 x = (drop_bit 28 x OR push_bit 36 x) XOR (drop_bit 34 x OR push_bit 30 x) XOR
     (drop_bit 39 x OR push_bit 25 x)"

definition sha512_Sigma1 :: "u64 \<Rightarrow> u64" where
  "sha512_Sigma1 x = (drop_bit 14 x OR push_bit 50 x) XOR (drop_bit 18 x OR push_bit 46 x) XOR
     (drop_bit 41 x OR push_bit 23 x)"

definition sha512_sigma0 :: "u64 \<Rightarrow> u64" where
  "sha512_sigma0 x = (drop_bit 1 x OR push_bit 63 x) XOR (drop_bit 8 x OR push_bit 56 x) XOR drop_bit 7 x"

definition sha512_sigma1 :: "u64 \<Rightarrow> u64" where
  "sha512_sigma1 x = (drop_bit 19 x OR push_bit 45 x) XOR (drop_bit 61 x OR push_bit 3 x) XOR drop_bit 6 x"

definition sha512_Round ::
  "u64 \<Rightarrow> u64 \<Rightarrow> u64 \<Rightarrow> u64 \<Rightarrow> u64 \<Rightarrow> u64 \<Rightarrow> u64 \<Rightarrow> u64 \<Rightarrow> u64 \<Rightarrow> u64 \<Rightarrow> u64 \<times> u64" where
  "sha512_Round a b c d e f g h k w = (let t1 = h + sha512_Sigma1 e + sha512_Ch e f g + k + w;
     t2 = sha512_Sigma0 a + sha512_Maj a b c in (d + t1, t1 + t2))"

definition sha512_Initialize :: "u64 list" where
  "sha512_Initialize = [0x6a09e667f3bcc908, 0xbb67ae8584caa73b, 0x3c6ef372fe94f82b, 0xa54ff53a5f1d36f1,
     0x510e527fade682d1, 0x9b05688c2b3e6c1f, 0x1f83d9abfb41bd6b, 0x5be0cd19137e2179]"

text \<open>The constants of the rounds, eight calls of \<open>Round\<close> at a time: after eight the registers are back in place.\<close>

definition sha512_K1 :: "u64 list" where
  "sha512_K1 = [0x428a2f98d728ae22, 0x7137449123ef65cd, 0xb5c0fbcfec4d3b2f, 0xe9b5dba58189dbbc,
     0x3956c25bf348b538, 0x59f111f1b605d019, 0x923f82a4af194f9b, 0xab1c5ed5da6d8118]"

definition sha512_K2 :: "u64 list" where
  "sha512_K2 = [0xd807aa98a3030242, 0x12835b0145706fbe, 0x243185be4ee4b28c, 0x550c7dc3d5ffb4e2,
     0x72be5d74f27b896f, 0x80deb1fe3b1696b1, 0x9bdc06a725c71235, 0xc19bf174cf692694]"

definition sha512_K3 :: "u64 list" where
  "sha512_K3 = [0xe49b69c19ef14ad2, 0xefbe4786384f25e3, 0x0fc19dc68b8cd5b5, 0x240ca1cc77ac9c65,
     0x2de92c6f592b0275, 0x4a7484aa6ea6e483, 0x5cb0a9dcbd41fbd4, 0x76f988da831153b5]"

definition sha512_K4 :: "u64 list" where
  "sha512_K4 = [0x983e5152ee66dfab, 0xa831c66d2db43210, 0xb00327c898fb213f, 0xbf597fc7beef0ee4,
     0xc6e00bf33da88fc2, 0xd5a79147930aa725, 0x06ca6351e003826f, 0x142929670a0e6e70]"

definition sha512_K5 :: "u64 list" where
  "sha512_K5 = [0x27b70a8546d22ffc, 0x2e1b21385c26c926, 0x4d2c6dfc5ac42aed, 0x53380d139d95b3df,
     0x650a73548baf63de, 0x766a0abb3c77b2a8, 0x81c2c92e47edaee6, 0x92722c851482353b]"

definition sha512_K6 :: "u64 list" where
  "sha512_K6 = [0xa2bfe8a14cf10364, 0xa81a664bbc423001, 0xc24b8b70d0f89791, 0xc76c51a30654be30,
     0xd192e819d6ef5218, 0xd69906245565a910, 0xf40e35855771202a, 0x106aa07032bbd1b8]"

definition sha512_K7 :: "u64 list" where
  "sha512_K7 = [0x19a4c116b8d2d0c8, 0x1e376c085141ab53, 0x2748774cdf8eeb99, 0x34b0bcb5e19b48a8,
     0x391c0cb3c5c95a63, 0x4ed8aa4ae3418acb, 0x5b9cca4f7763e373, 0x682e6ff3d6b2b8a3]"

definition sha512_K8 :: "u64 list" where
  "sha512_K8 = [0x748f82ee5defb2fc, 0x78a5636f43172f60, 0x84c87814a1f0ab72, 0x8cc702081a6439ec,
     0x90befffa23631e28, 0xa4506cebde82bde9, 0xbef9a3f7b2c67915, 0xc67178f2e372532b]"

definition sha512_K9 :: "u64 list" where
  "sha512_K9 = [0xca273eceea26619c, 0xd186b8c721c0c207, 0xeada7dd6cde0eb1e, 0xf57d4f7fee6ed178,
     0x06f067aa72176fba, 0x0a637dc5a2c898a6, 0x113f9804bef90dae, 0x1b710b35131c471b]"

definition sha512_K10 :: "u64 list" where
  "sha512_K10 = [0x28db77f523047d84, 0x32caab7b40c72493, 0x3c9ebe0a15c9bebc, 0x431d67c49c100d4c,
     0x4cc5d4becb3e42b6, 0x597f299cfc657e2a, 0x5fcb6fab3ad6faec, 0x6c44198c4a475817]"

definition sha512_K :: "u64 list" where
  "sha512_K = sha512_K1 @ sha512_K2 @ sha512_K3 @ sha512_K4 @ sha512_K5 @ sha512_K6 @ sha512_K7 @ sha512_K8 @ sha512_K9 @ sha512_K10"

definition sha512_Transform :: "u64 list \<Rightarrow> bytes \<Rightarrow> u64 list" where
  "sha512_Transform s chunk = add_words s
     (sha2_rounds sha512_Round sha512_sigma0 sha512_sigma1 (map (\<lambda>i. ReadBE64 (drop (8 * i) chunk)) [0..<16])
        0 sha512_K s (replicate 16 0))"

type_synonym CSHA512 = "u64 hasher"

definition CSHA512 :: CSHA512 where
  "CSHA512 = \<lparr>h_s = sha512_Initialize, h_buf = replicate 128 0, h_bytes = 0\<rparr>"

definition CSHA512_Write :: "CSHA512 \<Rightarrow> bytes \<Rightarrow> CSHA512" where
  "CSHA512_Write = hasher_Write 128 sha512_Transform"

definition CSHA512_Finalize :: "CSHA512 \<Rightarrow> bytes" where
  "CSHA512_Finalize h = concat (map WriteBE64
     (h_s (hasher_pad 128 sha512_Transform (\<lambda>n. replicate 8 0 @ WriteBE64 n) h)))"

definition CSHA512_Reset :: "CSHA512 \<Rightarrow> CSHA512" where
  "CSHA512_Reset h = h\<lparr>h_bytes := 0, h_s := sha512_Initialize\<rparr>"

subsection \<open>SHA-1\<close>

text \<open>The two registers that \<open>Round\<close> assigns, \<open>b\<close> and \<open>e\<close>.\<close>

definition sha1_Round :: "u32 \<Rightarrow> u32 \<Rightarrow> u32 \<Rightarrow> u32 \<Rightarrow> u32 \<Rightarrow> u32 \<Rightarrow> u32 \<Rightarrow> u32 \<Rightarrow> u32 \<times> u32" where
  "sha1_Round a b c d e f k w =
     (push_bit 30 b OR drop_bit 2 b, e + ((push_bit 5 a OR drop_bit 27 a) + f + k + w))"

definition sha1_f1 :: "u32 \<Rightarrow> u32 \<Rightarrow> u32 \<Rightarrow> u32" where "sha1_f1 b c d = d XOR (b AND (c XOR d))"
definition sha1_f2 :: "u32 \<Rightarrow> u32 \<Rightarrow> u32 \<Rightarrow> u32" where "sha1_f2 b c d = b XOR c XOR d"
definition sha1_f3 :: "u32 \<Rightarrow> u32 \<Rightarrow> u32 \<Rightarrow> u32" where "sha1_f3 b c d = (b AND c) OR (d AND (b OR c))"
definition sha1_left :: "u32 \<Rightarrow> u32" where "sha1_left x = push_bit 1 x OR drop_bit 31 x"

definition sha1_Initialize :: "u32 list" where
  "sha1_Initialize = [0x67452301, 0xEFCDAB89, 0x98BADCFE, 0x10325476, 0xC3D2E1F0]"

definition sha1_k1 :: u32 where "sha1_k1 = 0x5A827999"
definition sha1_k2 :: u32 where "sha1_k2 = 0x6ED9EBA1"
definition sha1_k3 :: u32 where "sha1_k3 = 0x8F1BBCDC"
definition sha1_k4 :: u32 where "sha1_k4 = 0xCA62C1D6"

text \<open>The function and the constant of round \<open>i\<close>: four groups of twenty rounds.\<close>

definition sha1_fk :: "nat \<Rightarrow> (u32 \<Rightarrow> u32 \<Rightarrow> u32 \<Rightarrow> u32) \<times> u32" where
  "sha1_fk i = (if i < 20 then (sha1_f1, sha1_k1) else if i < 40 then (sha1_f2, sha1_k2)
     else if i < 60 then (sha1_f3, sha1_k3) else (sha1_f2, sha1_k4))"

definition sha1_word :: "u32 list \<Rightarrow> nat \<Rightarrow> u32 list \<Rightarrow> u32" where
  "sha1_word input i w = (if i < 16 then input ! i
     else sha1_left (w ! (i mod 16) XOR w ! ((i + 13) mod 16) XOR w ! ((i + 8) mod 16) XOR w ! ((i + 2) mod 16)))"

fun sha1_rounds :: "u32 list \<Rightarrow> nat \<Rightarrow> nat \<Rightarrow> u32 list \<Rightarrow> u32 list \<Rightarrow> u32 list" where
  "sha1_rounds input 0 i r w = r"
| "sha1_rounds input (Suc n) i r w =
     (let x = sha1_word input i w;
          p = reg_at 5 i;
          f = fst (sha1_fk i) (r ! p 1) (r ! p 2) (r ! p 3);
          be = sha1_Round (r ! p 0) (r ! p 1) (r ! p 2) (r ! p 3) (r ! p 4) f (snd (sha1_fk i)) x
      in sha1_rounds input n (Suc i) (r[p 1 := fst be, p 4 := snd be]) (w[i mod 16 := x]))"

definition sha1_Transform :: "u32 list \<Rightarrow> bytes \<Rightarrow> u32 list" where
  "sha1_Transform s chunk = add_words s
     (sha1_rounds (map (\<lambda>i. ReadBE32 (drop (4 * i) chunk)) [0..<16]) 80 0 s (replicate 16 0))"

type_synonym CSHA1 = "u32 hasher"

definition CSHA1 :: CSHA1 where
  "CSHA1 = \<lparr>h_s = sha1_Initialize, h_buf = replicate 64 0, h_bytes = 0\<rparr>"

definition CSHA1_Write :: "CSHA1 \<Rightarrow> bytes \<Rightarrow> CSHA1" where
  "CSHA1_Write = hasher_Write 64 sha1_Transform"

definition CSHA1_Finalize :: "CSHA1 \<Rightarrow> bytes" where
  "CSHA1_Finalize h = concat (map WriteBE32 (h_s (hasher_pad 64 sha1_Transform WriteBE64 h)))"

definition CSHA1_Reset :: "CSHA1 \<Rightarrow> CSHA1" where
  "CSHA1_Reset h = h\<lparr>h_bytes := 0, h_s := sha1_Initialize\<rparr>"

subsection \<open>RIPEMD-160\<close>

definition ripemd160_f1 :: "u32 \<Rightarrow> u32 \<Rightarrow> u32 \<Rightarrow> u32" where "ripemd160_f1 x y z = x XOR y XOR z"
definition ripemd160_f2 :: "u32 \<Rightarrow> u32 \<Rightarrow> u32 \<Rightarrow> u32" where "ripemd160_f2 x y z = (x AND y) OR (NOT x AND z)"
definition ripemd160_f3 :: "u32 \<Rightarrow> u32 \<Rightarrow> u32 \<Rightarrow> u32" where "ripemd160_f3 x y z = (x OR NOT y) XOR z"
definition ripemd160_f4 :: "u32 \<Rightarrow> u32 \<Rightarrow> u32 \<Rightarrow> u32" where "ripemd160_f4 x y z = (x AND z) OR (y AND NOT z)"
definition ripemd160_f5 :: "u32 \<Rightarrow> u32 \<Rightarrow> u32 \<Rightarrow> u32" where "ripemd160_f5 x y z = x XOR (y OR NOT z)"

definition ripemd160_Initialize :: "u32 list" where
  "ripemd160_Initialize = [0x67452301, 0xEFCDAB89, 0x98BADCFE, 0x10325476, 0xC3D2E1F0]"

definition ripemd160_rol :: "u32 \<Rightarrow> nat \<Rightarrow> u32" where
  "ripemd160_rol x i = push_bit i x OR drop_bit (32 - i) x"

text \<open>The two registers that \<open>Round\<close> assigns, \<open>a\<close> and \<open>c\<close>.\<close>

definition ripemd160_Round ::
  "u32 \<Rightarrow> u32 \<Rightarrow> u32 \<Rightarrow> u32 \<Rightarrow> u32 \<Rightarrow> u32 \<Rightarrow> u32 \<Rightarrow> u32 \<Rightarrow> nat \<Rightarrow> u32 \<times> u32" where
  "ripemd160_Round a b c d e f x k r = (ripemd160_rol (a + f + x + k) r + e, ripemd160_rol c 10)"

text \<open>The functions and constants of \<open>R11\<close> to \<open>R51\<close> and \<open>R12\<close> to \<open>R52\<close>, the groups of sixteen rounds of the two
  lines.\<close>

definition ripemd160_R1 :: "((u32 \<Rightarrow> u32 \<Rightarrow> u32 \<Rightarrow> u32) \<times> u32) list" where
  "ripemd160_R1 = [(ripemd160_f1, 0), (ripemd160_f2, 0x5A827999), (ripemd160_f3, 0x6ED9EBA1),
     (ripemd160_f4, 0x8F1BBCDC), (ripemd160_f5, 0xA953FD4E)]"

definition ripemd160_R2 :: "((u32 \<Rightarrow> u32 \<Rightarrow> u32 \<Rightarrow> u32) \<times> u32) list" where
  "ripemd160_R2 = [(ripemd160_f5, 0x50A28BE6), (ripemd160_f4, 0x5C4DD124), (ripemd160_f3, 0x6D703EF3),
     (ripemd160_f2, 0x7A6D76E9), (ripemd160_f1, 0)]"

text \<open>The word and the rotation that each of the eighty rounds of a line uses.\<close>

definition ripemd160_left :: "(nat \<times> nat) list" where
  "ripemd160_left = [(0, 11), (1, 14), (2, 15), (3, 12), (4, 5), (5, 8), (6, 7), (7, 9), (8, 11), (9, 13),
     (10, 14), (11, 15), (12, 6), (13, 7), (14, 9), (15, 8), (7, 7), (4, 6), (13, 8), (1, 13),
     (10, 11), (6, 9), (15, 7), (3, 15), (12, 7), (0, 12), (9, 15), (5, 9), (2, 11), (14, 7),
     (11, 13), (8, 12), (3, 11), (10, 13), (14, 6), (4, 7), (9, 14), (15, 9), (8, 13), (1, 15),
     (2, 14), (7, 8), (0, 13), (6, 6), (13, 5), (11, 12), (5, 7), (12, 5), (1, 11), (9, 12),
     (11, 14), (10, 15), (0, 14), (8, 15), (12, 9), (4, 8), (13, 9), (3, 14), (7, 5), (15, 6),
     (14, 8), (5, 6), (6, 5), (2, 12), (4, 9), (0, 15), (5, 5), (9, 11), (7, 6), (12, 8),
     (2, 13), (10, 12), (14, 5), (1, 12), (3, 13), (8, 14), (11, 11), (6, 8), (15, 5), (13, 6)]"

definition ripemd160_right :: "(nat \<times> nat) list" where
  "ripemd160_right = [(5, 8), (14, 9), (7, 9), (0, 11), (9, 13), (2, 15), (11, 15), (4, 5), (13, 7), (6, 7),
     (15, 8), (8, 11), (1, 14), (10, 14), (3, 12), (12, 6), (6, 9), (11, 13), (3, 15), (7, 7),
     (0, 12), (13, 8), (5, 9), (10, 11), (14, 7), (15, 7), (8, 12), (12, 7), (4, 6), (9, 15),
     (1, 13), (2, 11), (15, 9), (5, 7), (1, 15), (3, 11), (7, 8), (14, 6), (6, 6), (9, 14),
     (11, 12), (8, 13), (12, 5), (2, 14), (10, 13), (0, 13), (4, 7), (13, 5), (8, 15), (6, 5),
     (4, 8), (1, 11), (3, 14), (11, 14), (15, 6), (0, 14), (5, 6), (12, 9), (2, 12), (13, 9),
     (9, 12), (7, 5), (10, 15), (14, 8), (12, 8), (15, 5), (10, 12), (4, 9), (1, 12), (5, 5),
     (8, 14), (7, 6), (6, 8), (2, 13), (13, 6), (14, 5), (0, 15), (3, 13), (9, 11), (11, 11)]"

fun ripemd160_line ::
  "((u32 \<Rightarrow> u32 \<Rightarrow> u32 \<Rightarrow> u32) \<times> u32) list \<Rightarrow> u32 list \<Rightarrow> nat \<Rightarrow> (nat \<times> nat) list \<Rightarrow> u32 list \<Rightarrow> u32 list" where
  "ripemd160_line fs w i [] r = r"
| "ripemd160_line fs w i ((x, s) # ops) r =
     (let p = reg_at 5 i;
          f = fst (fs ! (i div 16)) (r ! p 1) (r ! p 2) (r ! p 3);
          ac = ripemd160_Round (r ! p 0) (r ! p 1) (r ! p 2) (r ! p 3) (r ! p 4) f (w ! x) (snd (fs ! (i div 16))) s
      in ripemd160_line fs w (Suc i) ops (r[p 0 := fst ac, p 2 := snd ac]))"

definition ripemd160_Transform :: "u32 list \<Rightarrow> bytes \<Rightarrow> u32 list" where
  "ripemd160_Transform s chunk =
     (let w = map (\<lambda>i. ReadLE32 (drop (4 * i) chunk)) [0..<16];
          l = ripemd160_line ripemd160_R1 w 0 ripemd160_left s;
          r = ripemd160_line ripemd160_R2 w 0 ripemd160_right s
      in [s ! 1 + l ! 2 + r ! 3, s ! 2 + l ! 3 + r ! 4, s ! 3 + l ! 4 + r ! 0, s ! 4 + l ! 0 + r ! 1,
          s ! 0 + l ! 1 + r ! 2])"

type_synonym CRIPEMD160 = "u32 hasher"

definition CRIPEMD160 :: CRIPEMD160 where
  "CRIPEMD160 = \<lparr>h_s = ripemd160_Initialize, h_buf = replicate 64 0, h_bytes = 0\<rparr>"

definition CRIPEMD160_Write :: "CRIPEMD160 \<Rightarrow> bytes \<Rightarrow> CRIPEMD160" where
  "CRIPEMD160_Write = hasher_Write 64 ripemd160_Transform"

definition CRIPEMD160_Finalize :: "CRIPEMD160 \<Rightarrow> bytes" where
  "CRIPEMD160_Finalize h = concat (map WriteLE32 (h_s (hasher_pad 64 ripemd160_Transform WriteLE64 h)))"

definition CRIPEMD160_Reset :: "CRIPEMD160 \<Rightarrow> CRIPEMD160" where
  "CRIPEMD160_Reset h = h\<lparr>h_bytes := 0, h_s := ripemd160_Initialize\<rparr>"

subsection \<open>Keyed hashing\<close>

record CHMAC_SHA256 =
  outer256 :: CSHA256
  inner256 :: CSHA256

definition CHMAC_SHA256 :: "bytes \<Rightarrow> CHMAC_SHA256" where
  "CHMAC_SHA256 key = (let rkey = (if length key \<le> 64 then key @ replicate (64 - length key) 0
       else CSHA256_Finalize (CSHA256_Write CSHA256 key) @ replicate 32 0);
     rkey1 = map (\<lambda>x. x XOR 0x5c) rkey;
     rkey2 = map (\<lambda>x. x XOR (0x5c XOR 0x36)) rkey1
     in \<lparr>outer256 = CSHA256_Write CSHA256 rkey1, inner256 = CSHA256_Write CSHA256 rkey2\<rparr>)"

definition CHMAC_SHA256_Write :: "CHMAC_SHA256 \<Rightarrow> bytes \<Rightarrow> CHMAC_SHA256" where
  "CHMAC_SHA256_Write h data = h\<lparr>inner256 := CSHA256_Write (inner256 h) data\<rparr>"

definition CHMAC_SHA256_Finalize :: "CHMAC_SHA256 \<Rightarrow> bytes" where
  "CHMAC_SHA256_Finalize h = CSHA256_Finalize (CSHA256_Write (outer256 h) (CSHA256_Finalize (inner256 h)))"

record CHMAC_SHA512 =
  outer512 :: CSHA512
  inner512 :: CSHA512

definition CHMAC_SHA512 :: "bytes \<Rightarrow> CHMAC_SHA512" where
  "CHMAC_SHA512 key = (let rkey = (if length key \<le> 128 then key @ replicate (128 - length key) 0
       else CSHA512_Finalize (CSHA512_Write CSHA512 key) @ replicate 64 0);
     rkey1 = map (\<lambda>x. x XOR 0x5c) rkey;
     rkey2 = map (\<lambda>x. x XOR (0x5c XOR 0x36)) rkey1
     in \<lparr>outer512 = CSHA512_Write CSHA512 rkey1, inner512 = CSHA512_Write CSHA512 rkey2\<rparr>)"

definition CHMAC_SHA512_Write :: "CHMAC_SHA512 \<Rightarrow> bytes \<Rightarrow> CHMAC_SHA512" where
  "CHMAC_SHA512_Write h data = h\<lparr>inner512 := CSHA512_Write (inner512 h) data\<rparr>"

definition CHMAC_SHA512_Finalize :: "CHMAC_SHA512 \<Rightarrow> bytes" where
  "CHMAC_SHA512_Finalize h = CSHA512_Finalize (CSHA512_Write (outer512 h) (CSHA512_Finalize (inner512 h)))"

subsection \<open>Streaming is invisible\<close>

definition hashes_to :: "nat \<Rightarrow> ('w list \<Rightarrow> bytes \<Rightarrow> 'w list) \<Rightarrow> 'w list \<Rightarrow> 'w hasher \<Rightarrow> bytes \<Rightarrow> bool" where
  "hashes_to B tr init h m \<longleftrightarrow> h_s h = fst (full_chunks B tr init m) \<and> h_bytes h = of_nat (length m) \<and>
     length (h_buf h) = B \<and> take (length m mod B) (h_buf h) = snd (full_chunks B tr init m)"

locale block_hasher =
  fixes B :: nat and tr :: "'w list \<Rightarrow> bytes \<Rightarrow> 'w list" and init :: "'w list"
  assumes B_pos: "0 < B" and B_dvd: "B dvd 2 ^ 64"
begin

lemma chunks_step: "B \<le> length m \<Longrightarrow> full_chunks B tr s m = full_chunks B tr (tr s (take B m)) (drop B m)"
  using B_pos by (subst full_chunks.simps) simp

lemma chunks_stop: "length m < B \<Longrightarrow> full_chunks B tr s m = (s, m)"
  by (subst full_chunks.simps) simp

lemma chunks_rest: "length (snd (full_chunks B tr s m)) = length m mod B"
proof (induction B tr s m rule: full_chunks.induct)
  case (1 B tr s m)
  show ?case
    using 1 by (cases "0 < B \<and> B \<le> length m") (auto simp: full_chunks.simps [of B tr s m] le_mod_geq)
qed

lemma chunks_append:
  "full_chunks B tr s (m @ d) =
     full_chunks B tr (fst (full_chunks B tr s m)) (snd (full_chunks B tr s m) @ d)"
proof (induction B tr s m rule: full_chunks.induct)
  case (1 B tr s m)
  show ?case
    using 1 by (cases "0 < B \<and> B \<le> length m") (auto simp: full_chunks.simps [of B tr s m] full_chunks.simps [of B tr s "m @ d"]
        full_chunks.simps [of 0])
qed

lemma chunks_suffix: "length (snd (full_chunks B tr s m)) \<le> length m"
  by (simp add: chunks_rest)

lemma bytes_mod: "unat (of_nat n :: u64) mod B = n mod B"
  using B_dvd by (simp add: unat_of_nat mod_mod_cancel)

lemma fill_keeps:
  assumes "hashes_to B tr init h m" "length m mod B \<noteq> 0" "B \<le> length m mod B + length d"
  shows "fill_buffer B tr h d = (h\<lparr>h_buf := snd (full_chunks B tr init m) @ take (B - length m mod B) d,
      h_bytes := of_nat (length m + (B - length m mod B)),
      h_s := fst (full_chunks B tr init (m @ take (B - length m mod B) d))\<rparr>, drop (B - length m mod B) d, 0)"
proof -
  let ?r = "length m mod B" and ?c = "full_chunks B tr init m"
  have r: "?r < B" using B_pos by simp
  have buf: "memcpy_at (h_buf h) ?r (take (B - ?r) d) = snd ?c @ take (B - ?r) d"
    using assms r by (simp add: memcpy_at_def hashes_to_def)
  have "full_chunks B tr init (m @ take (B - ?r) d) = (tr (fst ?c) (snd ?c @ take (B - ?r) d), [])"
    using assms(3) r B_pos by (simp add: chunks_append [of init m] chunks_step chunks_stop chunks_rest)
  then show ?thesis using assms buf by (simp add: fill_buffer_def bytes_mod hashes_to_def Let_def)
qed

lemma write_rest:
  assumes "h_s h = fst (full_chunks B tr init m)" "h_bytes h = of_nat (length m)" "length (h_buf h) = B"
    and "b = length m mod B" "b = 0 \<or> b + length d < B" "take b (h_buf h) = snd (full_chunks B tr init m)"
  shows "hashes_to B tr init (case full_chunks B tr (h_s h) d of (s, d') \<Rightarrow>
      keep_rest (h\<lparr>h_s := s, h_bytes := h_bytes h + of_nat (length d - length d')\<rparr>) b d') (m @ d)"
proof -
  let ?c = "full_chunks B tr init m"
  have len: "length (snd ?c) = b" using assms(4) by (simp add: chunks_rest)
  have d': "length (snd (full_chunks B tr s d)) = length d mod B" for s by (rule chunks_rest)
  show ?thesis
  proof (cases "b = 0")
    case True
    then have "full_chunks B tr init (m @ d) = full_chunks B tr (fst ?c) d"
      using chunks_append [of init m d] len by simp
    moreover have "(length m + length d) mod B = length d mod B" using True assms(4) by (metis add_0 mod_add_left_eq)
    moreover have "length d mod B < B" using B_pos by simp
    moreover have "length m + length d - length d mod B + length d mod B = length m + length d"
      using mod_less_eq_dividend [of "length d" B] by linarith
    ultimately show ?thesis
      using assms(1-3) True d' [of "h_s h"]
      by (cases "full_chunks B tr (h_s h) d") (auto simp: hashes_to_def keep_rest_def memcpy_at_def add.assoc
          simp flip: of_nat_add split: if_splits)
  next
    case False
    then have lt: "b + length d < B" using assms(5) by simp
    then have "full_chunks B tr init (m @ d) = (fst ?c, snd ?c @ d)"
      using chunks_append [of init m d] len by (simp add: chunks_stop)
    moreover have "(length m + length d) mod B = b + length d"
      using lt assms(4) by (metis mod_add_left_eq mod_less)
    ultimately show ?thesis
      using assms lt len by (auto simp: hashes_to_def keep_rest_def memcpy_at_def chunks_stop)
  qed
qed

lemma Write_hashes:
  assumes "hashes_to B tr init h m"
  shows "hashes_to B tr init (hasher_Write B tr h d) (m @ d)"
proof (cases "length m mod B \<noteq> 0 \<and> B \<le> length m mod B + length d")
  case True
  let ?r = "length m mod B" and ?m = "m @ take (B - length m mod B) d"
  have r: "?r < B" using B_pos by simp
  have l: "length ?m = length m + (B - ?r)" using True r by auto
  have m0: "length ?m mod B = 0"
  proof -
    have "length m = B * (length m div B) + ?r" by simp
    then have "length ?m = B * (length m div B) + B" using l r by linarith
    then show ?thesis by simp
  qed
  have "snd (full_chunks B tr init ?m) = []" using chunks_rest [of init ?m] m0 by simp
  then have "hashes_to B tr init (hasher_Write B tr h d) (?m @ drop (B - ?r) d)"
    unfolding hasher_Write_def fill_keeps [OF assms conjunct1 [OF True] conjunct2 [OF True]] prod.case
    using assms True r l m0
    by (intro write_rest) (auto simp: hashes_to_def chunks_rest simp flip: of_nat_add)
  then show ?thesis by simp
next
  case False
  then have "fill_buffer B tr h d = (h, d, length m mod B)"
    using assms by (auto simp: fill_buffer_def Let_def hashes_to_def bytes_mod)
  then have "hasher_Write B tr h d = (case full_chunks B tr (h_s h) d of (s, d') \<Rightarrow>
      keep_rest (h\<lparr>h_s := s, h_bytes := h_bytes h + of_nat (length d - length d')\<rparr>) (length m mod B) d')"
    by (simp add: hasher_Write_def)
  then show ?thesis using write_rest [of h m "length m mod B" d] assms False by (auto simp: hashes_to_def [of _ _ _ h])
qed

lemma Writes_hash:
  "hashes_to B tr init h m \<Longrightarrow> hashes_to B tr init (foldl (hasher_Write B tr) h ds) (m @ concat ds)"
proof (induction ds arbitrary: h m)
  case (Cons d ds)
  show ?case using Cons.IH [OF Write_hashes [OF Cons.prems, of d]] by simp
qed simp

lemma pad_hashes:
  assumes "hashes_to B tr init h m"
  shows "h_s (hasher_pad B tr sizedesc h) = fst (full_chunks B tr init (m @
     take (pad_length B (length (sizedesc (push_bit 3 (of_nat (length m))))) (of_nat (length m)))
       (0x80 # replicate (B - 1) 0) @ sizedesc (push_bit 3 (of_nat (length m)))))"
  using Write_hashes [OF Write_hashes [OF assms]] assms
  by (simp add: hasher_pad_def Let_def hashes_to_def)

end

lemma full_chunks_hashes_init:
  "0 < B \<Longrightarrow> hashes_to B tr init \<lparr>h_s = init, h_buf = buf, h_bytes = 0\<rparr> [] \<longleftrightarrow> length buf = B"
  by (auto simp: hashes_to_def full_chunks.simps)

interpretation sha256: block_hasher 64 sha256_block sha256_Initialize
  by unfold_locales simp_all

interpretation sha512: block_hasher 128 sha512_Transform sha512_Initialize
  by unfold_locales simp_all

interpretation sha1: block_hasher 64 sha1_Transform sha1_Initialize
  by unfold_locales simp_all

interpretation ripemd160: block_hasher 64 ripemd160_Transform ripemd160_Initialize
  by unfold_locales simp_all

subsection \<open>The compression functions of FIPS 180-4\<close>

definition fips_Ch :: "'a::len word \<Rightarrow> 'a word \<Rightarrow> 'a word \<Rightarrow> 'a word" where
  "fips_Ch x y z = (x AND y) XOR (NOT x AND z)"

definition fips_Maj :: "'a::len word \<Rightarrow> 'a word \<Rightarrow> 'a word \<Rightarrow> 'a word" where
  "fips_Maj x y z = (x AND y) XOR (x AND z) XOR (y AND z)"

text \<open>The functions of one member of the family: \<open>\<Sigma>\<^sub>0\<close>, \<open>\<Sigma>\<^sub>1\<close>, \<open>\<sigma>\<^sub>0\<close>, \<open>\<sigma>\<^sub>1\<close>.\<close>

record 'w fips_sha2 =
  big0 :: "'w \<Rightarrow> 'w"
  big1 :: "'w \<Rightarrow> 'w"
  small0 :: "'w \<Rightarrow> 'w"
  small1 :: "'w \<Rightarrow> 'w"

definition fips256 :: "u32 fips_sha2" where
  "fips256 = \<lparr>big0 = (\<lambda>x. word_rotr 2 x XOR word_rotr 13 x XOR word_rotr 22 x),
     big1 = (\<lambda>x. word_rotr 6 x XOR word_rotr 11 x XOR word_rotr 25 x),
     small0 = (\<lambda>x. word_rotr 7 x XOR word_rotr 18 x XOR drop_bit 3 x),
     small1 = (\<lambda>x. word_rotr 17 x XOR word_rotr 19 x XOR drop_bit 10 x)\<rparr>"

definition fips512 :: "u64 fips_sha2" where
  "fips512 = \<lparr>big0 = (\<lambda>x. word_rotr 28 x XOR word_rotr 34 x XOR word_rotr 39 x),
     big1 = (\<lambda>x. word_rotr 14 x XOR word_rotr 18 x XOR word_rotr 41 x),
     small0 = (\<lambda>x. word_rotr 1 x XOR word_rotr 8 x XOR drop_bit 7 x),
     small1 = (\<lambda>x. word_rotr 19 x XOR word_rotr 61 x XOR drop_bit 6 x)\<rparr>"

text \<open>The message schedule and the rotation of the eight working variables.\<close>

fun fips_W :: "'a::len word fips_sha2 \<Rightarrow> 'a word list \<Rightarrow> nat \<Rightarrow> 'a word" where
  "fips_W F M t = (if t < 16 then M ! t
     else small1 F (fips_W F M (t - 2)) + fips_W F M (t - 7) + small0 F (fips_W F M (t - 15)) + fips_W F M (t - 16))"

declare fips_W.simps [simp del]

fun fips_step :: "'a::len word fips_sha2 \<Rightarrow> 'a word \<Rightarrow> 'a word \<Rightarrow> 'a word list \<Rightarrow> 'a word list" where
  "fips_step F k w [a, b, c, d, e, f, g, h] =
     (let T1 = h + big1 F e + fips_Ch e f g + k + w; T2 = big0 F a + fips_Maj a b c
      in [T1 + T2, a, b, c, d + T1, e, f, g])"
| "fips_step F k w st = st"

fun fips_rounds :: "'a::len word fips_sha2 \<Rightarrow> 'a word list \<Rightarrow> nat \<Rightarrow> 'a word list \<Rightarrow> 'a word list \<Rightarrow> 'a word list" where
  "fips_rounds F M t [] st = st"
| "fips_rounds F M t (k # ks) st = fips_rounds F M (Suc t) ks (fips_step F k (fips_W F M t) st)"

definition fips_compress :: "'a::len word fips_sha2 \<Rightarrow> 'a word list \<Rightarrow> 'a word list \<Rightarrow> 'a word list \<Rightarrow> 'a word list" where
  "fips_compress F K H M = map2 (+) H (fips_rounds F M 0 K H)"

subsection \<open>The unrolled rounds implement them\<close>

lemma list8: "length r = 8 \<Longrightarrow> \<exists>a b c d e f g h. r = [a, b, c, d, e, f, g, h]"
  by (auto simp: numeral_eq_Suc length_Suc_conv)

lemma length_fips_step: "length st = 8 \<Longrightarrow> length (fips_step F k w st) = 8"
  using list8 [of st] by (auto simp: Let_def)

lemma Ch_fips: "z XOR (x AND (y XOR z)) = fips_Ch x y (z :: 'a::len word)"
  by (rule bit_word_eqI) (auto simp: fips_Ch_def bit_simps)

lemma Maj_fips: "(x AND y) OR (z AND (x OR y)) = fips_Maj x y (z :: 'a::len word)"
  by (rule bit_word_eqI) (auto simp: fips_Maj_def bit_simps)

lemma rotr_shifts:
  assumes "0 < n" "n < LENGTH('a)"
  shows "drop_bit n x OR push_bit (LENGTH('a) - n) x = word_rotr n (x :: 'a::len word)"
proof (rule bit_word_eqI)
  fix m assume m: "m < LENGTH('a)"
  show "bit (drop_bit n x OR push_bit (LENGTH('a) - n) x) m \<longleftrightarrow> bit (word_rotr n x) m"
  proof (cases "n + m < LENGTH('a)")
    case True
    then show ?thesis using assms m by (auto simp: bit_simps add.commute [of m n] dest: bit_imp_le_length)
  next
    case False
    then have "(m + n) mod LENGTH('a) = m + n - LENGTH('a)" using assms m by (simp add: mod_if)
    then show ?thesis using False assms m by (auto simp: bit_simps dest: bit_imp_le_length)
  qed
qed

definition regs_match :: "nat \<Rightarrow> 'a list \<Rightarrow> 'a list \<Rightarrow> bool" where
  "regs_match i r st \<longleftrightarrow> length r = 8 \<and> length st = 8 \<and> (\<forall>j < 8. r ! reg_at 8 i j = st ! j)"

definition sched_match :: "'a::len word fips_sha2 \<Rightarrow> 'a word list \<Rightarrow> nat \<Rightarrow> 'a word list \<Rightarrow> bool" where
  "sched_match F M i w \<longleftrightarrow> length w = 16 \<and> (\<forall>t < i. i \<le> t + 16 \<longrightarrow> w ! (t mod 16) = fips_W F M t)"

lemma sha2_word_fips:
  assumes "sched_match F M i w"
  shows "sha2_word (small0 F) (small1 F) M i w = fips_W F M i"
proof (cases "i < 16")
  case False
  have "w ! (t mod 16) = fips_W F M t" if "t < i" "i \<le> t + 16" for t
    using assms that by (simp add: sched_match_def)
  moreover have "(i + 14) mod 16 = (i - 2) mod 16" "(i + 9) mod 16 = (i - 7) mod 16"
    "(i + 1) mod 16 = (i - 15) mod 16" "i mod 16 = (i - 16) mod 16"
    using False by (simp_all add: mod_if [of "i + 14"] mod_if [of "i + 9"] mod_if [of "Suc i"] mod_if [of i])
  ultimately have "w ! ((i + 14) mod 16) = fips_W F M (i - 2)" "w ! ((i + 9) mod 16) = fips_W F M (i - 7)"
    "w ! ((i + 1) mod 16) = fips_W F M (i - 15)" "w ! (i mod 16) = fips_W F M (i - 16)"
    using False by simp_all
  then show ?thesis using False by (simp add: sha2_word_def fips_W.simps [of F M i])
qed (simp add: sha2_word_def fips_W.simps)

lemma sched_match_step:
  assumes "sched_match F M i w"
  shows "sched_match F M (Suc i) (w[i mod 16 := fips_W F M i])"
proof -
  have ne: "i mod 16 \<noteq> t mod 16" if "t < i" "Suc i \<le> t + 16" for t
  proof
    assume "i mod 16 = t mod 16"
    then have "16 dvd i - t" using that by (metis less_or_eq_imp_le mod_eq_dvd_iff_nat)
    then show False using that by (auto dest: dvd_imp_le)
  qed
  show ?thesis using assms ne by (auto simp: sched_match_def less_Suc_eq nth_list_update)
qed

lemma reg_at_if: "j < 8 \<Longrightarrow> reg_at 8 i j = (if i mod 8 \<le> j then j - i mod 8 else j + 8 - i mod 8)"
  using mod_less_divisor [of 8 i] by (auto simp: reg_at_def le_mod_geq)

lemma reg_at_Suc:
  "reg_at 8 (Suc i) 0 = reg_at 8 i 7" "reg_at 8 (Suc i) 1 = reg_at 8 i 0" "reg_at 8 (Suc i) 2 = reg_at 8 i 1"
  "reg_at 8 (Suc i) 3 = reg_at 8 i 2" "reg_at 8 (Suc i) 4 = reg_at 8 i 3" "reg_at 8 (Suc i) 5 = reg_at 8 i 4"
  "reg_at 8 (Suc i) 6 = reg_at 8 i 5" "reg_at 8 (Suc i) 7 = reg_at 8 i 6"
  using mod_less_divisor [of 8 i] by (auto simp: reg_at_if mod_Suc)

lemma reg_at_inj: "j < 8 \<Longrightarrow> k < 8 \<Longrightarrow> reg_at 8 i j = reg_at 8 i k \<longleftrightarrow> j = k"
  using mod_less_divisor [of 8 i] by (auto simp: reg_at_if split: if_splits)

lemma reg_at_less: "reg_at 8 i j < 8"
  by (simp add: reg_at_def)

lemma all_less_8: "(\<forall>j < 8. P j) \<longleftrightarrow> P 0 \<and> P 1 \<and> P 2 \<and> P 3 \<and> P 4 \<and> P 5 \<and> P 6 \<and> P (7 :: nat)"
proof -
  have "j < 8 \<Longrightarrow> j = 0 \<or> j = 1 \<or> j = 2 \<or> j = 3 \<or> j = 4 \<or> j = 5 \<or> j = 6 \<or> j = 7" for j :: nat by linarith
  then show ?thesis by auto
qed

lemma regs_match_step:
  assumes "regs_match i r st" and F: "\<And>a b c d e f g h k w. rnd a b c d e f g h k w =
     (let T1 = h + big1 F e + fips_Ch e f g + k + w; T2 = big0 F a + fips_Maj a b c in (d + T1, T1 + T2))"
  shows "regs_match (Suc i)
     (let p = reg_at 8 i; dh = rnd (r ! p 0) (r ! p 1) (r ! p 2) (r ! p 3) (r ! p 4) (r ! p 5) (r ! p 6) (r ! p 7) k x
      in r[p 3 := fst dh, p 7 := snd dh]) (fips_step F k x st)"
proof -
  obtain a b c d e f g h where st: "st = [a, b, c, d, e, f, g, h]"
    using assms list8 [of st] by (auto simp: regs_match_def)
  have r: "r ! reg_at 8 i j = [a, b, c, d, e, f, g, h] ! j" if "j < 8" for j
    using assms(1) st that by (simp add: regs_match_def)
  have len: "length r = 8" using assms(1) by (simp add: regs_match_def)
  have inj: "reg_at 8 i j = reg_at 8 i k \<longleftrightarrow> j = k" if "j < 8" "k < 8" for j k using that by (rule reg_at_inj)
  show ?thesis
    using len unfolding regs_match_def all_less_8 reg_at_Suc Let_def F st
    by (simp add: r nth_list_update inj reg_at_less Let_def)
qed

lemma sha2_rounds_fips:
  assumes "regs_match i r st" "sched_match F M i w" and "\<And>a b c d e f g h k w. rnd a b c d e f g h k w =
     (let T1 = h + big1 F e + fips_Ch e f g + k + w; T2 = big0 F a + fips_Maj a b c in (d + T1, T1 + T2))"
  shows "regs_match (i + length ks) (sha2_rounds rnd (small0 F) (small1 F) M i ks r w) (fips_rounds F M i ks st)"
  using assms(1,2)
proof (induction ks arbitrary: i r st w)
  case (Cons k ks)
  have w: "sha2_word (small0 F) (small1 F) M i w = fips_W F M i" using Cons.prems(2) by (rule sha2_word_fips)
  show ?case
    using Cons.IH [OF regs_match_step [OF Cons.prems(1) assms(3), of k "fips_W F M i"] sched_match_step [OF Cons.prems(2)]]
    by (simp add: Let_def w)
qed simp

lemma sha2_rounds_compress:
  assumes "length s = 8" "8 dvd length K" and "\<And>a b c d e f g h k w. rnd a b c d e f g h k w =
     (let T1 = h + big1 F e + fips_Ch e f g + k + w; T2 = big0 F a + fips_Maj a b c in (d + T1, T1 + T2))"
  shows "add_words s (sha2_rounds rnd (small0 F) (small1 F) M 0 K s (replicate 16 0)) = fips_compress F K s M"
proof -
  have "regs_match 0 s s" using assms(1) by (simp add: regs_match_def reg_at_def)
  then have "regs_match (length K) (sha2_rounds rnd (small0 F) (small1 F) M 0 K s (replicate 16 0)) (fips_rounds F M 0 K s)"
    using sha2_rounds_fips [OF _ _ assms(3), of 0 s s M "replicate 16 0" K] by (simp add: sched_match_def)
  moreover have "reg_at 8 (length K) j = j" if "j < 8" for j using assms(2) that by (simp add: reg_at_def)
  ultimately have "sha2_rounds rnd (small0 F) (small1 F) M 0 K s (replicate 16 0) = fips_rounds F M 0 K s"
    by (intro nth_equalityI) (simp_all add: regs_match_def)
  then show ?thesis by (simp add: add_words_def fips_compress_def)
qed

lemma sha256_Sigma0_fips: "sha256_Sigma0 = big0 fips256"
  using rotr_shifts [where ?'a = 32 and n = 2]
    rotr_shifts [where ?'a = 32 and n = 13]
    rotr_shifts [where ?'a = 32 and n = 22]
  by (simp add: sha256_Sigma0_def fips256_def fun_eq_iff)

lemma sha256_Sigma1_fips: "sha256_Sigma1 = big1 fips256"
  using rotr_shifts [where ?'a = 32 and n = 6]
    rotr_shifts [where ?'a = 32 and n = 11]
    rotr_shifts [where ?'a = 32 and n = 25]
  by (simp add: sha256_Sigma1_def fips256_def fun_eq_iff)

lemma sha256_sigma0_fips: "sha256_sigma0 = small0 fips256"
  using rotr_shifts [where ?'a = 32 and n = 7]
    rotr_shifts [where ?'a = 32 and n = 18]
  by (simp add: sha256_sigma0_def fips256_def fun_eq_iff)

lemma sha256_sigma1_fips: "sha256_sigma1 = small1 fips256"
  using rotr_shifts [where ?'a = 32 and n = 17]
    rotr_shifts [where ?'a = 32 and n = 19]
  by (simp add: sha256_sigma1_def fips256_def fun_eq_iff)

lemma sha256_Round_fips: "sha256_Round a b c d e f g h k w =
   (let T1 = h + big1 fips256 e + fips_Ch e f g + k + w; T2 = big0 fips256 a + fips_Maj a b c in (d + T1, T1 + T2))"
  by (simp add: sha256_Round_def sha256_Sigma0_fips sha256_Sigma1_fips sha256_Ch_def sha256_Maj_def Ch_fips Maj_fips)

lemma sha512_Sigma0_fips: "sha512_Sigma0 = big0 fips512"
  using rotr_shifts [where ?'a = 64 and n = 28]
    rotr_shifts [where ?'a = 64 and n = 34]
    rotr_shifts [where ?'a = 64 and n = 39]
  by (simp add: sha512_Sigma0_def fips512_def fun_eq_iff)

lemma sha512_Sigma1_fips: "sha512_Sigma1 = big1 fips512"
  using rotr_shifts [where ?'a = 64 and n = 14]
    rotr_shifts [where ?'a = 64 and n = 18]
    rotr_shifts [where ?'a = 64 and n = 41]
  by (simp add: sha512_Sigma1_def fips512_def fun_eq_iff)

lemma sha512_sigma0_fips: "sha512_sigma0 = small0 fips512"
  using rotr_shifts [where ?'a = 64 and n = 1]
    rotr_shifts [where ?'a = 64 and n = 8]
  by (simp add: sha512_sigma0_def fips512_def fun_eq_iff)

lemma sha512_sigma1_fips: "sha512_sigma1 = small1 fips512"
  using rotr_shifts [where ?'a = 64 and n = 19]
    rotr_shifts [where ?'a = 64 and n = 61]
  by (simp add: sha512_sigma1_def fips512_def fun_eq_iff)

lemma sha512_Round_fips: "sha512_Round a b c d e f g h k w =
   (let T1 = h + big1 fips512 e + fips_Ch e f g + k + w; T2 = big0 fips512 a + fips_Maj a b c in (d + T1, T1 + T2))"
  by (simp add: sha512_Round_def sha512_Sigma0_fips sha512_Sigma1_fips sha512_Ch_def sha512_Maj_def Ch_fips Maj_fips)

lemmas sha2_K_defs = sha256_K_def sha256_K1_def sha256_K2_def sha256_K3_def sha256_K4_def sha256_K5_def sha256_K6_def
  sha256_K7_def sha256_K8_def sha512_K_def sha512_K1_def sha512_K2_def sha512_K3_def sha512_K4_def sha512_K5_def
  sha512_K6_def sha512_K7_def sha512_K8_def sha512_K9_def sha512_K10_def

lemma length_K: "length sha256_K = 64" "length sha512_K = 80"
  by (simp_all add: sha2_K_defs)

definition block_words :: "(bytes \<Rightarrow> 'a::len word) \<Rightarrow> nat \<Rightarrow> bytes \<Rightarrow> 'a word list" where
  "block_words rd n chunk = map (\<lambda>i. rd (drop (n * i) chunk)) [0..<16]"

lemma sha256_block_fips: "length s = 8 \<Longrightarrow> sha256_block s chunk = fips_compress fips256 sha256_K s (block_words ReadBE32 4 chunk)"
  unfolding sha256_block_def sha256_sigma0_fips sha256_sigma1_fips block_words_def
  by (rule sha2_rounds_compress [OF _ _ sha256_Round_fips]) (simp_all add: length_K)

lemma sha512_Transform_fips: "length s = 8 \<Longrightarrow> sha512_Transform s chunk = fips_compress fips512 sha512_K s (block_words ReadBE64 8 chunk)"
  unfolding sha512_Transform_def sha512_sigma0_fips sha512_sigma1_fips block_words_def
  by (rule sha2_rounds_compress [OF _ _ sha512_Round_fips]) (simp_all add: length_K)

subsection \<open>Whole messages\<close>

definition md_pad :: "nat \<Rightarrow> nat \<Rightarrow> (u64 \<Rightarrow> bytes) \<Rightarrow> bytes \<Rightarrow> bytes" where
  "md_pad B n sizedesc m = m @ 0x80 # replicate ((2 * B - n - 1 - length m mod B) mod B) 0 @ sizedesc (of_nat (8 * length m))"

definition blocks_of :: "nat \<Rightarrow> bytes \<Rightarrow> bytes list" where
  "blocks_of B m = map (\<lambda>i. take B (drop (B * i) m)) [0..<length m div B]"

lemma blocks_of_step: "0 < B \<Longrightarrow> B \<le> length m \<Longrightarrow> blocks_of B m = take B m # blocks_of B (drop B m)"
proof -
  assume B: "0 < B" "B \<le> length m"
  have d: "length m div B = Suc (length (drop B m) div B)" using B by (simp add: le_div_geq)
  show ?thesis
    unfolding blocks_of_def d
    by (simp add: upt_conv_Cons map_Suc_upt [symmetric] add.commute del: upt_Suc)
qed

lemma full_chunks_blocks: "0 < B \<Longrightarrow> fst (full_chunks B tr s m) = foldl tr s (blocks_of B m)"
proof (induction B tr s m rule: full_chunks.induct)
  case (1 B tr s m)
  show ?case
  proof (cases "B \<le> length m")
    case True
    have "full_chunks B tr s m = full_chunks B tr (tr s (take B m)) (drop B m)"
      using True "1.prems" by (subst full_chunks.simps) simp
    then show ?thesis using "1.IH" "1.prems" True by (simp only: blocks_of_step) simp
  next
    case False
    then show ?thesis using "1.prems" by (simp add: full_chunks.simps blocks_of_def)
  qed
qed

lemma pad_bytes:
  assumes "0 < B" "B dvd 2 ^ 64"
  shows "take (pad_length B n (of_nat (length m) :: u64)) (0x80 # replicate (B - 1) 0) =
     (0x80 :: u8) # replicate ((2 * B - n - 1 - length m mod B) mod B) 0"
proof -
  let ?k = "(2 * B - n - 1 - length m mod B) mod B"
  have "pad_length B n (of_nat (length m)) = Suc ?k" using assms by (simp add: pad_length_def unat_of_nat mod_mod_cancel)
  moreover have "?k \<le> B - 1" using mod_less_divisor [OF assms(1), of "2 * B - n - 1 - length m mod B"] by linarith
  ultimately show ?thesis by (simp only: take_Suc_Cons take_replicate min_absorb1)
qed

lemma push3: "push_bit 3 (of_nat n :: u64) = of_nat (8 * n)"
  by (simp add: push_bit_eq_mult)

lemma length_Write:
  "length (WriteBE64 x) = 8" "length (WriteLE64 x) = 8" "length (WriteBE32 y) = 4" "length (WriteLE32 y) = 4"
  by (simp_all add: WriteBE64_def WriteLE64_def WriteBE32_def WriteLE32_def)

lemma dvd_md_pad:
  assumes "0 < B" "n < B" "\<And>x. length (sizedesc x) = n"
  shows "B dvd length (md_pad B n sizedesc m)"
proof -
  let ?r = "length m mod B" and ?k = "2 * B - n - 1 - length m mod B"
  have r: "?r < B" using assms(1) by simp
  have "length (md_pad B n sizedesc m) = length m + 1 + ?k mod B + n" by (simp add: md_pad_def assms(3))
  also have "\<dots> mod B = (?r + 1 + ?k + n) mod B" by (intro mod_add_cong) simp_all
  also have "?r + 1 + ?k + n = 2 * B" using assms(2) r by linarith
  finally show ?thesis by (simp add: mod_eq_0_iff_dvd)
qed

context block_hasher
begin

lemma pad_md:
  assumes "hashes_to B tr init h m" "\<And>x. length (sizedesc x) = n"
  shows "h_s (hasher_pad B tr sizedesc h) = foldl tr init (blocks_of B (md_pad B n sizedesc m))"
  using pad_hashes [OF assms(1), of sizedesc] pad_bytes [OF B_pos B_dvd, of n m]
  by (simp only: assms(2) md_pad_def full_chunks_blocks [OF B_pos] push3 append_Cons)

lemma stream_md:
  assumes "hashes_to B tr init h []" "\<And>x. length (sizedesc x) = n"
  shows "h_s (hasher_pad B tr sizedesc (foldl (hasher_Write B tr) h ds)) =
     foldl tr init (blocks_of B (md_pad B n sizedesc (concat ds)))"
  using pad_md [OF _ assms(2)] Writes_hash [OF assms(1), of ds] by simp

end

subsection \<open>SHA-256 takes whole runs of chunks\<close>

lemma sha256_block_take: "64 \<le> length m \<Longrightarrow> sha256_block s (take 64 m) = sha256_block s m"
proof -
  have "ReadBE32 (drop (4 * i) (take 64 m)) = ReadBE32 (drop (4 * i) m)" if "i < 16" for i
    using that by (simp add: ReadBE32_def drop_take min_def)
  then have "map (\<lambda>i. ReadBE32 (drop (4 * i) (take 64 m))) [0..<16] = map (\<lambda>i. ReadBE32 (drop (4 * i) m)) [0..<16]"
    by (intro map_cong) simp_all
  then show ?thesis by (simp only: sha256_block_def)
qed

lemma sha256_Transform_1: "(\<lambda>s c. sha256_Transform s c 1) = sha256_block"
  by (simp add: fun_eq_iff)

lemma sha256_Transform_chunks:
  "full_chunks 64 sha256_block s m =
     (sha256_Transform s m (length m div 64), drop (64 * (length m div 64)) m)"
proof (induction "length m div 64" arbitrary: s m)
  case 0
  then have "length m < 64" by (metis div_greater_zero_iff not_less zero_less_numeral less_irrefl)
  then show ?case by (simp add: full_chunks.simps)
next
  case (Suc n)
  then have l: "64 \<le> length m" by (metis div_greater_zero_iff zero_less_Suc zero_less_numeral)
  then have n: "length (drop 64 m) div 64 = n" "length m div 64 = Suc n" using Suc.hyps(2) by (simp_all add: le_div_geq)
  show ?case
    using Suc.hyps(1) [of "drop 64 m"] l n
    by (simp add: full_chunks.simps [of 64 _ s m] sha256_block_take add.commute)
qed

lemma CSHA256_Write_hasher: "CSHA256_Write = hasher_Write 64 sha256_block"
proof (intro ext)
  fix h d
  have "h1\<lparr>h_s := h_s h1, h_bytes := h_bytes h1 + 0\<rparr> = h1" for h1 :: CSHA256 by simp
  moreover have "length m - (length m - 64 * (length m div 64)) = 64 * (length m div 64)" for m :: bytes
    using div_times_less_eq_dividend [of "length m" 64] by (simp add: mult.commute)
  ultimately show "CSHA256_Write h d = hasher_Write 64 sha256_block h d"
    unfolding CSHA256_Write_def sha256_Transform_1
    by (auto simp: hasher_Write_def sha256_Transform_chunks Let_def div_eq_0_iff split: prod.splits)
qed

lemma CSHA256_Finalize_hasher:
  "CSHA256_Finalize h = concat (map WriteBE32 (h_s (hasher_pad 64 sha256_block WriteBE64 h)))"
  by (simp add: CSHA256_Finalize_def hasher_pad_def pad_length_def length_Write CSHA256_Write_hasher Let_def)

lemma foldl_invariant:
  assumes "I s" "\<And>s b. I s \<Longrightarrow> f s b = g s b" "\<And>s b. I s \<Longrightarrow> I (g s b)"
  shows "foldl f s bs = foldl g s bs"
  using assms(1) by (induction bs arbitrary: s) (simp_all add: assms(2,3))

lemma length_fips_compress: "length s = 8 \<Longrightarrow> length (fips_compress F K s M) = 8"
proof -
  have "length st = 8 \<Longrightarrow> length (fips_rounds F M t K st) = 8" for t st
    by (induction K arbitrary: t st) (simp_all add: length_fips_step)
  then show "length s = 8 \<Longrightarrow> ?thesis" by (simp add: fips_compress_def)
qed

definition sha256_spec :: "bytes \<Rightarrow> bytes" where
  "sha256_spec m = concat (map WriteBE32 (foldl
     (\<lambda>H b. fips_compress fips256 sha256_K H (block_words ReadBE32 4 b)) sha256_Initialize
     (blocks_of 64 (md_pad 64 8 WriteBE64 m))))"

definition sha512_spec :: "bytes \<Rightarrow> bytes" where
  "sha512_spec m = concat (map WriteBE64 (foldl
     (\<lambda>H b. fips_compress fips512 sha512_K H (block_words ReadBE64 8 b)) sha512_Initialize
     (blocks_of 128 (md_pad 128 16 (\<lambda>n. replicate 8 0 @ WriteBE64 n) m))))"

lemma init_hashes:
  "hashes_to 64 sha256_block sha256_Initialize CSHA256 []"
  "hashes_to 128 sha512_Transform sha512_Initialize CSHA512 []"
  "hashes_to 64 sha1_Transform sha1_Initialize CSHA1 []"
  "hashes_to 64 ripemd160_Transform ripemd160_Initialize CRIPEMD160 []"
  by (simp_all add: CSHA256_def CSHA512_def CSHA1_def CRIPEMD160_def full_chunks_hashes_init)

lemma CSHA256_stream: "CSHA256_Finalize (foldl CSHA256_Write CSHA256 ds) = sha256_spec (concat ds)"
proof -
  let ?bs = "blocks_of 64 (md_pad 64 8 WriteBE64 (concat ds))"
  have "foldl sha256_block sha256_Initialize ?bs =
      foldl (\<lambda>H b. fips_compress fips256 sha256_K H (block_words ReadBE32 4 b)) sha256_Initialize ?bs"
    by (rule foldl_invariant [where I = "\<lambda>s. length s = 8"])
      (simp_all add: sha256_Initialize_def sha256_block_fips length_fips_compress)
  then show ?thesis
    using sha256.stream_md [OF init_hashes(1), of WriteBE64 8 ds]
    by (simp add: CSHA256_Finalize_hasher CSHA256_Write_hasher sha256_spec_def length_Write)
qed

lemma CSHA512_stream: "CSHA512_Finalize (foldl CSHA512_Write CSHA512 ds) = sha512_spec (concat ds)"
proof -
  let ?bs = "blocks_of 128 (md_pad 128 16 (\<lambda>n. replicate 8 0 @ WriteBE64 n) (concat ds))"
  have "foldl sha512_Transform sha512_Initialize ?bs =
      foldl (\<lambda>H b. fips_compress fips512 sha512_K H (block_words ReadBE64 8 b)) sha512_Initialize ?bs"
    by (rule foldl_invariant [where I = "\<lambda>s. length s = 8"])
      (simp_all add: sha512_Initialize_def sha512_Transform_fips length_fips_compress)
  moreover have "length (replicate 8 0 @ WriteBE64 x) = 16" for x by (simp add: length_Write)
  ultimately show ?thesis
    using sha512.stream_md [OF init_hashes(2), of "\<lambda>n. replicate 8 0 @ WriteBE64 n" 16 ds]
    by (simp add: CSHA512_Finalize_def CSHA512_Write_def sha512_spec_def)
qed

lemma CSHA1_stream: "CSHA1_Finalize (foldl CSHA1_Write CSHA1 ds) =
   concat (map WriteBE32 (foldl sha1_Transform sha1_Initialize (blocks_of 64 (md_pad 64 8 WriteBE64 (concat ds)))))"
  using sha1.stream_md [OF init_hashes(3), of WriteBE64 8 ds] by (simp add: CSHA1_Finalize_def CSHA1_Write_def length_Write)

lemma CRIPEMD160_stream: "CRIPEMD160_Finalize (foldl CRIPEMD160_Write CRIPEMD160 ds) =
   concat (map WriteLE32 (foldl ripemd160_Transform ripemd160_Initialize (blocks_of 64 (md_pad 64 8 WriteLE64 (concat ds)))))"
  using ripemd160.stream_md [OF init_hashes(4), of WriteLE64 8 ds]
  by (simp add: CRIPEMD160_Finalize_def CRIPEMD160_Write_def length_Write)

subsection \<open>Evaluation of the self-test\<close>

text \<open>The rounds of the three blocks that \<open>SelfTest\<close> hashes.\<close>

lemma selftest_rounds1: "sha2_rounds sha256_Round sha256_sigma0 sha256_sigma1
     [0x80000000, 0, 0, 0, 0, 0, 0, 0, 0, 0, 0, 0, 0, 0, 0, 0] 0 sha256_K
     sha256_Initialize (replicate 16 0) =
   [0x79a6dddb, 0xdd946d8f, 0x5e8d0156, 0xf41fc3ea, 0xd69fef65, 0xc9962ac0, 0x8511bf70, 0x1c71eb3c]"
  by code_simp

lemma selftest_rounds2: "sha2_rounds sha256_Round sha256_sigma0 sha256_sigma1
     [0x20202020, 0x20202020, 0x20202020, 0x20202020, 0x20202020, 0x20202020, 0x20202020, 0x20202020,
      0x20202020, 0x20202020, 0x20202020, 0x20202020, 0x20202020, 0x20202020, 0x20202020, 0x20202020] 0 sha256_K
     sha256_Initialize (replicate 16 0) =
   [0xd85ed398, 0xb9f119a9, 0x59cf884f, 0x44f1aaac, 0x210b94e4, 0xdf1f034f, 0xf68be645, 0xac0e7414]"
  by code_simp

lemma selftest_rounds3: "sha2_rounds sha256_Round sha256_sigma0 sha256_sigma1
     [0x80000000, 0, 0, 0, 0, 0, 0, 0, 0, 0, 0, 0, 0, 0, 0, 0x200] 0 sha256_K
     [0x4268b9ff, 0x7558c82e, 0x963e7bc1, 0xea419fe6, 0x7219e763, 0x7a246bdb, 0x160fbff0, 0x7ef412d] (replicate 16 0) =
   [0x8bd899b1, 0x9f236258, 0xa895adcd, 0xf625cbe2, 0x7e2903e, 0xb099b36e, 0x9ca095ef, 0x87a1111]"
  by code_simp

lemma ReadBE32_Write: "ReadBE32 (WriteBE32 x @ ys) = x"
proof -
  have "ReadBE32 (WriteBE32 x @ ys) = ReadBE32 (WriteBE32 x)" by (simp add: ReadBE32_def length_Write)
  then show ?thesis by simp
qed

lemma drop_WriteBE32:
  "i \<le> length ws \<Longrightarrow> drop (4 * i) (concat (map WriteBE32 ws) @ xs) = concat (map WriteBE32 (drop i ws)) @ xs"
proof (induction ws arbitrary: i)
  case (Cons w ws)
  then show ?case by (cases i) (simp_all add: length_Write)
qed simp

lemma words_WriteBE32:
  assumes "length ws = 16"
  shows "map (\<lambda>i. ReadBE32 (drop (4 * i) (concat (map WriteBE32 ws) @ xs))) [0..<16] = ws"
proof (rule nth_equalityI)
  fix i assume "i < length (map (\<lambda>i. ReadBE32 (drop (4 * i) (concat (map WriteBE32 ws) @ xs))) [0..<16])"
  then have i: "i < length ws" using assms by simp
  then have "drop (4 * i) (concat (map WriteBE32 ws) @ xs) = WriteBE32 (ws ! i) @ concat (map WriteBE32 (drop (Suc i) ws)) @ xs"
    by (subst drop_WriteBE32) (simp_all add: Cons_nth_drop_Suc [symmetric])
  then show "map (\<lambda>i. ReadBE32 (drop (4 * i) (concat (map WriteBE32 ws) @ xs))) [0..<16] ! i = ws ! i"
    using i assms by (simp add: ReadBE32_Write)
qed (use assms in simp)

lemma concat_replicate: "concat (replicate n (replicate k x)) = replicate (n * k) x"
  by (induction n) (simp_all add: replicate_add)

lemma WriteBE32_bytes:
  "WriteBE32 x = [of_nat (unat x div 256 div 256 div 256), of_nat (unat x div 256 div 256), of_nat (unat x div 256), of_nat (unat x)]"
proof -
  have "4 = Suc (Suc (Suc (Suc 0)))" by simp
  then show ?thesis by (simp only: WriteBE32_def le_encode.simps) simp
qed

lemma WriteBE32_consts:
  "WriteBE32 0 = [0, 0, 0, 0]" "WriteBE32 0x80000000 = [0x80, 0, 0, 0]" "WriteBE32 0x20202020 = [0x20, 0x20, 0x20, 0x20]"
  "WriteBE32 0x200 = [0, 0, 2, 0]"
  by (simp_all add: WriteBE32_bytes)

lemma replicate_groups: "concat (replicate n [x, x, x, x]) = replicate (4 * n) x"
  by (induction n) (simp_all add: numeral_eq_Suc)

lemma selftest_chunks:
  "0x80 # replicate 63 0 = concat (map WriteBE32 (0x80000000 # replicate 15 0)) @ []"
  "replicate 64 0x20 @ xs = concat (map WriteBE32 (replicate 16 0x20202020)) @ xs"
  "0x80 # replicate 61 0 @ [2, 0] = concat (map WriteBE32 (0x80000000 # replicate 14 0 @ [0x200])) @ []"
proof -
  have r: "replicate 63 0 = [0, 0, 0] @ replicate 60 (0 :: u8)" "replicate 61 0 @ [2, 0] = [0, 0, 0] @ replicate 56 0 @ [0, 0, 2, 0 :: u8]"
    using replicate_add [of 3 60 "0 :: u8"] replicate_add [of 3 58 "0 :: u8"] replicate_add [of 56 2 "0 :: u8"]
    by (simp_all add: numeral_3_eq_3 numeral_2_eq_2)
  show "0x80 # replicate 63 0 = concat (map WriteBE32 (0x80000000 # replicate 15 0)) @ []"
    "replicate 64 0x20 @ xs = concat (map WriteBE32 (replicate 16 0x20202020)) @ xs"
    "0x80 # replicate 61 0 @ [2, 0] = concat (map WriteBE32 (0x80000000 # replicate 14 0 @ [0x200])) @ []"
    by (simp_all add: WriteBE32_consts map_replicate replicate_groups r)
qed


lemma selftest_block:
  assumes "length ws = 16"
  shows "sha256_block s (concat (map WriteBE32 ws) @ xs) =
     add_words s (sha2_rounds sha256_Round sha256_sigma0 sha256_sigma1 ws 0 sha256_K s (replicate 16 0))"
  by (simp only: sha256_block_def words_WriteBE32 [OF assms])

lemma replicate_list:
  "replicate 14 x = [x, x, x, x, x, x, x, x, x, x, x, x, x, x]" "replicate 15 x = x # replicate 14 x"
  "replicate 16 x = x # x # replicate 14 x"
  by (simp_all add: numeral_eq_Suc)

lemma selftest_lists:
  "0x80000000 # replicate 15 0 = [0x80000000, 0, 0, 0, 0, 0, 0, 0, 0, 0, 0, 0, 0, 0, 0, 0 :: u32]"
  "replicate 16 0x20202020 = [0x20202020, 0x20202020, 0x20202020, 0x20202020, 0x20202020, 0x20202020, 0x20202020, 0x20202020,
      0x20202020, 0x20202020, 0x20202020, 0x20202020, 0x20202020, 0x20202020, 0x20202020, 0x20202020 :: u32]"
  "0x80000000 # replicate 14 0 @ [0x200] = [0x80000000, 0, 0, 0, 0, 0, 0, 0, 0, 0, 0, 0, 0, 0, 0, 0x200 :: u32]"
  by (simp_all add: replicate_list)

lemma selftest_steps:
  "sha256_block sha256_Initialize (0x80 # replicate 63 0) =
     [0xe3b0c442, 0x98fc1c14, 0x9afbf4c8, 0x996fb924, 0x27ae41e4, 0x649b934c, 0xa495991b, 0x7852b855]"
  "sha256_block sha256_Initialize (replicate 64 0x20 @ xs) = [0x4268b9ff, 0x7558c82e, 0x963e7bc1, 0xea419fe6, 0x7219e763, 0x7a246bdb, 0x160fbff0, 0x7ef412d]"
  "sha256_block [0x4268b9ff, 0x7558c82e, 0x963e7bc1, 0xea419fe6, 0x7219e763, 0x7a246bdb, 0x160fbff0, 0x7ef412d] (0x80 # replicate 61 0 @ [2, 0]) =
     [0xce4153b0, 0x147c2a86, 0x3ed4298e, 0xe0676bc8, 0x79fc77a1, 0x2abe1f49, 0xb2b055df, 0x1069523e]"
proof -
  show "sha256_block sha256_Initialize (0x80 # replicate 63 0) =
     [0xe3b0c442, 0x98fc1c14, 0x9afbf4c8, 0x996fb924, 0x27ae41e4, 0x649b934c, 0xa495991b, 0x7852b855]"
    unfolding selftest_chunks(1)
    by (subst selftest_block, simp, subst selftest_lists(1), subst selftest_rounds1)
      (simp add: add_words_def sha256_Initialize_def)
  show "sha256_block sha256_Initialize (replicate 64 0x20 @ xs) = [0x4268b9ff, 0x7558c82e, 0x963e7bc1, 0xea419fe6, 0x7219e763, 0x7a246bdb, 0x160fbff0, 0x7ef412d]"
    unfolding selftest_chunks(2)
    by (subst selftest_block, simp, subst selftest_lists(2), subst selftest_rounds2)
      (simp add: add_words_def sha256_Initialize_def)
  show "sha256_block [0x4268b9ff, 0x7558c82e, 0x963e7bc1, 0xea419fe6, 0x7219e763, 0x7a246bdb, 0x160fbff0, 0x7ef412d] (0x80 # replicate 61 0 @ [2, 0]) =
     [0xce4153b0, 0x147c2a86, 0x3ed4298e, 0xe0676bc8, 0x79fc77a1, 0x2abe1f49, 0xb2b055df, 0x1069523e]"
    unfolding selftest_chunks(3)
    by (subst selftest_block, simp, subst selftest_lists(3), subst selftest_rounds3)
      (simp add: add_words_def)
qed

lemma SelfTest_ok: "SelfTest sha256_Transform"
proof -
  have "drop 64 (replicate 64 (32 :: u8) @ 0x80 # replicate 61 0 @ [2, 0]) = 0x80 # replicate 61 0 @ [2, 0]" by simp
  moreover have "sha256_Transform s c 1 = sha256_block s c" "sha256_Transform s c 0 = s"
      "sha256_Transform s c 2 = sha256_block (sha256_block s c) (drop 64 c)" for s c
    by (simp_all add: numeral_2_eq_2)
  moreover have "drop 1 (x # xs) = xs" for x :: u8 and xs by simp
  ultimately show ?thesis
    unfolding SelfTest_def Let_def
    using selftest_steps(1) selftest_steps(2) [of "0x80 # replicate 61 0 @ [2, 0]"] selftest_steps(3)
    by (simp only: append_Cons append_Nil simp_thms)
qed

subsection \<open>Keyed hashing is RFC 2104\<close>

definition hmac_spec :: "(bytes \<Rightarrow> bytes) \<Rightarrow> nat \<Rightarrow> bytes \<Rightarrow> bytes \<Rightarrow> bytes" where
  "hmac_spec H B key m = (let k = (if length key \<le> B then key else H key); k0 = k @ replicate (B - length k) 0
     in H (map (\<lambda>x. x XOR 0x5c) k0 @ H (map (\<lambda>x. x XOR 0x36) k0 @ m)))"

lemma length_concat_const: "(\<And>x. length (f x) = n) \<Longrightarrow> length (concat (map f xs)) = n * length xs"
  by (induction xs) simp_all

lemma foldl_keeps: "I s \<Longrightarrow> (\<And>s b. I s \<Longrightarrow> I (g s b)) \<Longrightarrow> I (foldl g s bs)"
  by (induction bs arbitrary: s) simp_all

lemma length_sha256_spec [simp]: "length (sha256_spec m) = 32"
proof -
  have "length (foldl (\<lambda>H b. fips_compress fips256 sha256_K H (block_words ReadBE32 4 b)) sha256_Initialize bs) = 8" for bs
    by (rule foldl_keeps) (simp_all add: sha256_Initialize_def length_fips_compress)
  then show ?thesis
    unfolding sha256_spec_def length_concat_const [of WriteBE32 4, OF length_Write(3)] by simp
qed

lemma length_sha512_spec [simp]: "length (sha512_spec m) = 64"
proof -
  have "length (foldl (\<lambda>H b. fips_compress fips512 sha512_K H (block_words ReadBE64 8 b)) sha512_Initialize bs) = 8" for bs
    by (rule foldl_keeps) (simp_all add: sha512_Initialize_def length_fips_compress)
  then show ?thesis
    unfolding sha512_spec_def length_concat_const [of WriteBE64 8, OF length_Write(1)] by simp
qed

lemma CSHA256_once: "CSHA256_Finalize (CSHA256_Write CSHA256 m) = sha256_spec m"
  using CSHA256_stream [of "[m]"] by simp

lemma CSHA512_once: "CSHA512_Finalize (CSHA512_Write CSHA512 m) = sha512_spec m"
  using CSHA512_stream [of "[m]"] by simp

lemma xor_pads: "(x XOR 0x5c) XOR (0x5c XOR 0x36) = x XOR (0x36 :: u8)"
proof -
  have "(x XOR a) XOR (a XOR b) = x XOR b" for a b :: u8 by (rule bit_word_eqI) (auto simp: bit_simps)
  then show ?thesis .
qed

lemma CHMAC_SHA256_stream:
  "CHMAC_SHA256_Finalize (foldl CHMAC_SHA256_Write (CHMAC_SHA256 key) ds) = hmac_spec sha256_spec 64 key (concat ds)"
proof -
  have fold: "foldl CHMAC_SHA256_Write h ds = h\<lparr>inner256 := foldl CSHA256_Write (inner256 h) ds\<rparr>" for h
    by (induction ds arbitrary: h) (simp_all add: CHMAC_SHA256_Write_def)
  let ?k = "(if length key \<le> 64 then key else sha256_spec key)"
  let ?k0 = "?k @ replicate (64 - length ?k) 0"
  have k0: "CHMAC_SHA256 key = \<lparr>outer256 = CSHA256_Write CSHA256 (map (\<lambda>x. x XOR 0x5c) ?k0),
      inner256 = CSHA256_Write CSHA256 (map (\<lambda>x. x XOR 0x36) ?k0)\<rparr>"
    unfolding CHMAC_SHA256_def CSHA256_once Let_def map_map comp_def xor_pads by simp
  show ?thesis
    using CSHA256_stream [of "map (\<lambda>x. x XOR 0x36) ?k0 # ds"]
      CSHA256_stream [of "[map (\<lambda>x. x XOR 0x5c) ?k0, sha256_spec (map (\<lambda>x. x XOR 0x36) ?k0 @ concat ds)]"]
    by (simp add: fold k0 CHMAC_SHA256_Finalize_def hmac_spec_def Let_def)
qed

lemma CHMAC_SHA512_stream:
  "CHMAC_SHA512_Finalize (foldl CHMAC_SHA512_Write (CHMAC_SHA512 key) ds) = hmac_spec sha512_spec 128 key (concat ds)"
proof -
  have fold: "foldl CHMAC_SHA512_Write h ds = h\<lparr>inner512 := foldl CSHA512_Write (inner512 h) ds\<rparr>" for h
    by (induction ds arbitrary: h) (simp_all add: CHMAC_SHA512_Write_def)
  let ?k = "(if length key \<le> 128 then key else sha512_spec key)"
  let ?k0 = "?k @ replicate (128 - length ?k) 0"
  have k0: "CHMAC_SHA512 key = \<lparr>outer512 = CSHA512_Write CSHA512 (map (\<lambda>x. x XOR 0x5c) ?k0),
      inner512 = CSHA512_Write CSHA512 (map (\<lambda>x. x XOR 0x36) ?k0)\<rparr>"
    unfolding CHMAC_SHA512_def CSHA512_once Let_def map_map comp_def xor_pads by simp
  show ?thesis
    using CSHA512_stream [of "map (\<lambda>x. x XOR 0x36) ?k0 # ds"]
      CSHA512_stream [of "[map (\<lambda>x. x XOR 0x5c) ?k0, sha512_spec (map (\<lambda>x. x XOR 0x36) ?k0 @ concat ds)]"]
    by (simp add: fold k0 CHMAC_SHA512_Finalize_def hmac_spec_def Let_def)
qed

section \<open>Properties\<close>

text \<open>Property C17. However the input is cut into the pieces passed to \<open>Write\<close>, \<open>CSHA256\<close> and \<open>CSHA512\<close> compute the
  hash that FIPS 180-4 defines of the whole input: the padded message in blocks through the compression function
  with its explicit message schedule and rotating variables.\<close>

theorem sha2_implements_fips:
  "CSHA256_Finalize (foldl CSHA256_Write CSHA256 ds) = sha256_spec (concat ds) \<and>
   CSHA512_Finalize (foldl CSHA512_Write CSHA512 ds) = sha512_spec (concat ds)"
  by (simp add: CSHA256_stream CSHA512_stream)

text \<open>\<open>CSHA1\<close> and \<open>CRIPEMD160\<close> depend only on the whole input, not on how it is cut into pieces: the
  result is the iterated compression of the padded message, whose length is a whole number of blocks.\<close>

theorem sha1_ripemd160_stream:
  "CSHA1_Finalize (foldl CSHA1_Write CSHA1 ds) = concat (map WriteBE32
     (foldl sha1_Transform sha1_Initialize (blocks_of 64 (md_pad 64 8 WriteBE64 (concat ds))))) \<and>
   CRIPEMD160_Finalize (foldl CRIPEMD160_Write CRIPEMD160 ds) = concat (map WriteLE32
     (foldl ripemd160_Transform ripemd160_Initialize (blocks_of 64 (md_pad 64 8 WriteLE64 (concat ds))))) \<and>
   64 dvd length (md_pad 64 8 WriteBE64 (concat ds)) \<and> 64 dvd length (md_pad 64 8 WriteLE64 (concat ds))"
  by (simp add: CSHA1_stream CRIPEMD160_stream dvd_md_pad length_Write)

text \<open>Property C34. The keyed hashes are HMAC of RFC 2104 over the two hash functions, for keys shorter and longer than
  a block and for every cut of the message.\<close>

theorem hmac_rfc2104:
  "CHMAC_SHA256_Finalize (foldl CHMAC_SHA256_Write (CHMAC_SHA256 key) ds) = hmac_spec sha256_spec 64 key (concat ds) \<and>
   CHMAC_SHA512_Finalize (foldl CHMAC_SHA512_Write (CHMAC_SHA512 key) ds) = hmac_spec sha512_spec 128 key (concat ds)"
  by (simp add: CHMAC_SHA256_stream CHMAC_SHA512_stream)

text \<open>The portable transformation passes the self-test that guards the choice of implementation: the hash
  of the empty string and of 64 spaces.\<close>

theorem SelfTest_passes: "SelfTest sha256_Transform"
  by (rule SelfTest_ok)

end
