(* ===== verification/Hash.thy ===== *)
theory Hash
  imports Block_Hash
begin

text \<open>
  The hash interface of \<^verbatim>\<open>src/src/hash.h\<close> and \<^verbatim>\<open>src/src/hash.cpp\<close>: double SHA-256, SHA-256 followed by RIPEMD-160,
  the hashing stream \<open>CHashWriter\<close>, the key derivation hash of BIP32, MurmurHash3 and SipHash-2-4 with its two
  specialised versions for 256-bit keys.
\<close>

subsection \<open>Double SHA-256 and HASH160\<close>

type_synonym CHash256 = CSHA256

definition CHash256_Finalize :: "CHash256 \<Rightarrow> bytes" where
  "CHash256_Finalize sha = (let buf = CSHA256_Finalize sha in CSHA256_Finalize (CSHA256_Write (CSHA256_Reset sha) buf))"

definition CHash256_Write :: "CHash256 \<Rightarrow> bytes \<Rightarrow> CHash256" where
  "CHash256_Write sha data = CSHA256_Write sha data"

definition CHash256_Reset :: "CHash256 \<Rightarrow> CHash256" where
  "CHash256_Reset sha = CSHA256_Reset sha"

definition CHash160_Finalize :: "CSHA256 \<Rightarrow> bytes" where
  "CHash160_Finalize sha = CRIPEMD160_Finalize (CRIPEMD160_Write CRIPEMD160 (CSHA256_Finalize sha))"

text \<open>The templates \<open>Hash\<close> of one to six byte ranges: the ranges are written one after the other.\<close>

definition Hash_ranges :: "bytes list \<Rightarrow> uint256" where
  "Hash_ranges ranges = CHash256_Finalize (foldl CHash256_Write CSHA256 ranges)"

definition Hash160 :: "bytes \<Rightarrow> bytes" where
  "Hash160 vch = CHash160_Finalize (CSHA256_Write CSHA256 vch)"

type_synonym CHashWriter = CHash256

definition CHashWriter_write :: "CHashWriter \<Rightarrow> bytes \<Rightarrow> CHashWriter" where
  "CHashWriter_write ctx pch = CHash256_Write ctx pch"

definition CHashWriter_GetHash :: "CHashWriter \<Rightarrow> uint256" where
  "CHashWriter_GetHash ctx = CHash256_Finalize ctx"

text \<open>\<open>SerializeHash\<close> of an object, given the byte strings its serialization writes.\<close>

definition SerializeHash :: "bytes list \<Rightarrow> uint256" where
  "SerializeHash pieces = CHashWriter_GetHash (foldl CHashWriter_write CSHA256 pieces)"

definition BIP32Hash :: "bytes \<Rightarrow> u32 \<Rightarrow> u8 \<Rightarrow> bytes \<Rightarrow> bytes" where
  "BIP32Hash chainCode nChild header data =
     (let num = [ucast (drop_bit 24 nChild AND 0xFF), ucast (drop_bit 16 nChild AND 0xFF),
         ucast (drop_bit 8 nChild AND 0xFF), ucast (drop_bit 0 nChild AND 0xFF)]
      in CHMAC_SHA512_Finalize (CHMAC_SHA512_Write (CHMAC_SHA512_Write (CHMAC_SHA512_Write
           (CHMAC_SHA512 chainCode) [header]) data) num))"

subsection \<open>MurmurHash3\<close>

definition ROTL32 :: "u32 \<Rightarrow> nat \<Rightarrow> u32" where
  "ROTL32 x r = push_bit r x OR drop_bit (32 - r) x"

definition murmur_c1 :: u32 where "murmur_c1 = 0xcc9e2d51"
definition murmur_c2 :: u32 where "murmur_c2 = 0x1b873593"

definition murmur_mix :: "u32 \<Rightarrow> u32" where
  "murmur_mix k1 = ROTL32 (k1 * murmur_c1) 15 * murmur_c2"

text \<open>The body loop: \<open>n\<close> blocks of four bytes.\<close>

fun murmur_body :: "nat \<Rightarrow> bytes \<Rightarrow> u32 \<Rightarrow> u32" where
  "murmur_body 0 blocks h1 = h1"
| "murmur_body (Suc n) blocks h1 =
     murmur_body n (drop 4 blocks) (ROTL32 (h1 XOR murmur_mix (ReadLE32 blocks)) 13 * 5 + 0xe6546b64)"

text \<open>The fall-through switch on the last bytes.\<close>

definition murmur_tail :: "bytes \<Rightarrow> u32 \<Rightarrow> u32" where
  "murmur_tail tail h1 =
     (let k3 = (if length tail = 3 then push_bit 16 (ucast (tail ! 2)) else 0);
          k2 = (if 2 \<le> length tail then k3 XOR push_bit 8 (ucast (tail ! 1)) else k3)
      in if 1 \<le> length tail then h1 XOR murmur_mix (k2 XOR ucast (tail ! 0)) else h1)"

definition MurmurHash3 :: "u32 \<Rightarrow> bytes \<Rightarrow> u32" where
  "MurmurHash3 nHashSeed vDataToHash =
     (let nblocks = length vDataToHash div 4;
          h1 = (if 0 < length vDataToHash
            then murmur_tail (drop (nblocks * 4) vDataToHash) (murmur_body nblocks vDataToHash nHashSeed)
            else nHashSeed);
          h2 = h1 XOR of_nat (length vDataToHash);
          h3 = (h2 XOR drop_bit 16 h2) * 0x85ebca6b;
          h4 = (h3 XOR drop_bit 13 h3) * 0xc2b2ae35
      in h4 XOR drop_bit 16 h4)"

subsection \<open>SipHash-2-4\<close>

type_synonym sip_v = "u64 \<times> u64 \<times> u64 \<times> u64"

definition ROTL :: "u64 \<Rightarrow> nat \<Rightarrow> u64" where
  "ROTL x b = push_bit b x OR drop_bit (64 - b) x"

definition SIPROUND :: "sip_v \<Rightarrow> sip_v" where
  "SIPROUND v = (case v of (v0, v1, v2, v3) \<Rightarrow>
     let v0 = v0 + v1; v1 = ROTL v1 13; v1 = v1 XOR v0;
         v0 = ROTL v0 32;
         v2 = v2 + v3; v3 = ROTL v3 16; v3 = v3 XOR v2;
         v0 = v0 + v3; v3 = ROTL v3 21; v3 = v3 XOR v0;
         v2 = v2 + v1; v1 = ROTL v1 17; v1 = v1 XOR v2;
         v2 = ROTL v2 32
     in (v0, v1, v2, v3))"

text \<open>\<open>v3 ^= d; SIPROUND; SIPROUND; v0 ^= d\<close>\<close>

definition sip_absorb :: "u64 \<Rightarrow> sip_v \<Rightarrow> sip_v" where
  "sip_absorb d v = (case v of (v0, v1, v2, v3) \<Rightarrow>
     case SIPROUND (SIPROUND (v0, v1, v2, v3 XOR d)) of (w0, w1, w2, w3) \<Rightarrow> (w0 XOR d, w1, w2, w3))"

definition sip_finish :: "sip_v \<Rightarrow> u64" where
  "sip_finish v = (case v of (v0, v1, v2, v3) \<Rightarrow>
     case SIPROUND (SIPROUND (SIPROUND (SIPROUND (v0, v1, v2 XOR 0xFF, v3)))) of (w0, w1, w2, w3) \<Rightarrow>
       w0 XOR w1 XOR w2 XOR w3)"

record CSipHasher =
  sip_v :: sip_v
  sip_tmp :: u64
  sip_count :: nat

definition CSipHasher :: "u64 \<Rightarrow> u64 \<Rightarrow> CSipHasher" where
  "CSipHasher k0 k1 = \<lparr>sip_v = (0x736f6d6570736575 XOR k0, 0x646f72616e646f6d XOR k1, 0x6c7967656e657261 XOR k0,
     0x7465646279746573 XOR k1), sip_tmp = 0, sip_count = 0\<rparr>"

text \<open>The word-wise \<open>Write\<close>; its assertion that whole words were written so far is the option.\<close>

definition CSipHasher_Write64 :: "CSipHasher \<Rightarrow> u64 \<Rightarrow> CSipHasher option" where
  "CSipHasher_Write64 h data = (if sip_count h mod 8 = 0
     then Some (h\<lparr>sip_v := sip_absorb data (sip_v h), sip_count := sip_count h + 8\<rparr>) else None)"

fun sip_bytes :: "sip_v \<Rightarrow> u64 \<Rightarrow> nat \<Rightarrow> bytes \<Rightarrow> sip_v \<times> u64 \<times> nat" where
  "sip_bytes v t c [] = (v, t, c)"
| "sip_bytes v t c (b # bs) =
     (let t = t OR push_bit (8 * (c mod 8)) (ucast b); c = c + 1
      in if c mod 8 = 0 then sip_bytes (sip_absorb t v) 0 c bs else sip_bytes v t c bs)"

definition CSipHasher_Write :: "CSipHasher \<Rightarrow> bytes \<Rightarrow> CSipHasher" where
  "CSipHasher_Write h data = (case sip_bytes (sip_v h) (sip_tmp h) (sip_count h) data of (v, t, c) \<Rightarrow>
     h\<lparr>sip_v := v, sip_count := c, sip_tmp := t\<rparr>)"

definition CSipHasher_Finalize :: "CSipHasher \<Rightarrow> u64" where
  "CSipHasher_Finalize h = (let t = sip_tmp h OR push_bit 56 (of_nat (sip_count h)) in sip_finish (sip_absorb t (sip_v h)))"

definition GetUint64 :: "uint256 \<Rightarrow> nat \<Rightarrow> u64" where
  "GetUint64 data pos = (let ptr = drop (pos * 8) data in
     ucast (ptr ! 0) OR push_bit 8 (ucast (ptr ! 1)) OR push_bit 16 (ucast (ptr ! 2)) OR push_bit 24 (ucast (ptr ! 3)) OR
     push_bit 32 (ucast (ptr ! 4)) OR push_bit 40 (ucast (ptr ! 5)) OR push_bit 48 (ucast (ptr ! 6)) OR
     push_bit 56 (ucast (ptr ! 7)))"

definition SipHashUint256 :: "u64 \<Rightarrow> u64 \<Rightarrow> uint256 \<Rightarrow> u64" where
  "SipHashUint256 k0 k1 val =
     (let d = GetUint64 val 0;
          v0 = 0x736f6d6570736575 XOR k0; v1 = 0x646f72616e646f6d XOR k1;
          v2 = 0x6c7967656e657261 XOR k0; v3 = 0x7465646279746573 XOR k1 XOR d;
          (v0, v1, v2, v3) = SIPROUND (SIPROUND (v0, v1, v2, v3)); v0 = v0 XOR d;
          d = GetUint64 val 1; v3 = v3 XOR d;
          (v0, v1, v2, v3) = SIPROUND (SIPROUND (v0, v1, v2, v3)); v0 = v0 XOR d;
          d = GetUint64 val 2; v3 = v3 XOR d;
          (v0, v1, v2, v3) = SIPROUND (SIPROUND (v0, v1, v2, v3)); v0 = v0 XOR d;
          d = GetUint64 val 3; v3 = v3 XOR d;
          (v0, v1, v2, v3) = SIPROUND (SIPROUND (v0, v1, v2, v3)); v0 = v0 XOR d;
          v3 = v3 XOR push_bit 59 4;
          (v0, v1, v2, v3) = SIPROUND (SIPROUND (v0, v1, v2, v3)); v0 = v0 XOR push_bit 59 4;
          v2 = v2 XOR 0xFF;
          (v0, v1, v2, v3) = SIPROUND (SIPROUND (SIPROUND (SIPROUND (v0, v1, v2, v3))))
      in v0 XOR v1 XOR v2 XOR v3)"

definition SipHashUint256Extra :: "u64 \<Rightarrow> u64 \<Rightarrow> uint256 \<Rightarrow> u32 \<Rightarrow> u64" where
  "SipHashUint256Extra k0 k1 val extra =
     (let d = GetUint64 val 0;
          v0 = 0x736f6d6570736575 XOR k0; v1 = 0x646f72616e646f6d XOR k1;
          v2 = 0x6c7967656e657261 XOR k0; v3 = 0x7465646279746573 XOR k1 XOR d;
          (v0, v1, v2, v3) = SIPROUND (SIPROUND (v0, v1, v2, v3)); v0 = v0 XOR d;
          d = GetUint64 val 1; v3 = v3 XOR d;
          (v0, v1, v2, v3) = SIPROUND (SIPROUND (v0, v1, v2, v3)); v0 = v0 XOR d;
          d = GetUint64 val 2; v3 = v3 XOR d;
          (v0, v1, v2, v3) = SIPROUND (SIPROUND (v0, v1, v2, v3)); v0 = v0 XOR d;
          d = GetUint64 val 3; v3 = v3 XOR d;
          (v0, v1, v2, v3) = SIPROUND (SIPROUND (v0, v1, v2, v3)); v0 = v0 XOR d;
          d = push_bit 56 36 OR ucast extra; v3 = v3 XOR d;
          (v0, v1, v2, v3) = SIPROUND (SIPROUND (v0, v1, v2, v3)); v0 = v0 XOR d;
          v2 = v2 XOR 0xFF;
          (v0, v1, v2, v3) = SIPROUND (SIPROUND (SIPROUND (SIPROUND (v0, v1, v2, v3))))
      in v0 XOR v1 XOR v2 XOR v3)"

subsection \<open>Double hashing of a stream\<close>

lemma Reset_hashes:
  assumes "hashes_to 64 sha256_block sha256_Initialize h m"
  shows "hashes_to 64 sha256_block sha256_Initialize (CSHA256_Reset h) []"
  using assms by (simp add: hashes_to_def CSHA256_Reset_def full_chunks.simps)

lemma CSHA256_writes: "hashes_to 64 sha256_block sha256_Initialize (foldl CSHA256_Write CSHA256 ds) (concat ds)"
  using sha256.Writes_hash [OF init_hashes(1), of ds] by (simp add: CSHA256_Write_hasher)

lemma CSHA256_Finalize_hashes:
  assumes "hashes_to 64 sha256_block sha256_Initialize h m"
  shows "CSHA256_Finalize h = sha256_spec m"
proof -
  have "hashes_to 64 sha256_block sha256_Initialize (foldl CSHA256_Write CSHA256 [m]) m"
    using CSHA256_writes [of "[m]"] by simp
  then have "h_s (hasher_pad 64 sha256_block WriteBE64 h) = h_s (hasher_pad 64 sha256_block WriteBE64 (foldl CSHA256_Write CSHA256 [m]))"
    using sha256.pad_md [OF assms, of WriteBE64 8] sha256.pad_md [of "foldl CSHA256_Write CSHA256 [m]" m WriteBE64 8]
    by (simp add: length_Write)
  then show ?thesis using CSHA256_once [of m] by (simp add: CSHA256_Finalize_hasher)
qed

lemma CHash256_stream: "CHash256_Finalize (foldl CHash256_Write CSHA256 ds) = sha256_spec (sha256_spec (concat ds))"
proof -
  have w: "CHash256_Write = CSHA256_Write" by (simp add: CHash256_Write_def fun_eq_iff)
  have "hashes_to 64 sha256_block sha256_Initialize
      (CSHA256_Write (CSHA256_Reset (foldl CSHA256_Write CSHA256 ds)) (sha256_spec (concat ds))) (sha256_spec (concat ds))"
    using sha256.Write_hashes [OF Reset_hashes [OF CSHA256_writes [of ds]], of "sha256_spec (concat ds)"]
    by (simp add: CSHA256_Write_hasher)
  then show ?thesis
    by (simp add: CHash256_Finalize_def w Let_def CSHA256_stream CSHA256_Finalize_hashes)
qed

subsection \<open>SipHash\<close>

lemma sip_bytes_append:
  "sip_bytes v t c (xs @ ys) = (case sip_bytes v t c xs of (v', t', c') \<Rightarrow> sip_bytes v' t' c' ys)"
  by (induction v t c xs rule: sip_bytes.induct) (simp_all add: Let_def)

lemma sip_bytes_step:
  "c mod 8 = k \<Longrightarrow> k < 7 \<Longrightarrow> sip_bytes v t c (b # bs) = sip_bytes v (t OR push_bit (8 * k) (ucast b)) (Suc c) bs"
  "c mod 8 = 7 \<Longrightarrow> sip_bytes v t c (b # bs) = sip_bytes (sip_absorb (t OR push_bit 56 (ucast b)) v) 0 (Suc c) bs"
  by (simp_all add: Let_def mod_Suc)

declare sip_bytes.simps(2) [simp del]

lemma sip_bytes_part:
  assumes "c mod 8 = 0"
  shows "sip_bytes v 0 c (b0 # b1 # b2 # b3 # bs) = sip_bytes v
     (ucast b0 OR push_bit 8 (ucast b1) OR push_bit 16 (ucast b2) OR push_bit 24 (ucast b3)) (Suc (Suc (Suc (Suc c)))) bs"
proof -
  have c: "Suc c mod 8 = 1" "Suc (Suc c) mod 8 = 2" "Suc (Suc (Suc c)) mod 8 = 3"
    using assms by (simp_all add: mod_Suc)
  show ?thesis
    using sip_bytes_step(1) [OF assms, of v 0 b0] sip_bytes_step(1) [OF c(1), of v _ b1]
      sip_bytes_step(1) [OF c(2), of v _ b2] sip_bytes_step(1) [OF c(3), of v _ b3]
    by (simp add: or.assoc)
qed

lemma sip_bytes_word:
  assumes "c mod 8 = 0" "length bs = 8"
  shows "sip_bytes v 0 c (bs @ xs) = sip_bytes (sip_absorb (GetUint64 bs 0) v) 0 (c + 8) xs"
proof -
  obtain b0 b1 b2 b3 b4 b5 b6 b7 where bs: "bs = [b0, b1, b2, b3, b4, b5, b6, b7]"
    using list8 [OF assms(2)] by blast
  let ?c = "Suc (Suc (Suc (Suc c)))"
  have c: "?c mod 8 = 4" "Suc ?c mod 8 = 5" "Suc (Suc ?c) mod 8 = 6" "Suc (Suc (Suc ?c)) mod 8 = 7"
    using assms(1) by (simp_all add: mod_Suc)
  have "GetUint64 bs 0 = ucast b0 OR push_bit 8 (ucast b1) OR push_bit 16 (ucast b2) OR push_bit 24 (ucast b3) OR
     push_bit 32 (ucast b4) OR push_bit 40 (ucast b5) OR push_bit 48 (ucast b6) OR push_bit 56 (ucast b7)"
    by (simp add: bs GetUint64_def)
  moreover have "sip_bytes w 0 (c + 8) xs = sip_bytes w 0 (Suc (Suc (Suc (Suc ?c)))) xs" for w
    by (rule arg_cong [where f = "\<lambda>n. sip_bytes w 0 n xs"]) simp
  ultimately show ?thesis
    using sip_bytes_step(1) [OF c(1), of v _ b4] sip_bytes_step(1) [OF c(2), of v _ b5]
      sip_bytes_step(1) [OF c(3), of v _ b6] sip_bytes_step(2) [OF c(4), of v _ b7]
    by (simp add: bs sip_bytes_part [OF assms(1)] or.assoc)
qed

lemma GetUint64_nth: "length val = 32 \<Longrightarrow> pos < 4 \<Longrightarrow> GetUint64 (take 8 (drop (pos * 8) val)) 0 = GetUint64 val pos"
  by (simp add: GetUint64_def)

lemma uint256_words:
  fixes val :: bytes
  assumes "length val = 32"
  shows "val = take 8 (drop (0 * 8) val) @ take 8 (drop (1 * 8) val) @ take 8 (drop (2 * 8) val) @ take 8 (drop (3 * 8) val)"
proof -
  have "xs = take 8 xs @ drop 8 xs" for xs :: bytes by simp
  from this [of val] this [of "drop 8 val"] this [of "drop 16 val"] assms show ?thesis by simp
qed

definition sip_absorb4 :: "u64 \<Rightarrow> u64 \<Rightarrow> uint256 \<Rightarrow> sip_v" where
  "sip_absorb4 k0 k1 val = sip_absorb (GetUint64 val 3) (sip_absorb (GetUint64 val 2) (sip_absorb (GetUint64 val 1)
     (sip_absorb (GetUint64 val 0) (sip_v (CSipHasher k0 k1)))))"

lemma sip_bytes_uint256:
  assumes "length val = 32"
  shows "sip_bytes (sip_v (CSipHasher k0 k1)) 0 0 (val @ xs) = sip_bytes (sip_absorb4 k0 k1 val) 0 32 xs"
proof -
  have w: "length (take 8 (drop (pos * 8) val)) = 8" if "pos < 4" for pos using assms that by simp
  note words = uint256_words [OF assms]
  show ?thesis
    apply (subst (1) words)
    unfolding append.assoc
    apply (subst sip_bytes_word [OF _ w], simp, simp)+
    using GetUint64_nth [OF assms, of 0] GetUint64_nth [OF assms, of 1] GetUint64_nth [OF assms, of 2]
      GetUint64_nth [OF assms, of 3] assms by (simp add: sip_absorb4_def)
qed

lemma SipHashUint256_absorb:
  "SipHashUint256 k0 k1 val = sip_finish (sip_absorb (push_bit 59 4) (sip_absorb4 k0 k1 val))"
  "SipHashUint256Extra k0 k1 val extra =
     sip_finish (sip_absorb (push_bit 56 36 OR ucast extra) (sip_absorb4 k0 k1 val))"
  by (simp_all add: SipHashUint256_def SipHashUint256Extra_def sip_absorb4_def sip_absorb_def sip_finish_def CSipHasher_def
      Let_def xor.assoc split: prod.splits)

lemma of_nat_div_ucast: "(of_nat (unat x div 2 ^ k) :: u8) = ucast (drop_bit k (x :: u32))"
  by (simp only: word_unat_eq_iff unat_of_nat unat_ucast unat_drop_bit)

lemma WriteLE32_ucast: "WriteLE32 x = [ucast x, ucast (drop_bit 8 x), ucast (drop_bit 16 x), ucast (drop_bit 24 x)]"
proof -
  have four: "4 = Suc (Suc (Suc (Suc 0)))" by simp
  have "WriteLE32 x = [of_nat (unat x div 2 ^ 0), of_nat (unat x div 2 ^ 8), of_nat (unat x div 2 ^ 16), of_nat (unat x div 2 ^ 24)]"
    unfolding WriteLE32_def four le_encode.simps by (simp add: div_mult2_eq [symmetric])
  then show ?thesis unfolding of_nat_div_ucast by simp
qed

lemma or_bytes32:
  "ucast (ucast x :: u8) OR push_bit 8 (ucast (ucast (drop_bit 8 x) :: u8)) OR
   push_bit 16 (ucast (ucast (drop_bit 16 x) :: u8)) OR push_bit 24 (ucast (ucast (drop_bit 24 x) :: u8)) =
   (ucast (x :: u32) :: u64)"
proof (rule bit_word_eqI)
  fix n assume "n < LENGTH(64)"
  consider "n < 8" | "8 \<le> n" "n < 16" | "16 \<le> n" "n < 24" | "24 \<le> n" "n < 32" | "32 \<le> n" by linarith
  then show "bit (ucast (ucast x :: u8) OR push_bit 8 (ucast (ucast (drop_bit 8 x) :: u8)) OR
     push_bit 16 (ucast (ucast (drop_bit 16 x) :: u8)) OR push_bit 24 (ucast (ucast (drop_bit 24 x) :: u8)) :: u64) n
     \<longleftrightarrow> bit (ucast x :: u64) n"
    by cases (auto simp: bit_simps dest: bit_imp_le_length)
qed

subsection \<open>Sizes of the results\<close>

lemma length_ripemd160_fold: "length s = 5 \<Longrightarrow> length (foldl ripemd160_Transform s bs) = 5"
  by (rule foldl_keeps) (simp_all add: ripemd160_Transform_def Let_def)

lemma length_sha1_rounds: "length (sha1_rounds input n i r w) = length r"
  by (induction input n i r w rule: sha1_rounds.induct) (simp_all add: Let_def)

lemma length_sha1_fold: "length s = 5 \<Longrightarrow> length (foldl sha1_Transform s bs) = 5"
  by (rule foldl_keeps) (simp_all add: sha1_Transform_def add_words_def length_sha1_rounds)

lemma length_CRIPEMD160: "length (CRIPEMD160_Finalize (CRIPEMD160_Write CRIPEMD160 m)) = 20"
proof -
  have "length ripemd160_Initialize = 5" by (simp add: ripemd160_Initialize_def)
  then show ?thesis
    using CRIPEMD160_stream [of "[m]"] length_ripemd160_fold [of ripemd160_Initialize]
    by (simp add: length_concat_const [of WriteLE32 4] length_Write)
qed

lemma length_CSHA1: "length (CSHA1_Finalize (CSHA1_Write CSHA1 m)) = 20"
proof -
  have "length sha1_Initialize = 5" by (simp add: sha1_Initialize_def)
  then show ?thesis
    using CSHA1_stream [of "[m]"] length_sha1_fold [of sha1_Initialize]
    by (simp add: length_concat_const [of WriteBE32 4] length_Write)
qed

lemma length_Hash160: "length (Hash160 m) = 20"
  by (simp add: Hash160_def CHash160_Finalize_def length_CRIPEMD160)

lemma length_Hash_ranges: "length (Hash_ranges ds) = 32"
  by (simp add: Hash_ranges_def CHash256_stream)

section \<open>Properties\<close>

text \<open>Every way to feed the hashers gives the double SHA-256 of the concatenated bytes: the range templates
  \<open>Hash\<close> and the serialization stream, which hashes an object in the pieces its serializer writes. \<open>Reset\<close> inside
  \<open>Finalize\<close> leaves stale bytes in the buffer, which do not matter. \<open>Hash160\<close> is RIPEMD-160 of SHA-256 and has 20 bytes.\<close>

theorem Hash_double_sha256:
  "Hash_ranges ds = sha256_spec (sha256_spec (concat ds)) \<and> SerializeHash ds = Hash_ranges [concat ds] \<and>
   is_uint256 (Hash_ranges ds) \<and>
   Hash160 m = CRIPEMD160_Finalize (CRIPEMD160_Write CRIPEMD160 (sha256_spec m)) \<and> length (Hash160 m) = 20"
  by (simp add: length_Hash160 Hash160_def [of m] CHash160_Finalize_def CSHA256_once length_CRIPEMD160 Hash_ranges_def SerializeHash_def CHashWriter_GetHash_def CHash256_stream is_uint256_def
      CHashWriter_write_def [abs_def] CHash256_stream [of ds, unfolded CHash256_Write_def [abs_def]] CHash256_stream [of "[concat ds]", simplified])

text \<open>The two SipHash routines specialised to 256-bit keys agree with the general hasher fed with the same
  bytes, and the word-wise \<open>Write\<close> agrees with the byte-wise one.\<close>

theorem SipHash_specialised:
  assumes "is_uint256 val"
  shows "SipHashUint256 k0 k1 val = CSipHasher_Finalize (CSipHasher_Write (CSipHasher k0 k1) val) \<and>
    SipHashUint256Extra k0 k1 val extra =
      CSipHasher_Finalize (CSipHasher_Write (CSipHasher k0 k1) (val @ WriteLE32 extra)) \<and>
    map_option CSipHasher_Finalize (foldl (\<lambda>h i. Option.bind h (\<lambda>h. CSipHasher_Write64 h (GetUint64 val i)))
      (Some (CSipHasher k0 k1)) [0, 1, 2, 3]) = Some (SipHashUint256 k0 k1 val)"
proof -
  have len: "length val = 32" using assms by (simp add: is_uint256_def)
  have s: "sip_tmp (CSipHasher k0 k1) = 0" "sip_count (CSipHasher k0 k1) = 0" by (simp_all add: CSipHasher_def)
  have "sip_bytes (sip_v (CSipHasher k0 k1)) 0 0 val = (sip_absorb4 k0 k1 val, 0, 32)"
    using sip_bytes_uint256 [OF len, of k0 k1 "[]"] by simp
  moreover have "sip_bytes (sip_v (CSipHasher k0 k1)) 0 0 (val @ WriteLE32 extra) = (sip_absorb4 k0 k1 val, ucast extra, 36)"
    unfolding sip_bytes_uint256 [OF len] WriteLE32_ucast by (subst sip_bytes_part) (simp_all only: or_bytes32, simp_all)
  ultimately show ?thesis
    using s by (simp add: CSipHasher_Write_def CSipHasher_Finalize_def CSipHasher_Write64_def SipHashUint256_absorb
        sip_absorb4_def or.commute Let_def)
qed

theorem SipHash_specialised_witness:
  "SipHashUint256 1 2 (replicate 32 7) = CSipHasher_Finalize (CSipHasher_Write (CSipHasher 1 2) (replicate 32 7))"
  using SipHash_specialised [of "replicate 32 7" 1 2] by (simp add: is_uint256_def)

end
