(* ===== verification/Script.thy ===== *)
theory Script
  imports Hash
begin

text \<open>
  Serialized scripts, \<^verbatim>\<open>src/src/script/script.h\<close> and \<^verbatim>\<open>src/src/script/script.cpp\<close>: the opcodes, the script numbers
  \<open>CScriptNum\<close>, the builders and the instruction reader of \<open>CScript\<close> and its classification. A script is its list of
  bytes. An iterator into a script is the suffix it points at, so \<open>pc == end()\<close> is the empty suffix. Opcodes are the
  numbers of the enumeration, as the code compares and casts them freely.
  \<open>CScriptNum\<close> values are integers; its exceptions are \<open>None\<close>. They are 64-bit integers in the code, which every
  operand of at most five bytes and every sum of two of them fits; \<open>CScriptNum_bound\<close> gives the range. Counters of
  instructions are natural numbers, since a script that wraps a 32-bit counter would have more than \<open>2^27\<close> bytes.
\<close>

type_synonym CScript = bytes
type_synonym valtype = bytes

subsection \<open>Limits and opcodes\<close>

definition MAX_SCRIPT_ELEMENT_SIZE :: nat where "MAX_SCRIPT_ELEMENT_SIZE = 520"
definition MAX_OPS_PER_SCRIPT :: int where "MAX_OPS_PER_SCRIPT = 201"
definition MAX_PUBKEYS_PER_MULTISIG :: int where "MAX_PUBKEYS_PER_MULTISIG = 20"
definition MAX_SCRIPT_SIZE :: nat where "MAX_SCRIPT_SIZE = 10000"
definition LOCKTIME_THRESHOLD :: int where "LOCKTIME_THRESHOLD = 500000000"

abbreviation (input) OP_0 :: nat where "OP_0 \<equiv> 0x00"
abbreviation (input) OP_FALSE :: nat where "OP_FALSE \<equiv> OP_0"
abbreviation (input) OP_PUSHDATA1 :: nat where "OP_PUSHDATA1 \<equiv> 0x4c"
abbreviation (input) OP_PUSHDATA2 :: nat where "OP_PUSHDATA2 \<equiv> 0x4d"
abbreviation (input) OP_PUSHDATA4 :: nat where "OP_PUSHDATA4 \<equiv> 0x4e"
abbreviation (input) OP_1NEGATE :: nat where "OP_1NEGATE \<equiv> 0x4f"
abbreviation (input) OP_RESERVED :: nat where "OP_RESERVED \<equiv> 0x50"
abbreviation (input) OP_1 :: nat where "OP_1 \<equiv> 0x51"
abbreviation (input) OP_TRUE :: nat where "OP_TRUE \<equiv> OP_1"
abbreviation (input) OP_2 :: nat where "OP_2 \<equiv> 0x52"
abbreviation (input) OP_3 :: nat where "OP_3 \<equiv> 0x53"
abbreviation (input) OP_4 :: nat where "OP_4 \<equiv> 0x54"
abbreviation (input) OP_5 :: nat where "OP_5 \<equiv> 0x55"
abbreviation (input) OP_6 :: nat where "OP_6 \<equiv> 0x56"
abbreviation (input) OP_7 :: nat where "OP_7 \<equiv> 0x57"
abbreviation (input) OP_8 :: nat where "OP_8 \<equiv> 0x58"
abbreviation (input) OP_9 :: nat where "OP_9 \<equiv> 0x59"
abbreviation (input) OP_10 :: nat where "OP_10 \<equiv> 0x5a"
abbreviation (input) OP_11 :: nat where "OP_11 \<equiv> 0x5b"
abbreviation (input) OP_12 :: nat where "OP_12 \<equiv> 0x5c"
abbreviation (input) OP_13 :: nat where "OP_13 \<equiv> 0x5d"
abbreviation (input) OP_14 :: nat where "OP_14 \<equiv> 0x5e"
abbreviation (input) OP_15 :: nat where "OP_15 \<equiv> 0x5f"
abbreviation (input) OP_16 :: nat where "OP_16 \<equiv> 0x60"
abbreviation (input) OP_NOP :: nat where "OP_NOP \<equiv> 0x61"
abbreviation (input) OP_VER :: nat where "OP_VER \<equiv> 0x62"
abbreviation (input) OP_IF :: nat where "OP_IF \<equiv> 0x63"
abbreviation (input) OP_NOTIF :: nat where "OP_NOTIF \<equiv> 0x64"
abbreviation (input) OP_VERIF :: nat where "OP_VERIF \<equiv> 0x65"
abbreviation (input) OP_VERNOTIF :: nat where "OP_VERNOTIF \<equiv> 0x66"
abbreviation (input) OP_ELSE :: nat where "OP_ELSE \<equiv> 0x67"
abbreviation (input) OP_ENDIF :: nat where "OP_ENDIF \<equiv> 0x68"
abbreviation (input) OP_VERIFY :: nat where "OP_VERIFY \<equiv> 0x69"
abbreviation (input) OP_RETURN :: nat where "OP_RETURN \<equiv> 0x6a"
abbreviation (input) OP_TOALTSTACK :: nat where "OP_TOALTSTACK \<equiv> 0x6b"
abbreviation (input) OP_FROMALTSTACK :: nat where "OP_FROMALTSTACK \<equiv> 0x6c"
abbreviation (input) OP_2DROP :: nat where "OP_2DROP \<equiv> 0x6d"
abbreviation (input) OP_2DUP :: nat where "OP_2DUP \<equiv> 0x6e"
abbreviation (input) OP_3DUP :: nat where "OP_3DUP \<equiv> 0x6f"
abbreviation (input) OP_2OVER :: nat where "OP_2OVER \<equiv> 0x70"
abbreviation (input) OP_2ROT :: nat where "OP_2ROT \<equiv> 0x71"
abbreviation (input) OP_2SWAP :: nat where "OP_2SWAP \<equiv> 0x72"
abbreviation (input) OP_IFDUP :: nat where "OP_IFDUP \<equiv> 0x73"
abbreviation (input) OP_DEPTH :: nat where "OP_DEPTH \<equiv> 0x74"
abbreviation (input) OP_DROP :: nat where "OP_DROP \<equiv> 0x75"
abbreviation (input) OP_DUP :: nat where "OP_DUP \<equiv> 0x76"
abbreviation (input) OP_NIP :: nat where "OP_NIP \<equiv> 0x77"
abbreviation (input) OP_OVER :: nat where "OP_OVER \<equiv> 0x78"
abbreviation (input) OP_PICK :: nat where "OP_PICK \<equiv> 0x79"
abbreviation (input) OP_ROLL :: nat where "OP_ROLL \<equiv> 0x7a"
abbreviation (input) OP_ROT :: nat where "OP_ROT \<equiv> 0x7b"
abbreviation (input) OP_SWAP :: nat where "OP_SWAP \<equiv> 0x7c"
abbreviation (input) OP_TUCK :: nat where "OP_TUCK \<equiv> 0x7d"
abbreviation (input) OP_CAT :: nat where "OP_CAT \<equiv> 0x7e"
abbreviation (input) OP_SUBSTR :: nat where "OP_SUBSTR \<equiv> 0x7f"
abbreviation (input) OP_LEFT :: nat where "OP_LEFT \<equiv> 0x80"
abbreviation (input) OP_RIGHT :: nat where "OP_RIGHT \<equiv> 0x81"
abbreviation (input) OP_SIZE :: nat where "OP_SIZE \<equiv> 0x82"
abbreviation (input) OP_INVERT :: nat where "OP_INVERT \<equiv> 0x83"
abbreviation (input) OP_AND :: nat where "OP_AND \<equiv> 0x84"
abbreviation (input) OP_OR :: nat where "OP_OR \<equiv> 0x85"
abbreviation (input) OP_XOR :: nat where "OP_XOR \<equiv> 0x86"
abbreviation (input) OP_EQUAL :: nat where "OP_EQUAL \<equiv> 0x87"
abbreviation (input) OP_EQUALVERIFY :: nat where "OP_EQUALVERIFY \<equiv> 0x88"
abbreviation (input) OP_RESERVED1 :: nat where "OP_RESERVED1 \<equiv> 0x89"
abbreviation (input) OP_RESERVED2 :: nat where "OP_RESERVED2 \<equiv> 0x8a"
abbreviation (input) OP_1ADD :: nat where "OP_1ADD \<equiv> 0x8b"
abbreviation (input) OP_1SUB :: nat where "OP_1SUB \<equiv> 0x8c"
abbreviation (input) OP_2MUL :: nat where "OP_2MUL \<equiv> 0x8d"
abbreviation (input) OP_2DIV :: nat where "OP_2DIV \<equiv> 0x8e"
abbreviation (input) OP_NEGATE :: nat where "OP_NEGATE \<equiv> 0x8f"
abbreviation (input) OP_ABS :: nat where "OP_ABS \<equiv> 0x90"
abbreviation (input) OP_NOT :: nat where "OP_NOT \<equiv> 0x91"
abbreviation (input) OP_0NOTEQUAL :: nat where "OP_0NOTEQUAL \<equiv> 0x92"
abbreviation (input) OP_ADD :: nat where "OP_ADD \<equiv> 0x93"
abbreviation (input) OP_SUB :: nat where "OP_SUB \<equiv> 0x94"
abbreviation (input) OP_MUL :: nat where "OP_MUL \<equiv> 0x95"
abbreviation (input) OP_DIV :: nat where "OP_DIV \<equiv> 0x96"
abbreviation (input) OP_MOD :: nat where "OP_MOD \<equiv> 0x97"
abbreviation (input) OP_LSHIFT :: nat where "OP_LSHIFT \<equiv> 0x98"
abbreviation (input) OP_RSHIFT :: nat where "OP_RSHIFT \<equiv> 0x99"
abbreviation (input) OP_BOOLAND :: nat where "OP_BOOLAND \<equiv> 0x9a"
abbreviation (input) OP_BOOLOR :: nat where "OP_BOOLOR \<equiv> 0x9b"
abbreviation (input) OP_NUMEQUAL :: nat where "OP_NUMEQUAL \<equiv> 0x9c"
abbreviation (input) OP_NUMEQUALVERIFY :: nat where "OP_NUMEQUALVERIFY \<equiv> 0x9d"
abbreviation (input) OP_NUMNOTEQUAL :: nat where "OP_NUMNOTEQUAL \<equiv> 0x9e"
abbreviation (input) OP_LESSTHAN :: nat where "OP_LESSTHAN \<equiv> 0x9f"
abbreviation (input) OP_GREATERTHAN :: nat where "OP_GREATERTHAN \<equiv> 0xa0"
abbreviation (input) OP_LESSTHANOREQUAL :: nat where "OP_LESSTHANOREQUAL \<equiv> 0xa1"
abbreviation (input) OP_GREATERTHANOREQUAL :: nat where "OP_GREATERTHANOREQUAL \<equiv> 0xa2"
abbreviation (input) OP_MIN :: nat where "OP_MIN \<equiv> 0xa3"
abbreviation (input) OP_MAX :: nat where "OP_MAX \<equiv> 0xa4"
abbreviation (input) OP_WITHIN :: nat where "OP_WITHIN \<equiv> 0xa5"
abbreviation (input) OP_RIPEMD160 :: nat where "OP_RIPEMD160 \<equiv> 0xa6"
abbreviation (input) OP_SHA1 :: nat where "OP_SHA1 \<equiv> 0xa7"
abbreviation (input) OP_SHA256 :: nat where "OP_SHA256 \<equiv> 0xa8"
abbreviation (input) OP_HASH160 :: nat where "OP_HASH160 \<equiv> 0xa9"
abbreviation (input) OP_HASH256 :: nat where "OP_HASH256 \<equiv> 0xaa"
abbreviation (input) OP_CODESEPARATOR :: nat where "OP_CODESEPARATOR \<equiv> 0xab"
abbreviation (input) OP_CHECKSIG :: nat where "OP_CHECKSIG \<equiv> 0xac"
abbreviation (input) OP_CHECKSIGVERIFY :: nat where "OP_CHECKSIGVERIFY \<equiv> 0xad"
abbreviation (input) OP_CHECKMULTISIG :: nat where "OP_CHECKMULTISIG \<equiv> 0xae"
abbreviation (input) OP_CHECKMULTISIGVERIFY :: nat where "OP_CHECKMULTISIGVERIFY \<equiv> 0xaf"
abbreviation (input) OP_NOP1 :: nat where "OP_NOP1 \<equiv> 0xb0"
abbreviation (input) OP_CHECKLOCKTIMEVERIFY :: nat where "OP_CHECKLOCKTIMEVERIFY \<equiv> 0xb1"
abbreviation (input) OP_NOP2 :: nat where "OP_NOP2 \<equiv> OP_CHECKLOCKTIMEVERIFY"
abbreviation (input) OP_CHECKSEQUENCEVERIFY :: nat where "OP_CHECKSEQUENCEVERIFY \<equiv> 0xb2"
abbreviation (input) OP_NOP3 :: nat where "OP_NOP3 \<equiv> OP_CHECKSEQUENCEVERIFY"
abbreviation (input) OP_NOP4 :: nat where "OP_NOP4 \<equiv> 0xb3"
abbreviation (input) OP_NOP5 :: nat where "OP_NOP5 \<equiv> 0xb4"
abbreviation (input) OP_NOP6 :: nat where "OP_NOP6 \<equiv> 0xb5"
abbreviation (input) OP_NOP7 :: nat where "OP_NOP7 \<equiv> 0xb6"
abbreviation (input) OP_NOP8 :: nat where "OP_NOP8 \<equiv> 0xb7"
abbreviation (input) OP_NOP9 :: nat where "OP_NOP9 \<equiv> 0xb8"
abbreviation (input) OP_NOP10 :: nat where "OP_NOP10 \<equiv> 0xb9"
abbreviation (input) OP_SMALLINTEGER :: nat where "OP_SMALLINTEGER \<equiv> 0xfa"
abbreviation (input) OP_PUBKEYS :: nat where "OP_PUBKEYS \<equiv> 0xfb"
abbreviation (input) OP_PUBKEYHASH :: nat where "OP_PUBKEYHASH \<equiv> 0xfd"
abbreviation (input) OP_PUBKEY :: nat where "OP_PUBKEY \<equiv> 0xfe"
abbreviation (input) OP_INVALIDOPCODE :: nat where "OP_INVALIDOPCODE \<equiv> 0xff"

definition op_names :: "(nat \<times> string) list" where
  "op_names = [(OP_0, ''0''), (OP_PUSHDATA1, ''OP_PUSHDATA1''), (OP_PUSHDATA2, ''OP_PUSHDATA2''),
    (OP_PUSHDATA4, ''OP_PUSHDATA4''), (OP_1NEGATE, ''-1''), (OP_RESERVED, ''OP_RESERVED''), (OP_1, ''1''),
    (OP_2, ''2''), (OP_3, ''3''), (OP_4, ''4''), (OP_5, ''5''), (OP_6, ''6''), (OP_7, ''7''), (OP_8, ''8''),
    (OP_9, ''9''), (OP_10, ''10''), (OP_11, ''11''), (OP_12, ''12''), (OP_13, ''13''), (OP_14, ''14''),
    (OP_15, ''15''), (OP_16, ''16''), (OP_NOP, ''OP_NOP''), (OP_VER, ''OP_VER''), (OP_IF, ''OP_IF''),
    (OP_NOTIF, ''OP_NOTIF''), (OP_VERIF, ''OP_VERIF''), (OP_VERNOTIF, ''OP_VERNOTIF''),
    (OP_ELSE, ''OP_ELSE''), (OP_ENDIF, ''OP_ENDIF''), (OP_VERIFY, ''OP_VERIFY''), (OP_RETURN, ''OP_RETURN''),
    (OP_TOALTSTACK, ''OP_TOALTSTACK''), (OP_FROMALTSTACK, ''OP_FROMALTSTACK''), (OP_2DROP, ''OP_2DROP''),
    (OP_2DUP, ''OP_2DUP''), (OP_3DUP, ''OP_3DUP''), (OP_2OVER, ''OP_2OVER''), (OP_2ROT, ''OP_2ROT''),
    (OP_2SWAP, ''OP_2SWAP''), (OP_IFDUP, ''OP_IFDUP''), (OP_DEPTH, ''OP_DEPTH''), (OP_DROP, ''OP_DROP''),
    (OP_DUP, ''OP_DUP''), (OP_NIP, ''OP_NIP''), (OP_OVER, ''OP_OVER''), (OP_PICK, ''OP_PICK''),
    (OP_ROLL, ''OP_ROLL''), (OP_ROT, ''OP_ROT''), (OP_SWAP, ''OP_SWAP''), (OP_TUCK, ''OP_TUCK''),
    (OP_CAT, ''OP_CAT''), (OP_SUBSTR, ''OP_SUBSTR''), (OP_LEFT, ''OP_LEFT''), (OP_RIGHT, ''OP_RIGHT''),
    (OP_SIZE, ''OP_SIZE''), (OP_INVERT, ''OP_INVERT''), (OP_AND, ''OP_AND''), (OP_OR, ''OP_OR''),
    (OP_XOR, ''OP_XOR''), (OP_EQUAL, ''OP_EQUAL''), (OP_EQUALVERIFY, ''OP_EQUALVERIFY''),
    (OP_RESERVED1, ''OP_RESERVED1''), (OP_RESERVED2, ''OP_RESERVED2''), (OP_1ADD, ''OP_1ADD''),
    (OP_1SUB, ''OP_1SUB''), (OP_2MUL, ''OP_2MUL''), (OP_2DIV, ''OP_2DIV''), (OP_NEGATE, ''OP_NEGATE''),
    (OP_ABS, ''OP_ABS''), (OP_NOT, ''OP_NOT''), (OP_0NOTEQUAL, ''OP_0NOTEQUAL''), (OP_ADD, ''OP_ADD''),
    (OP_SUB, ''OP_SUB''), (OP_MUL, ''OP_MUL''), (OP_DIV, ''OP_DIV''), (OP_MOD, ''OP_MOD''),
    (OP_LSHIFT, ''OP_LSHIFT''), (OP_RSHIFT, ''OP_RSHIFT''), (OP_BOOLAND, ''OP_BOOLAND''),
    (OP_BOOLOR, ''OP_BOOLOR''), (OP_NUMEQUAL, ''OP_NUMEQUAL''), (OP_NUMEQUALVERIFY, ''OP_NUMEQUALVERIFY''),
    (OP_NUMNOTEQUAL, ''OP_NUMNOTEQUAL''), (OP_LESSTHAN, ''OP_LESSTHAN''),
    (OP_GREATERTHAN, ''OP_GREATERTHAN''), (OP_LESSTHANOREQUAL, ''OP_LESSTHANOREQUAL''),
    (OP_GREATERTHANOREQUAL, ''OP_GREATERTHANOREQUAL''), (OP_MIN, ''OP_MIN''), (OP_MAX, ''OP_MAX''),
    (OP_WITHIN, ''OP_WITHIN''), (OP_RIPEMD160, ''OP_RIPEMD160''), (OP_SHA1, ''OP_SHA1''),
    (OP_SHA256, ''OP_SHA256''), (OP_HASH160, ''OP_HASH160''), (OP_HASH256, ''OP_HASH256''),
    (OP_CODESEPARATOR, ''OP_CODESEPARATOR''), (OP_CHECKSIG, ''OP_CHECKSIG''),
    (OP_CHECKSIGVERIFY, ''OP_CHECKSIGVERIFY''), (OP_CHECKMULTISIG, ''OP_CHECKMULTISIG''),
    (OP_CHECKMULTISIGVERIFY, ''OP_CHECKMULTISIGVERIFY''), (OP_NOP1, ''OP_NOP1''),
    (OP_CHECKLOCKTIMEVERIFY, ''OP_CHECKLOCKTIMEVERIFY''),
    (OP_CHECKSEQUENCEVERIFY, ''OP_CHECKSEQUENCEVERIFY''), (OP_NOP4, ''OP_NOP4''), (OP_NOP5, ''OP_NOP5''),
    (OP_NOP6, ''OP_NOP6''), (OP_NOP7, ''OP_NOP7''), (OP_NOP8, ''OP_NOP8''), (OP_NOP9, ''OP_NOP9''),
    (OP_NOP10, ''OP_NOP10''), (OP_INVALIDOPCODE, ''OP_INVALIDOPCODE'')]"

definition GetOpName :: "nat \<Rightarrow> string" where
  "GetOpName opcode = (case map_of op_names opcode of Some s \<Rightarrow> s | None \<Rightarrow> ''OP_UNKNOWN'')"

subsection \<open>Script numbers\<close>

fun set_vch_loop :: "nat \<Rightarrow> bytes \<Rightarrow> int \<Rightarrow> int" where
  "set_vch_loop i [] result = result"
| "set_vch_loop i (b # bs) result = set_vch_loop (Suc i) bs (result OR push_bit (8 * i) (uint b))"

definition set_vch :: "bytes \<Rightarrow> int" where
  "set_vch vch = (if vch = [] then 0 else let result = set_vch_loop 0 vch 0 in
     if last vch AND 0x80 \<noteq> 0 then - (result AND NOT (push_bit (8 * (length vch - 1)) 0x80)) else result)"

definition nDefaultMaxNumSize :: nat where "nDefaultMaxNumSize = 4"

definition not_minimal :: "bytes \<Rightarrow> bool" where
  "not_minimal vch \<longleftrightarrow> 0 < length vch \<and> last vch AND 0x7f = 0 \<and>
     (length vch \<le> 1 \<or> vch ! (length vch - 2) AND 0x80 = 0)"

definition CScriptNum :: "bytes \<Rightarrow> bool \<Rightarrow> nat \<Rightarrow> int option" where
  "CScriptNum vch fRequireMinimal nMaxNumSize =
     (if nMaxNumSize < length vch then None
      else if fRequireMinimal \<and> not_minimal vch then None
      else Some (set_vch vch))"

definition getint :: "int \<Rightarrow> int" where
  "getint m_value = (if m_value > 2147483647 then 2147483647 else if m_value < - 2147483648 then - 2147483648 else m_value)"

function abs_bytes :: "nat \<Rightarrow> bytes" where
  "abs_bytes absvalue = (if absvalue \<noteq> 0 then of_nat absvalue # abs_bytes (absvalue div 256) else [])"
  by pat_completeness auto
termination
  by (relation "measure id") auto

declare abs_bytes.simps [simp del]

definition serialize_num :: "int \<Rightarrow> bytes" where
  "serialize_num value = (if value = 0 then [] else
     let neg = value < 0; result = abs_bytes (nat \<bar>value\<bar>) in
     if last result AND 0x80 \<noteq> 0 then result @ [if neg then 0x80 else 0]
     else if neg then butlast result @ [last result OR 0x80] else result)"

definition getvch :: "int \<Rightarrow> bytes" where
  "getvch m_value = serialize_num m_value"

subsection \<open>Building scripts\<close>

text \<open>\<open>None\<close> is the exception for a number that is not a byte.\<close>

definition push_opcode :: "nat \<Rightarrow> CScript option" where
  "push_opcode opcode = (if opcode > 0xff then None else Some [of_nat opcode])"

definition push_data :: "bytes \<Rightarrow> CScript" where
  "push_data b = (if length b < OP_PUSHDATA1 then of_nat (length b) # b
     else if length b \<le> 0xff then of_nat OP_PUSHDATA1 # of_nat (length b) # b
     else if length b \<le> 0xffff then of_nat OP_PUSHDATA2 # WriteLE16 (of_nat (length b)) @ b
     else of_nat OP_PUSHDATA4 # WriteLE32 (of_nat (length b)) @ b)"

definition push_int64 :: "int \<Rightarrow> CScript" where
  "push_int64 n = (if n = - 1 \<or> (1 \<le> n \<and> n \<le> 16) then [of_int (n + (int OP_1 - 1))]
     else if n = 0 then [of_nat OP_0] else push_data (serialize_num n))"

subsection \<open>Reading instructions\<close>

text \<open>The size of the immediate operand and the iterator after it; \<open>None\<close> when the size is cut off.\<close>

definition read_push_size :: "nat \<Rightarrow> bytes \<Rightarrow> (nat \<times> bytes) option" where
  "read_push_size opcode pc =
     (if opcode < OP_PUSHDATA1 then Some (opcode, pc)
      else if opcode = OP_PUSHDATA1 then (if length pc < 1 then None else Some (unat (pc ! 0), drop 1 pc))
      else if opcode = OP_PUSHDATA2 then (if length pc < 2 then None else Some (unat (ReadLE16 pc), drop 2 pc))
      else (if length pc < 4 then None else Some (unat (ReadLE32 pc), drop 4 pc)))"

text \<open>The results are the returned flag, \<open>opcodeRet\<close>, \<open>*pvchRet\<close> and the advanced iterator, which a failure leaves
  where the operand could not be read.\<close>

definition GetOp2 :: "bytes \<Rightarrow> bool \<times> nat \<times> bytes \<times> bytes" where
  "GetOp2 pc = (case pc of [] \<Rightarrow> (False, OP_INVALIDOPCODE, [], [])
     | b # pc1 \<Rightarrow> let opcode = unat b in
       if opcode \<le> OP_PUSHDATA4 then
         (case read_push_size opcode pc1 of
            None \<Rightarrow> (False, OP_INVALIDOPCODE, [], pc1)
          | Some (nSize, pc2) \<Rightarrow>
              if length pc2 < nSize then (False, OP_INVALIDOPCODE, [], pc2)
              else (True, opcode, take nSize pc2, drop nSize pc2))
       else (True, opcode, [], pc1))"

text \<open>\<open>GetOp\<close> for the callers that stop at a failure.\<close>

definition GetOp :: "bytes \<Rightarrow> (nat \<times> bytes \<times> bytes) option" where
  "GetOp pc = (case GetOp2 pc of (ok, opcode, vch, pc') \<Rightarrow> if ok then Some (opcode, vch, pc') else None)"

lemma GetOp2_shorter: "GetOp2 pc = (True, opcode, vch, pc') \<Longrightarrow> length pc' < length pc"
  by (auto simp: GetOp2_def read_push_size_def Let_def split: list.splits if_splits option.splits)

lemma GetOp_shorter: "GetOp pc = Some (opcode, vch, pc') \<Longrightarrow> length pc' < length pc"
  by (auto simp: GetOp_def split: if_splits prod.splits dest!: GetOp2_shorter)

text \<open>The assertions of the coding of small numbers are the options.\<close>

definition DecodeOP_N :: "nat \<Rightarrow> int option" where
  "DecodeOP_N opcode = (if opcode = OP_0 then Some 0
     else if OP_1 \<le> opcode \<and> opcode \<le> OP_16 then Some (int opcode - (int OP_1 - 1)) else None)"

definition EncodeOP_N :: "int \<Rightarrow> nat option" where
  "EncodeOP_N n = (if 0 \<le> n \<and> n \<le> 16 then Some (if n = 0 then OP_0 else OP_1 + nat n - 1) else None)"

text \<open>The inner loop of \<open>FindAndDelete\<close>: step over adjacent copies of \<open>b\<close>.\<close>

function skip_copies :: "CScript \<Rightarrow> bytes \<Rightarrow> nat \<Rightarrow> bytes \<times> nat" where
  "skip_copies b pc nFound =
     (if b \<noteq> [] \<and> length b \<le> length pc \<and> take (length b) pc = b
      then skip_copies b (drop (length b) pc) (Suc nFound) else (pc, nFound))"
  by pat_completeness auto
termination
  by (relation "measure (\<lambda>(b, pc, nFound). length pc)") (auto simp flip: length_greater_0_conv)

declare skip_copies.simps [simp del]

lemma skip_copies_shorter: "length (fst (skip_copies b pc n)) \<le> length pc"
proof (induction b pc n rule: skip_copies.induct)
  case (1 b pc n)
  then show ?case by (subst skip_copies.simps) auto
qed

text \<open>The outer loop: \<open>pc2\<close> and \<open>pc\<close> are iterators with \<open>pc2\<close> not after \<open>pc\<close>; the range between them is copied.\<close>

function FindAndDelete_loop :: "CScript \<Rightarrow> bytes \<Rightarrow> bytes \<Rightarrow> CScript \<Rightarrow> nat \<Rightarrow> CScript \<times> nat \<times> bytes" where
  "FindAndDelete_loop b pc2 pc result nFound =
     (let result' = result @ take (length pc2 - length pc) pc2; sk = skip_copies b pc nFound in
      case GetOp (fst sk) of
        None \<Rightarrow> (result', snd sk, fst sk)
      | Some (opcode, vch, pc') \<Rightarrow> FindAndDelete_loop b (fst sk) pc' result' (snd sk))"
  by pat_completeness auto
termination
  by (relation "measure (\<lambda>(b, pc2, pc, result, nFound). length pc)")
    (auto dest!: GetOp_shorter intro: less_le_trans [OF _ skip_copies_shorter])

declare FindAndDelete_loop.simps [simp del]

definition FindAndDelete :: "CScript \<Rightarrow> CScript \<Rightarrow> CScript \<times> nat" where
  "FindAndDelete script b = (if b = [] then (script, 0) else
     case FindAndDelete_loop b script script [] 0 of (result, nFound, pc2) \<Rightarrow>
       (if 0 < nFound then result @ pc2 else script, nFound))"

function Find_loop :: "nat \<Rightarrow> bytes \<Rightarrow> nat \<Rightarrow> nat" where
  "Find_loop op pc nFound = (case GetOp pc of None \<Rightarrow> nFound
     | Some (opcode, vch, pc') \<Rightarrow> Find_loop op pc' (if opcode = op then Suc nFound else nFound))"
  by pat_completeness auto
termination
  by (relation "measure (\<lambda>(op, pc, nFound). length pc)") (auto dest: GetOp_shorter)

declare Find_loop.simps [simp del]

definition Find :: "CScript \<Rightarrow> nat \<Rightarrow> nat" where
  "Find script op = Find_loop op script 0"

subsection \<open>Classification\<close>

function sigop_loop :: "bool \<Rightarrow> bytes \<Rightarrow> nat \<Rightarrow> nat \<Rightarrow> nat" where
  "sigop_loop fAccurate pc lastOpcode n = (case GetOp pc of None \<Rightarrow> n
     | Some (opcode, vch, pc') \<Rightarrow> sigop_loop fAccurate pc' opcode
        (if opcode = OP_CHECKSIG \<or> opcode = OP_CHECKSIGVERIFY then n + 1
         else if opcode = OP_CHECKMULTISIG \<or> opcode = OP_CHECKMULTISIGVERIFY
         then (if fAccurate \<and> OP_1 \<le> lastOpcode \<and> lastOpcode \<le> OP_16
               then n + nat (the (DecodeOP_N lastOpcode)) else n + nat MAX_PUBKEYS_PER_MULTISIG)
         else n))"
  by pat_completeness auto
termination
  by (relation "measure (\<lambda>(f, pc, l, n). length pc)") (auto dest: GetOp_shorter)

declare sigop_loop.simps [simp del]

definition GetSigOpCount :: "CScript \<Rightarrow> bool \<Rightarrow> nat" where
  "GetSigOpCount script fAccurate = sigop_loop fAccurate script OP_INVALIDOPCODE 0"

definition IsPayToPublicKeyHash :: "CScript \<Rightarrow> bool" where
  "IsPayToPublicKeyHash s \<longleftrightarrow> length s = 25 \<and> unat (s ! 0) = OP_DUP \<and> unat (s ! 1) = OP_HASH160 \<and> s ! 2 = 0x14 \<and>
     unat (s ! 23) = OP_EQUALVERIFY \<and> unat (s ! 24) = OP_CHECKSIG"

definition IsPayToScriptHash :: "CScript \<Rightarrow> bool" where
  "IsPayToScriptHash s \<longleftrightarrow> length s = 23 \<and> unat (s ! 0) = OP_HASH160 \<and> s ! 1 = 0x14 \<and> unat (s ! 22) = OP_EQUAL"

definition IsPayToPublicKey :: "CScript \<Rightarrow> bool" where
  "IsPayToPublicKey s \<longleftrightarrow>
     (if length s = 35 then (s ! 1 = 0x02 \<or> s ! 1 = 0x03) \<and> unat (s ! 34) = OP_CHECKSIG
      else if length s = 67 then s ! 1 = 0x04 \<and> unat (s ! 66) = OP_CHECKSIG
      else False)"

text \<open>The last item that a push-only \<open>scriptSig\<close> pushes; \<open>None\<close> when it is not push-only.\<close>

function last_push :: "bytes \<Rightarrow> bytes \<Rightarrow> bytes option" where
  "last_push pc vData = (if pc = [] then Some vData else case GetOp pc of None \<Rightarrow> None
     | Some (opcode, vch, pc') \<Rightarrow> if opcode > OP_16 then None else last_push pc' vch)"
  by pat_completeness auto
termination
  by (relation "measure (\<lambda>(pc, v). length pc)") (auto dest: GetOp_shorter)

declare last_push.simps [simp del]

definition GetSigOpCount_P2SH :: "CScript \<Rightarrow> CScript \<Rightarrow> nat" where
  "GetSigOpCount_P2SH script scriptSig = (if \<not> IsPayToScriptHash script then GetSigOpCount script True
     else case last_push scriptSig [] of None \<Rightarrow> 0 | Some vData \<Rightarrow> GetSigOpCount vData True)"

function IsPushOnly :: "bytes \<Rightarrow> bool" where
  "IsPushOnly pc = (if pc = [] then True else case GetOp pc of None \<Rightarrow> False
     | Some (opcode, vch, pc') \<Rightarrow> if opcode > OP_16 then False else IsPushOnly pc')"
  by pat_completeness auto
termination
  by (relation "measure length") (auto dest: GetOp_shorter)

declare IsPushOnly.simps [simp del]

definition IsUnspendable :: "CScript \<Rightarrow> bool" where
  "IsUnspendable s \<longleftrightarrow> (0 < length s \<and> unat (hd s) = OP_RETURN) \<or> length s > MAX_SCRIPT_SIZE"

subsection \<open>Bytes with a sign bit\<close>

lemma bit7_iff: "bit (x :: u8) 7 \<longleftrightarrow> 128 \<le> unat x"
proof -
  have "bit x 7 \<longleftrightarrow> odd (unat x div 128)" by (simp flip: bit_unat_iff add: bit_iff_odd)
  moreover have "unat x div 128 \<le> 1" using less_mult_imp_div_less [of "unat x" 2 128] unat_u8_less [of x] by simp
  ultimately show ?thesis using unat_u8_less [of x] by (auto simp: le_Suc_eq)
qed

lemma and_0x80: "(x :: u8) AND 0x80 = 0 \<longleftrightarrow> unat x < 128"
  using and_exp_eq_0_iff_not_bit [of x 7] by (simp add: bit7_iff not_le)

lemma unat_and_0x7f: "unat ((x :: u8) AND 0x7f) = unat x mod 128"
  by (simp add: and_mask_eq_take_bit [of _ 7] mask_eq_exp_minus_1 unat_take_bit)

lemma unat_or_0x80: "unat (x :: u8) < 128 \<Longrightarrow> unat (x OR 0x80) = unat x + 128"
proof -
  assume x: "unat x < 128"
  then have "x OR 0x80 = x + 0x80" by (intro disjunctive_add_eq_or [symmetric]) (simp add: and_0x80)
  then show ?thesis using x by (simp add: unat_word_ariths)
qed

subsection \<open>Script numbers\<close>

lemma set_vch_loop_val:
  "0 \<le> r \<Longrightarrow> r < 2 ^ (8 * i) \<Longrightarrow> set_vch_loop i bs r = r + 2 ^ (8 * i) * int (le_val bs)"
proof (induction i bs r rule: set_vch_loop.induct)
  case (2 i b bs r)
  have "r AND push_bit (8 * i) (uint b) = 0"
  proof (rule bit_eqI)
    fix n
    have "\<not> bit r n" if "8 * i \<le> n"
    proof -
      have "r < 2 ^ n" using 2(3) that by (meson less_le_trans one_le_numeral power_increasing)
      then show ?thesis using 2(2) by (simp add: bit_iff_odd)
    qed
    then show "bit (r AND push_bit (8 * i) (uint b)) n \<longleftrightarrow> bit (0 :: int) n" by (auto simp: bit_simps)
  qed
  then have or: "r OR push_bit (8 * i) (uint b) = r + 2 ^ (8 * i) * uint b"
    by (simp add: disjunctive_add_eq_or [symmetric] push_bit_eq_mult mult.commute)
  have b: "uint b < 256" using unat_u8_less [of b] by (metis of_nat_less_iff of_nat_numeral uint_nat)
  have "r + 2 ^ (8 * i) * uint b < 2 ^ (8 * i) * (1 + uint b)" using 2(3) by (simp add: distrib_left)
  also have "\<dots> \<le> 2 ^ (8 * i) * 256" using b by (intro mult_left_mono) auto
  finally have "r + 2 ^ (8 * i) * uint b < 2 ^ (8 * Suc i)" by (simp add: power_add)
  then have "set_vch_loop (Suc i) bs (r + 2 ^ (8 * i) * uint b) = r + 2 ^ (8 * i) * uint b + 2 ^ (8 * Suc i) * int (le_val bs)"
    using "2.IH" "2.prems"(1) unfolding or by simp
  then show ?case unfolding set_vch_loop.simps or by (simp add: power_add algebra_simps)
qed simp

lemma le_val_7f_less: "le_val (bs @ [l AND 0x7f]) < 256 ^ length bs * 128"
proof -
  have "le_val bs + 256 ^ length bs * unat (l AND 0x7f) < 256 ^ length bs * (1 + unat (l AND 0x7f))"
    using le_val_less [of bs] by simp
  also have "\<dots> \<le> 256 ^ length bs * 128" by (intro mult_left_mono) (simp_all add: unat_and_0x7f Suc_leI)
  finally show ?thesis by (simp add: le_val_append)
qed

lemma le_val_7f_int: "int (le_val (bs @ [l AND 0x7f])) < 2 ^ (8 * length bs + 7)"
proof -
  have "int (le_val (bs @ [l AND 0x7f])) < int (256 ^ length bs * 128)"
    by (simp only: of_nat_less_iff le_val_7f_less)
  also have "\<dots> = 2 ^ (8 * length bs + 7)" by (simp add: power_add power_mult)
  finally show ?thesis .
qed

definition num_val :: "bytes \<Rightarrow> u8 \<Rightarrow> int" where
  "num_val bs l = (let m = int (le_val (bs @ [l AND 0x7f])) in if 128 \<le> unat l then - m else m)"

lemma set_vch_snoc: "set_vch (bs @ [l]) = num_val bs l"
proof (cases "128 \<le> unat l")
  case False
  then have "l AND 0x7f = l" by (simp only: word_unat_eq_iff unat_and_0x7f) simp
  then show ?thesis
    using False set_vch_loop_val [of 0 0 "bs @ [l]"] by (simp add: set_vch_def num_val_def and_0x80 Let_def)
next
  case True
  let ?n = "8 * length bs"
  have "(unat l - 128) mod 128 = unat l - 128" using unat_u8_less [of l] by (intro mod_less) linarith
  then have "unat l = unat (l AND 0x7f) + 128" using True by (simp only: unat_and_0x7f le_mod_geq)
  then have l: "le_val (bs @ [l]) = le_val (bs @ [l AND 0x7f]) + 256 ^ length bs * 128"
    by (simp add: le_val_append algebra_simps)
  define m where "m = int (le_val (bs @ [l AND 0x7f]))"
  have p: "(2 :: int) ^ ?n = 256 ^ length bs" by (simp add: power_mult)
  have "set_vch_loop 0 (bs @ [l]) 0 = m + push_bit ?n 0x80"
    using set_vch_loop_val [of 0 0 "bs @ [l]"] unfolding l m_def by (simp add: push_bit_eq_mult p)
  moreover have "\<not> bit m (?n + 7)"
  proof -
    have "m < 2 ^ (?n + 7)" unfolding m_def by (rule le_val_7f_int)
    then show ?thesis by (simp add: m_def bit_iff_odd)
  qed
  moreover have "(m + push_bit ?n 0x80) AND NOT (push_bit ?n 0x80) = m" if "\<not> bit m (?n + 7)"
  proof -
    have e: "push_bit ?n (0x80 :: int) = push_bit (?n + 7) 1" by (simp add: push_bit_eq_mult power_add)
    have "m AND push_bit (?n + 7) 1 = 0" using that by (intro bit_eqI) (auto simp: bit_simps)
    then have "m + push_bit (?n + 7) 1 = m OR push_bit (?n + 7) 1" by (rule disjunctive_add_eq_or)
    then show ?thesis unfolding e using that by (intro bit_eqI) (auto simp: bit_simps)
  qed
  ultimately show ?thesis
    using True by (simp add: set_vch_def num_val_def and_0x80 Let_def m_def)
qed

lemma abs_bytes_0 [simp]: "abs_bytes 0 = []"
  by (subst abs_bytes.simps) simp

lemma abs_bytes_pos: "0 < n \<Longrightarrow> abs_bytes n = of_nat n # abs_bytes (n div 256)"
  by (subst abs_bytes.simps) simp

lemma le_val_abs_bytes: "le_val (abs_bytes n) = n"
proof (induction n rule: abs_bytes.induct)
  case (1 n)
  then show ?case by (cases "n = 0") (simp_all add: abs_bytes_pos unat_of_nat_u8)
qed

lemma last_abs_bytes: "0 < n \<Longrightarrow> abs_bytes n \<noteq> [] \<and> last (abs_bytes n) \<noteq> 0"
proof (induction n rule: abs_bytes.induct)
  case (1 n)
  show ?case
  proof (cases "n div 256 = 0")
    case True
    then have "n < 256" by simp
    then have "unat (of_nat n :: u8) = n" by (simp add: unat_of_nat_u8)
    then have "(of_nat n :: u8) \<noteq> 0" using "1.prems" by (metis unat_0 less_irrefl)
    then show ?thesis using True "1.prems" by (simp add: abs_bytes_pos)
  next
    case False
    then show ?thesis using "1.IH" "1.prems" by (simp add: abs_bytes_pos)
  qed
qed

lemma abs_bytes_le_val: "bs \<noteq> [] \<Longrightarrow> last bs \<noteq> 0 \<Longrightarrow> abs_bytes (le_val bs) = bs"
proof (induction bs)
  case (Cons b bs)
  show ?case
  proof (cases "bs = []")
    case True
    then have "0 < unat b" using Cons.prems by (simp add: unat_gt_0)
    then show ?thesis using True by (simp add: abs_bytes_pos)
  next
    case False
    then have IH: "abs_bytes (le_val bs) = bs" using Cons by simp
    then have "0 < le_val bs" using False by (metis abs_bytes_0 gr0I)
    moreover have "(of_nat (unat b + 256 * le_val bs) :: u8) = b"
      by (simp only: word_unat_eq_iff unat_of_nat_u8) simp
    moreover have "(unat b + 256 * le_val bs) div 256 = le_val bs" by simp
    ultimately show ?thesis using IH by (simp only: le_val.simps) (subst abs_bytes_pos; simp)
  qed
qed simp

lemma u8_mod_128: "128 \<le> unat (x :: u8) \<Longrightarrow> unat x mod 128 = unat x - 128"
proof -
  assume "128 \<le> unat x"
  moreover have "(unat x - 128) mod 128 = unat x - 128" using unat_u8_less [of x] by (intro mod_less) linarith
  ultimately show ?thesis by (simp only: le_mod_geq)
qed

lemma and_0x7f_0: "(x :: u8) AND 0x7f = 0 \<longleftrightarrow> x = 0 \<or> x = 0x80"
proof -
  have "x AND 0x7f = 0 \<longleftrightarrow> unat x mod 128 = 0" by (simp only: unat_and_0x7f [symmetric] unat_eq_0)
  also have "\<dots> \<longleftrightarrow> unat x = 0 \<or> unat x = 128"
  proof (cases "128 \<le> unat x")
    case True
    then show ?thesis by (simp only: u8_mod_128) simp
  qed simp
  also have "\<dots> \<longleftrightarrow> x = 0 \<or> x = 0x80" by (simp add: word_unat_eq_iff)
  finally show ?thesis .
qed

lemma unat_small_7f: "unat (x :: u8) < 128 \<Longrightarrow> x AND 0x7f = x"
  by (simp only: word_unat_eq_iff unat_and_0x7f) simp

lemma unat_or_7f: "unat (x :: u8) < 128 \<Longrightarrow> (x OR 0x80) AND 0x7f = x"
  by (simp only: word_unat_eq_iff unat_and_0x7f unat_or_0x80) simp

lemma or_and_7f: "128 \<le> unat (x :: u8) \<Longrightarrow> (x AND 0x7f) OR 0x80 = x"
proof -
  assume x: "128 \<le> unat x"
  then have "unat (x AND 0x7f) + 128 = unat x"
    by (simp only: unat_and_0x7f u8_mod_128)
  moreover have "unat (x AND 0x7f) < 128" by (simp add: unat_and_0x7f)
  ultimately show ?thesis by (simp only: word_unat_eq_iff unat_or_0x80)
qed

text \<open>The three shapes of an encoded number: empty, a last byte with magnitude bits, or a last byte that only
  carries the sign.\<close>

lemma serialize_num_shapes:
  "serialize_num n = [] \<and> n = 0 \<or>
   (\<exists>bs l. serialize_num n = bs @ [l] \<and> num_val bs l = n \<and> \<not> not_minimal (bs @ [l]))"
proof (cases "n = 0")
  case False
  define r where "r = abs_bytes (nat \<bar>n\<bar>)"
  have r: "r \<noteq> []" "last r \<noteq> 0" "int (le_val r) = \<bar>n\<bar>"
    using False last_abs_bytes [of "nat \<bar>n\<bar>"] by (simp_all add: r_def le_val_abs_bytes)
  have bl: "le_val (butlast r @ [last r]) = le_val r" using r(1) by simp
  show ?thesis
  proof (cases "unat (last r) < 128")
    case True
    let ?l = "if n < 0 then last r OR 0x80 else last r"
    have "serialize_num n = butlast r @ [?l]"
      using False True append_butlast_last_id [OF r(1)] by (simp add: serialize_num_def Let_def and_0x80 flip: r_def)
    moreover have "num_val (butlast r) ?l = n"
      using True r(3) bl by (simp add: num_val_def Let_def unat_or_7f unat_small_7f unat_or_0x80)
    moreover have "?l AND 0x7f = last r" using True by (simp add: unat_or_7f unat_small_7f)
    ultimately show ?thesis using r(2) by (fastforce simp: not_minimal_def)
  next
    case big: False
    let ?l = "(if n < 0 then 0x80 else 0) :: u8"
    have "serialize_num n = r @ [?l]" using False big by (simp add: serialize_num_def Let_def and_0x80 flip: r_def)
    moreover have "num_val r ?l = n"
      using r(3) by (simp add: num_val_def Let_def le_val_append)
    moreover have "(r @ [?l]) ! (length (r @ [?l]) - 2) = last r"
      using r(1) by (simp add: nth_append last_conv_nth)
    then have "\<not> not_minimal (r @ [?l])" using r(1) big by (auto simp: not_minimal_def and_0x80)
    ultimately show ?thesis by blast
  qed
qed (simp add: serialize_num_def)

lemma serialize_num_val:
  assumes "\<not> not_minimal (bs @ [l])"
  shows "serialize_num (num_val bs l) = bs @ [l]"
proof -
  define m where "m = le_val (bs @ [l AND 0x7f])"
  have n: "num_val bs l = (if 128 \<le> unat l then - int m else int m)" by (simp add: num_val_def m_def)
  show ?thesis
  proof (cases "l AND 0x7f = 0")
    case True
    then have prev: "bs \<noteq> []" "128 \<le> unat (last bs)"
      using assms by (auto simp: not_minimal_def and_0x80 nth_append last_conv_nth)
    then have "last bs \<noteq> 0" by auto
    then have ab: "abs_bytes m = bs" using prev abs_bytes_le_val [of bs] True by (simp add: m_def le_val_append)
    then have "0 < m" using prev(1) by (metis abs_bytes_0 gr0I)
    then show ?thesis
      using ab prev(2) True by (auto simp: serialize_num_def n Let_def and_0x80 and_0x7f_0)
  next
    case False
    have ab: "abs_bytes m = bs @ [l AND 0x7f]"
      using False abs_bytes_le_val [of "bs @ [l AND 0x7f]"] by (simp add: m_def)
    then have "0 < m" by (metis abs_bytes_0 gr0I snoc_eq_iff_butlast)
    moreover have "unat (l AND 0x7f) < 128" by (simp add: unat_and_0x7f)
    ultimately show ?thesis
      using ab by (simp add: serialize_num_def n Let_def and_0x80 or_and_7f unat_small_7f)
  qed
qed

lemma serialize_num_roundtrip: "length (serialize_num n) \<le> k \<Longrightarrow> CScriptNum (serialize_num n) fRequireMinimal k = Some n"
  using serialize_num_shapes [of n]
proof (elim disjE exE conjE)
  fix bs l assume "length (serialize_num n) \<le> k" "serialize_num n = bs @ [l]" "num_val bs l = n" "\<not> not_minimal (bs @ [l])"
  then show ?thesis by (simp add: CScriptNum_def set_vch_snoc)
qed (simp add: CScriptNum_def set_vch_def not_minimal_def)

lemma serialize_num_unique: "CScriptNum vch True k = Some n \<Longrightarrow> serialize_num n = vch"
  by (cases vch rule: rev_cases)
    (auto simp: CScriptNum_def set_vch_snoc serialize_num_val split: if_splits, simp add: set_vch_def serialize_num_def)

lemma num_val_bound: "\<bar>num_val bs l\<bar> < 2 ^ (8 * length bs + 7)"
  using le_val_7f_int [of bs l] by (simp add: num_val_def Let_def)

lemma CScriptNum_bound: "CScriptNum vch m k = Some n \<Longrightarrow> 0 < k \<Longrightarrow> \<bar>n\<bar> < 2 ^ (8 * k - 1)"
proof (cases vch rule: rev_cases)
  case (snoc bs l)
  assume a: "CScriptNum vch m k = Some n" "0 < k"
  then have "n = num_val bs l" "Suc (length bs) \<le> k" using snoc by (auto simp: CScriptNum_def set_vch_snoc split: if_splits)
  moreover from this have "(2 :: int) ^ (8 * length bs + 7) \<le> 2 ^ (8 * k - 1)" by (intro power_increasing) auto
  ultimately show ?thesis using num_val_bound [of bs l] by linarith
qed (auto simp: CScriptNum_def set_vch_def split: if_splits)

lemma length_abs_bytes: "n < 256 ^ k \<Longrightarrow> length (abs_bytes n) \<le> k"
proof (induction k arbitrary: n)
  case (Suc k)
  then show ?case by (cases "n = 0") (simp_all add: abs_bytes_pos less_mult_imp_div_less mult.commute)
qed simp

lemma length_serialize_num: "\<bar>n\<bar> < 256 ^ k \<Longrightarrow> length (serialize_num n) \<le> Suc k"
proof -
  assume "\<bar>n\<bar> < 256 ^ k"
  then have "nat \<bar>n\<bar> < 256 ^ k" by (simp add: nat_less_iff)
  then have "length (abs_bytes (nat \<bar>n\<bar>)) \<le> k" by (rule length_abs_bytes)
  then show ?thesis by (auto simp: serialize_num_def Let_def)
qed

subsection \<open>Pushes are read back\<close>

lemma ReadLE_prefix: "ReadLE16 (WriteLE16 x @ ys) = x" "ReadLE32 (WriteLE32 y @ ys) = y"
proof -
  have "take 2 (WriteLE16 x @ ys) = take 2 (WriteLE16 x)" "take 4 (WriteLE32 y @ ys) = take 4 (WriteLE32 y)"
    by (simp_all add: WriteLE16_def WriteLE32_def)
  then show "ReadLE16 (WriteLE16 x @ ys) = x" "ReadLE32 (WriteLE32 y @ ys) = y"
    using ReadLE_WriteLE by (simp_all only: ReadLE16_def ReadLE32_def)
qed

definition push_op :: "bytes \<Rightarrow> nat" where
  "push_op b = (if length b < 0x4c then length b else if length b \<le> 0xff then 0x4c else if length b \<le> 0xffff then 0x4d
     else 0x4e)"

lemma push_op_le: "push_op b \<le> 0x4e"
  by (simp add: push_op_def)

lemma GetOp_push_data:
  assumes "length b < 2 ^ 32"
  shows "GetOp (push_data b @ rest) = Some (push_op b, b, rest)"
proof -
  consider "length b < 0x4c" | "0x4c \<le> length b" "length b \<le> 0xff" | "0xff < length b" "length b \<le> 0xffff"
    | "0xffff < length b" by linarith
  then show ?thesis
  proof cases
    case 1
    then show ?thesis
      by (simp add: GetOp_def GetOp2_def push_data_def push_op_def read_push_size_def Let_def)
  next
    case 2
    then show ?thesis
      by (simp add: GetOp_def GetOp2_def push_data_def push_op_def read_push_size_def Let_def)
  next
    case 3
    then have "unat (of_nat (length b) :: u16) = length b" by (simp add: unat_of_nat)
    moreover have "length (WriteLE16 (of_nat (length b))) = 2" by (simp add: WriteLE16_def)
    ultimately show ?thesis
      using 3 by (simp add: GetOp_def GetOp2_def push_data_def push_op_def read_push_size_def Let_def ReadLE_prefix)
  next
    case 4
    then have "unat (of_nat (length b) :: u32) = length b" using assms by (simp add: unat_of_nat)
    moreover have "length (WriteLE32 (of_nat (length b))) = 4" by (simp add: WriteLE32_def)
    ultimately show ?thesis
      using 4 by (simp add: GetOp_def GetOp2_def push_data_def push_op_def read_push_size_def Let_def ReadLE_prefix)
  qed
qed

lemma GetOp_opcode: "0x4e < opcode \<Longrightarrow> opcode < 256 \<Longrightarrow> GetOp (of_nat opcode # rest) = Some (opcode, [], rest)"
  by (simp add: GetOp_def GetOp2_def Let_def)

lemma GetOp_Nil [simp]: "GetOp [] = None"
  by (simp add: GetOp_def GetOp2_def)

lemma Encode_Decode: "0 \<le> n \<Longrightarrow> n \<le> 16 \<Longrightarrow> \<exists>op. EncodeOP_N n = Some op \<and> DecodeOP_N op = Some n"
  by (auto simp: EncodeOP_N_def DecodeOP_N_def)

lemma GetOp_push_size: "GetOp pc = Some (op, vch, pc') \<Longrightarrow> length vch \<le> length pc"
  by (auto simp: GetOp_def GetOp2_def read_push_size_def Let_def split: if_splits prod.splits list.splits option.splits)

text \<open>Property C35. Script numbers have exactly one minimal encoding: \<open>CScriptNum\<close> with \<open>fRequireMinimal\<close> accepts a
  byte vector of at most \<open>nMaxNumSize\<close> bytes as the number \<open>n\<close> exactly when the vector is the one that \<open>serialize\<close>
  produces for \<open>n\<close>.\<close>

theorem CScriptNum_minimal_unique:
  "CScriptNum vch True k = Some n \<longleftrightarrow> vch = serialize_num n \<and> length vch \<le> k"
proof
  assume a: "CScriptNum vch True k = Some n"
  then have "length vch \<le> k" by (auto simp: CScriptNum_def split: if_splits)
  with serialize_num_unique [OF a] show "vch = serialize_num n \<and> length vch \<le> k" by simp
qed (auto intro: serialize_num_roundtrip)

lemma push_data_ne [simp]: "push_data b \<noteq> []"
  by (simp add: push_data_def)

lemma push_data_app_ne [simp]: "push_data b @ r \<noteq> []"
  by (simp add: push_data_def)

lemma push_op_le_16: "\<not> push_op b > 0x60"
  using push_op_le [of b] by linarith

lemma last_push_pushes:
  "\<forall>b \<in> set bs. length b < 2 ^ 32 \<Longrightarrow> last_push (concat (map push_data bs)) v = Some (last (v # bs))"
proof (induction bs arbitrary: v)
  case Nil
  show ?case by (simp add: last_push.simps)
next
  case (Cons b bs)
  then show ?case
    by (subst last_push.simps) (simp add: GetOp_push_data push_op_le_16)
qed

lemma IsPushOnly_pushes:
  "\<forall>b \<in> set bs. length b < 2 ^ 32 \<Longrightarrow> IsPushOnly (concat (map push_data bs))"
proof (induction bs)
  case Nil
  show ?case by (simp add: IsPushOnly.simps)
next
  case (Cons b bs)
  then show ?case
    by (subst IsPushOnly.simps) (simp add: GetOp_push_data push_op_le_16)
qed

lemma GetOp_push_int64:
  assumes "\<bar>n\<bar> < 2 ^ 63"
  shows "\<exists>op vch. GetOp (push_int64 n @ rest) = Some (op, vch, rest) \<and>
     (vch = serialize_num n \<and> op \<le> OP_PUSHDATA4 \<or> vch = [] \<and> int op = n + (int OP_1 - 1) \<and> OP_PUSHDATA4 < op)"
proof -
  consider "n = - 1 \<or> (1 \<le> n \<and> n \<le> 16)" | "n = 0" | "\<not> (n = - 1 \<or> (1 \<le> n \<and> n \<le> 16))" "n \<noteq> 0" by blast
  then show ?thesis
  proof cases
    case 1
    then have "push_int64 n = [of_nat (nat (n + 80))]" "0x4e < nat (n + 80)" "nat (n + 80) < 256" "int (nat (n + 80)) = n + 80"
      by (auto simp: push_int64_def)
    then show ?thesis using GetOp_opcode [of "nat (n + 80)" rest] by simp
  next
    case 2
    then show ?thesis by (simp add: push_int64_def GetOp_def GetOp2_def read_push_size_def serialize_num_def)
  next
    case 3
    have "length (serialize_num n) \<le> 9" using length_serialize_num [of n 8] assms by simp
    then show ?thesis using 3 GetOp_push_data [of "serialize_num n" rest] push_op_le [of "serialize_num n"]
      by (auto simp: push_int64_def)
  qed
qed

text \<open>A script built with \<open>operator<<\<close> from data pushes is push-only and its instructions read back:
  \<open>IsPushOnly\<close> holds, and the walk that \<open>GetSigOpCount\<close> makes over a \<open>scriptSig\<close> ends with the last pushed item, so
  the signature operations of a pay-to-script-hash spend are those of the redeem script pushed last.\<close>

theorem pushes_read_back:
  assumes "\<forall>b \<in> set bs. length b < 2 ^ 32" "length redeem < 2 ^ 32" "IsPayToScriptHash script"
  shows "IsPushOnly (concat (map push_data bs) @ push_data redeem) \<and>
    GetSigOpCount_P2SH script (concat (map push_data bs) @ push_data redeem) = GetSigOpCount redeem True"
  using IsPushOnly_pushes [of "bs @ [redeem]"] last_push_pushes [of "bs @ [redeem]"] assms
  by (auto simp: GetSigOpCount_P2SH_def ball_Un)

theorem pushes_read_back_witness:
  "GetSigOpCount_P2SH (0xa9 # 0x14 # replicate 20 7 @ [0x87]) (push_data [] @ push_data [0x51, 0xae]) = 1"
proof -
  have 1: "IsPayToScriptHash (0xa9 # 0x14 # replicate 20 7 @ [0x87])"
    by code_simp
  have 2: "GetSigOpCount [0x51, 0xae] True = 1"
    by code_simp
  show ?thesis
    using pushes_read_back [of "[[]]" "[0x51, 0xae]" "0xa9 # 0x14 # replicate 20 7 @ [0x87]"] 1 2 by simp
qed

end
