(* ===== verification/Transaction.thy ===== *)
theory Transaction
  imports Script Params
begin

text \<open>
  Amounts, \<^verbatim>\<open>src/src/amount.h\<close> and \<^verbatim>\<open>src/src/amount.cpp\<close>, and transactions,
  \<^verbatim>\<open>src/src/primitives/transaction.h\<close> and \<^verbatim>\<open>src/src/primitives/transaction.cpp\<close>: outpoints, inputs, outputs, the mutable
  and the hashed transaction, their serialization, the total of the outputs, dust and the BIP69 orders. A 64-bit
  amount is an integer; \<open>int64\<close> writes out its wrap-around where the code adds or multiplies unchecked values. The
  16-bit fields are words read as signed. The formats are instances of the codec contract.
\<close>

unbundle bit_operations_syntax

subsection \<open>Amounts\<close>

type_synonym CAmount = int

definition int64 :: "int \<Rightarrow> int" where
  "int64 x = sint (word_of_int x :: u64)"

definition COIN :: CAmount where "COIN = 100000000"
definition CENT :: CAmount where "CENT = 1000000"
definition MAX_MONEY :: CAmount where "MAX_MONEY = 84000000 * COIN"

definition MoneyRange :: "CAmount \<Rightarrow> bool" where
  "MoneyRange nValue \<longleftrightarrow> nValue \<ge> 0 \<and> nValue \<le> MAX_MONEY"

record CFeeRate =
  nSatoshisPerK :: CAmount

text \<open>The assertion on the size is \<open>None\<close>.\<close>

definition CFeeRate_of :: "CAmount \<Rightarrow> nat \<Rightarrow> CFeeRate option" where
  "CFeeRate_of nFeePaid nBytes = (if 2 ^ 63 - 1 < nBytes then None
     else Some \<lparr>nSatoshisPerK = if 0 < nBytes then cdiv (int64 (nFeePaid * 1000)) (int nBytes) else 0\<rparr>)"

definition GetFee :: "CFeeRate \<Rightarrow> nat \<Rightarrow> CAmount option" where
  "GetFee r nBytes = (if 2 ^ 63 - 1 < nBytes then None else
     let nFee = cdiv (int64 (nSatoshisPerK r * int nBytes)) 1000 in
     Some (if nFee = 0 \<and> nBytes \<noteq> 0 then if nSatoshisPerK r < 0 then - 1 else if nSatoshisPerK r > 0 then 1 else nFee
           else nFee))"

definition GetFeePerK :: "CFeeRate \<Rightarrow> CAmount option" where
  "GetFeePerK r = GetFee r 1000"

subsection \<open>Outpoints, inputs and outputs\<close>

abbreviation (input) TRANSACTION_NORMAL :: u16 where "TRANSACTION_NORMAL \<equiv> 0"
abbreviation (input) TRANSACTION_PROVIDER_REGISTER :: u16 where "TRANSACTION_PROVIDER_REGISTER \<equiv> 1"
abbreviation (input) TRANSACTION_PROVIDER_UPDATE_SERVICE :: u16 where "TRANSACTION_PROVIDER_UPDATE_SERVICE \<equiv> 2"
abbreviation (input) TRANSACTION_PROVIDER_UPDATE_REGISTRAR :: u16 where "TRANSACTION_PROVIDER_UPDATE_REGISTRAR \<equiv> 3"
abbreviation (input) TRANSACTION_PROVIDER_UPDATE_REVOKE :: u16 where "TRANSACTION_PROVIDER_UPDATE_REVOKE \<equiv> 4"
abbreviation (input) TRANSACTION_COINBASE :: u16 where "TRANSACTION_COINBASE \<equiv> 5"
abbreviation (input) TRANSACTION_QUORUM_COMMITMENT :: u16 where "TRANSACTION_QUORUM_COMMITMENT \<equiv> 6"

record COutPoint =
  op_hash :: uint256
  op_n :: u32

definition COutPoint_SetNull :: COutPoint where
  "COutPoint_SetNull = \<lparr>op_hash = replicate 32 0, op_n = - 1\<rparr>"

definition blob_IsNull :: "bytes \<Rightarrow> bool" where
  "blob_IsNull data \<longleftrightarrow> list_all (\<lambda>b. b = 0) data"

definition COutPoint_IsNull :: "COutPoint \<Rightarrow> bool" where
  "COutPoint_IsNull p \<longleftrightarrow> blob_IsNull (op_hash p) \<and> op_n p = - 1"

text \<open>\<open>memcmp\<close> on equally long blobs and \<open>std::lexicographical_compare\<close>.\<close>

fun bytes_less :: "bytes \<Rightarrow> bytes \<Rightarrow> bool" where
  "bytes_less _ [] = False"
| "bytes_less [] (_ # _) = True"
| "bytes_less (a # as) (b # bs) = (a < b \<or> (\<not> b < a \<and> bytes_less as bs))"

definition COutPoint_less :: "COutPoint \<Rightarrow> COutPoint \<Rightarrow> bool" where
  "COutPoint_less a b \<longleftrightarrow> bytes_less (op_hash a) (op_hash b) \<or> (op_hash a = op_hash b \<and> op_n a < op_n b)"

definition Serialize_COutPoint :: "COutPoint \<Rightarrow> bytes" where
  "Serialize_COutPoint p = op_hash p @ ser_writedata32 (op_n p)"

definition Unserialize_COutPoint :: "bytes \<Rightarrow> COutPoint ser_result" where
  "Unserialize_COutPoint s = ser_bind (ser_read 32 s) (\<lambda>hash s.
     ser_map (\<lambda>n. \<lparr>op_hash = hash, op_n = n\<rparr>) (ser_readdata32 s))"

record CTxIn =
  prevout :: COutPoint
  scriptSig :: CScript
  nSequence :: u32

definition SEQUENCE_FINAL :: u32 where "SEQUENCE_FINAL = 0xffffffff"
definition SEQUENCE_LOCKTIME_DISABLE_FLAG :: u32 where "SEQUENCE_LOCKTIME_DISABLE_FLAG = push_bit 31 1"
definition SEQUENCE_LOCKTIME_TYPE_FLAG :: u32 where "SEQUENCE_LOCKTIME_TYPE_FLAG = push_bit 22 1"
definition SEQUENCE_LOCKTIME_MASK :: u32 where "SEQUENCE_LOCKTIME_MASK = 0x0000ffff"
definition SEQUENCE_LOCKTIME_GRANULARITY :: nat where "SEQUENCE_LOCKTIME_GRANULARITY = 9"

definition CTxIn_default :: CTxIn where
  "CTxIn_default = \<lparr>prevout = COutPoint_SetNull, scriptSig = [], nSequence = SEQUENCE_FINAL\<rparr>"

definition CTxIn_less :: "CTxIn \<Rightarrow> CTxIn \<Rightarrow> bool" where
  "CTxIn_less a b \<longleftrightarrow> COutPoint_less (prevout a) (prevout b)"

definition Serialize_CTxIn :: "CTxIn \<Rightarrow> bytes" where
  "Serialize_CTxIn i = Serialize_COutPoint (prevout i) @ Serialize_bytes (scriptSig i) @ ser_writedata32 (nSequence i)"

definition Unserialize_CTxIn :: "bytes \<Rightarrow> CTxIn ser_result" where
  "Unserialize_CTxIn s = ser_bind (Unserialize_COutPoint s) (\<lambda>p s. ser_bind (Unserialize_bytes s) (\<lambda>sig s.
     ser_map (\<lambda>n. \<lparr>prevout = p, scriptSig = sig, nSequence = n\<rparr>) (ser_readdata32 s)))"

record CTxOut =
  nValue :: CAmount
  scriptPubKey :: CScript
  nRounds :: int

definition CTxOut_SetNull :: CTxOut where
  "CTxOut_SetNull = \<lparr>nValue = - 1, scriptPubKey = [], nRounds = - 10\<rparr>"

definition CTxOut_IsNull :: "CTxOut \<Rightarrow> bool" where
  "CTxOut_IsNull out \<longleftrightarrow> nValue out = - 1"

definition Serialize_CTxOut :: "CTxOut \<Rightarrow> bytes" where
  "Serialize_CTxOut out = ser_writedata64 (word_of_int (nValue out)) @ Serialize_bytes (scriptPubKey out)"

text \<open>An output is read into one made by the default constructor, whose \<open>nRounds\<close> stays.\<close>

definition Unserialize_CTxOut :: "bytes \<Rightarrow> CTxOut ser_result" where
  "Unserialize_CTxOut s = ser_bind (ser_readdata64 s) (\<lambda>v s.
     ser_map (\<lambda>k. CTxOut_SetNull \<lparr>nValue := sint v, scriptPubKey := k\<rparr>) (Unserialize_bytes s))"

definition GetDustThreshold :: "CTxOut \<Rightarrow> CFeeRate \<Rightarrow> CAmount option" where
  "GetDustThreshold out minRelayTxFee = (if IsUnspendable (scriptPubKey out) then Some 0
     else map_option (\<lambda>f. int64 (3 * f)) (GetFee minRelayTxFee (length (Serialize_CTxOut out) + 148)))"

definition IsDust :: "CTxOut \<Rightarrow> CFeeRate \<Rightarrow> bool option" where
  "IsDust out minRelayTxFee = map_option (\<lambda>t. nValue out < t) (GetDustThreshold out minRelayTxFee)"

subsection \<open>Transactions\<close>

record CMutableTransaction =
  tx_nVersion :: u16
  tx_nType :: u16
  vin :: "CTxIn list"
  vout :: "CTxOut list"
  nLockTime :: u32
  vExtraPayload :: bytes

record CTransaction = CMutableTransaction +
  tx_hash :: uint256

definition CURRENT_VERSION :: u16 where "CURRENT_VERSION = 2"
definition MAX_STANDARD_VERSION :: u16 where "MAX_STANDARD_VERSION = 3"

definition CMutableTransaction_default :: CMutableTransaction where
  "CMutableTransaction_default = \<lparr>tx_nVersion = CURRENT_VERSION, tx_nType = TRANSACTION_NORMAL, vin = [], vout = [],
     nLockTime = 0, vExtraPayload = []\<rparr>"

text \<open>The integral promotions extend both 16-bit fields by their sign.\<close>

definition n32bitVersion :: "'a CMutableTransaction_scheme \<Rightarrow> u32" where
  "n32bitVersion tx = scast (tx_nVersion tx) OR push_bit 16 (scast (tx_nType tx))"

definition has_payload :: "'a CMutableTransaction_scheme \<Rightarrow> bool" where
  "has_payload tx \<longleftrightarrow> tx_nVersion tx = 3 \<and> tx_nType tx \<noteq> TRANSACTION_NORMAL"

definition Serialize_CTransaction :: "'a CMutableTransaction_scheme \<Rightarrow> bytes" where
  "Serialize_CTransaction tx = ser_writedata32 (n32bitVersion tx) @ Serialize_vector Serialize_CTxIn (vin tx) @
     Serialize_vector Serialize_CTxOut (vout tx) @ ser_writedata32 (nLockTime tx) @
     (if has_payload tx then Serialize_bytes (vExtraPayload tx) else [])"


text \<open>Reading fills a transaction made by the default constructor.\<close>

definition Unserialize_CMutableTransaction :: "bytes \<Rightarrow> CMutableTransaction ser_result" where
  "Unserialize_CMutableTransaction s = ser_bind (ser_readdata32 s) (\<lambda>n32 s.
     ser_bind (Unserialize_vector Unserialize_CTxIn s) (\<lambda>is s.
     ser_bind (Unserialize_vector Unserialize_CTxOut s) (\<lambda>os s.
     ser_bind (ser_readdata32 s) (\<lambda>lt s.
       let tx = CMutableTransaction_default
         \<lparr>tx_nVersion := ucast (n32 AND 0xffff), tx_nType := ucast (signed_drop_bit 16 n32 AND 0xffff), vin := is, vout := os, nLockTime := lt\<rparr> in
       if has_payload tx then ser_map (\<lambda>p. tx \<lparr>vExtraPayload := p\<rparr>) (Unserialize_bytes s) else Inr (tx, s)))))"

definition CMutableTransaction_GetHash :: "'a CMutableTransaction_scheme \<Rightarrow> uint256" where
  "CMutableTransaction_GetHash tx = SerializeHash [Serialize_CTransaction tx]"

definition CTransaction_of :: "CMutableTransaction \<Rightarrow> CTransaction" where
  "CTransaction_of tx = CMutableTransaction.extend tx (CTransaction.fields (CMutableTransaction_GetHash tx))"

definition CMutableTransaction_of :: "CTransaction \<Rightarrow> CMutableTransaction" where
  "CMutableTransaction_of tx = CMutableTransaction.truncate tx"

text \<open>The constructor that converts an empty transaction leaves the hash zero.\<close>

definition CTransaction_default :: CTransaction where
  "CTransaction_default = CMutableTransaction.extend CMutableTransaction_default (CTransaction.fields (replicate 32 0))"

definition Unserialize_CTransaction :: "bytes \<Rightarrow> CTransaction ser_result" where
  "Unserialize_CTransaction s = ser_map CTransaction_of (Unserialize_CMutableTransaction s)"

definition CTransaction_eq :: "CTransaction \<Rightarrow> CTransaction \<Rightarrow> bool" where
  "CTransaction_eq a b \<longleftrightarrow> tx_hash a = tx_hash b"

definition CTransaction_IsNull :: "'a CMutableTransaction_scheme \<Rightarrow> bool" where
  "CTransaction_IsNull tx \<longleftrightarrow> vin tx = [] \<and> vout tx = []"

definition GetTotalSize :: "'a CMutableTransaction_scheme \<Rightarrow> nat" where
  "GetTotalSize tx = length (Serialize_CTransaction tx)"

definition IsCoinBase :: "'a CMutableTransaction_scheme \<Rightarrow> bool" where
  "IsCoinBase tx \<longleftrightarrow> length (vin tx) = 1 \<and> COutPoint_IsNull (prevout (vin tx ! 0))"

text \<open>The exception of \<open>GetValueOut\<close> is \<open>None\<close>.\<close>

fun GetValueOut_loop :: "CTxOut list \<Rightarrow> CAmount \<Rightarrow> CAmount option" where
  "GetValueOut_loop [] nValueOut = Some nValueOut"
| "GetValueOut_loop (it # its) nValueOut =
     (let nValueOut' = int64 (nValueOut + nValue it) in
      if \<not> MoneyRange (nValue it) \<or> \<not> MoneyRange nValueOut' then None else GetValueOut_loop its nValueOut')"

definition GetValueOut :: "'a CMutableTransaction_scheme \<Rightarrow> CAmount option" where
  "GetValueOut tx = GetValueOut_loop (vout tx) 0"

subsection \<open>BIP69 orders\<close>

text \<open>The order of \<^verbatim>\<open>src/src/prevector.h\<close>: shorter vectors first, then by the bytes.\<close>

definition prevector_less :: "bytes \<Rightarrow> bytes \<Rightarrow> bool" where
  "prevector_less a b \<longleftrightarrow> (if length a < length b then True else if length a > length b then False else bytes_less a b)"

definition CompareInputBIP69 :: "CTxIn \<Rightarrow> CTxIn \<Rightarrow> bool" where
  "CompareInputBIP69 a b \<longleftrightarrow>
     (if op_hash (prevout a) = op_hash (prevout b) then op_n (prevout a) < op_n (prevout b)
      else bytes_less (rev (op_hash (prevout a))) (rev (op_hash (prevout b))))"

definition CompareOutputBIP69 :: "CTxOut \<Rightarrow> CTxOut \<Rightarrow> bool" where
  "CompareOutputBIP69 a b \<longleftrightarrow>
     nValue a < nValue b \<or> (nValue a = nValue b \<and> prevector_less (scriptPubKey a) (scriptPubKey b))"

subsection \<open>Formats\<close>

interpretation outpoint: codec_exact Serialize_COutPoint Unserialize_COutPoint "\<lambda>p. is_uint256 (op_hash p)"
proof
  fix p :: COutPoint and s
  show "is_uint256 (op_hash p) \<Longrightarrow> Unserialize_COutPoint (Serialize_COutPoint p @ s) = Inr (p, s)"
    by (simp add: is_uint256_def Unserialize_COutPoint_def Serialize_COutPoint_def ser_read_append c32.dec_enc)
next
  fix s t and p :: COutPoint
  show "Unserialize_COutPoint s = Inr (p, t) \<Longrightarrow> s = Serialize_COutPoint p @ t \<and> is_uint256 (op_hash p)"
    by (auto simp: is_uint256_def Unserialize_COutPoint_def Serialize_COutPoint_def ser_bind_eq_Inr ser_map_eq_Inr ser_read_eq_Inr c32.dec_iff)
qed

definition txin_ok :: "CTxIn \<Rightarrow> bool" where
  "txin_ok i \<longleftrightarrow> is_uint256 (op_hash (prevout i)) \<and> length (scriptSig i) \<le> 0x02000000"

interpretation txin: codec_exact Serialize_CTxIn Unserialize_CTxIn txin_ok
proof
  fix i :: CTxIn and s
  show "txin_ok i \<Longrightarrow> Unserialize_CTxIn (Serialize_CTxIn i @ s) = Inr (i, s)"
    by (simp add: txin_ok_def Unserialize_CTxIn_def Serialize_CTxIn_def outpoint.dec_enc vbytes.dec_enc c32.dec_enc)
next
  fix s t and i :: CTxIn
  show "Unserialize_CTxIn s = Inr (i, t) \<Longrightarrow> s = Serialize_CTxIn i @ t \<and> txin_ok i"
    by (auto simp: txin_ok_def Unserialize_CTxIn_def Serialize_CTxIn_def ser_bind_eq_Inr ser_map_eq_Inr outpoint.dec_iff vbytes.dec_iff c32.dec_iff)
qed

definition txout_ok :: "CTxOut \<Rightarrow> bool" where
  "txout_ok out \<longleftrightarrow> - (2 ^ 63) \<le> nValue out \<and> nValue out < 2 ^ 63 \<and> nRounds out = - 10 \<and> length (scriptPubKey out) \<le> 0x02000000"

lemma int64_id: "- (2 ^ 63) \<le> x \<Longrightarrow> x < 2 ^ 63 \<Longrightarrow> int64 x = x"
  by (simp add: int64_def sint_sbintrunc' signed_take_bit_int_eq_self)

lemma int64_range: "- (2 ^ 63) \<le> int64 x" "int64 x < 2 ^ 63"
  using sint_range_size [of "word_of_int x :: u64"] by (simp_all add: int64_def word_size)

lemma sint64_range: "- (2 ^ 63) \<le> sint (v :: u64)" "sint (v :: u64) < 2 ^ 63"
  using sint_range_size [of v] by (simp_all add: word_size)

interpretation txout: codec_exact Serialize_CTxOut Unserialize_CTxOut txout_ok
proof
  fix out :: CTxOut and s
  assume "txout_ok out"
  then show "Unserialize_CTxOut (Serialize_CTxOut out @ s) = Inr (out, s)"
    using int64_id [of "nValue out"]
    by (simp add: txout_ok_def Unserialize_CTxOut_def Serialize_CTxOut_def CTxOut_SetNull_def c64.dec_enc vbytes.dec_enc int64_def)
next
  fix s t and out :: CTxOut
  show "Unserialize_CTxOut s = Inr (out, t) \<Longrightarrow> s = Serialize_CTxOut out @ t \<and> txout_ok out"
    using sint64_range
    by (auto simp: txout_ok_def Unserialize_CTxOut_def Serialize_CTxOut_def CTxOut_SetNull_def ser_bind_eq_Inr ser_map_eq_Inr c64.dec_iff vbytes.dec_iff)
qed

lemma low16: "(x :: u32) AND 0xffff = take_bit 16 x"
  by (simp add: and_mask_eq_take_bit [of _ 16] mask_eq_exp_minus_1)

lemma read_nVersion: "(ucast (n32bitVersion tx AND 0xffff) :: u16) = tx_nVersion tx"
  by (rule bit_eqI) (auto simp: n32bitVersion_def low16 bit_simps)

text \<open>A negative version overwrites the type with ones.\<close>

lemma read_nType:
  "(ucast (signed_drop_bit 16 (n32bitVersion tx) AND 0xffff) :: u16) = (if sint (tx_nVersion tx) < 0 then - 1 else tx_nType tx)"
proof (rule bit_word_eqI)
  fix n assume "n < LENGTH(16)"
  moreover have "bit (tx_nVersion tx) 15 \<longleftrightarrow> sint (tx_nVersion tx) < 0"
    using bit_last_iff [of "tx_nVersion tx"] by simp
  ultimately show "bit (ucast (signed_drop_bit 16 (n32bitVersion tx) AND 0xffff) :: u16) n =
      bit (if sint (tx_nVersion tx) < 0 then - 1 else tx_nType tx) n"
    by (auto simp: n32bitVersion_def low16 bit_simps)
qed

lemma n32_split: "n32 = n32bitVersion tx"
  if "tx_nVersion tx = ucast (n32 AND 0xffff)" "tx_nType tx = ucast (signed_drop_bit 16 n32 AND 0xffff)" "0 \<le> sint (tx_nVersion tx)"
proof (rule bit_word_eqI)
  fix n assume n: "n < LENGTH(32)"
  have "\<not> bit (tx_nVersion tx) 15" using that(3) bit_last_iff [of "tx_nVersion tx"] by simp
  then show "bit n32 n = bit (n32bitVersion tx) n" using n that(1,2)
    by (cases "n = 15"; cases "n = 31"; cases "n < 16") (auto simp: n32bitVersion_def low16 bit_simps min_def)
qed

definition tx_ok :: "'a CMutableTransaction_scheme \<Rightarrow> bool" where
  "tx_ok tx \<longleftrightarrow> (sint (tx_nVersion tx) < 0 \<longrightarrow> tx_nType tx = - 1) \<and>
     list_all txin_ok (vin tx) \<and> length (vin tx) \<le> 0x02000000 \<and>
     list_all txout_ok (vout tx) \<and> length (vout tx) \<le> 0x02000000 \<and>
     (if has_payload tx then length (vExtraPayload tx) \<le> 0x02000000 else vExtraPayload tx = [])"

interpretation mtx: codec Serialize_CTransaction Unserialize_CMutableTransaction "tx_ok :: CMutableTransaction \<Rightarrow> bool"
proof
  fix tx :: CMutableTransaction and s
  assume ok: "tx_ok tx"
  then have ty: "ucast (signed_drop_bit 16 (n32bitVersion tx) AND 0xffff) = tx_nType tx"
    by (simp add: read_nType tx_ok_def)
  show "Unserialize_CMutableTransaction (Serialize_CTransaction tx @ s) = Inr (tx, s)"
    using ok
    by (auto simp: tx_ok_def Unserialize_CMutableTransaction_def Serialize_CTransaction_def c32.dec_enc vbytes.dec_enc Let_def
        read_nVersion ty txin.vector_roundtrip txout.vector_roundtrip CMutableTransaction_default_def has_payload_def
        split: if_splits)
qed

lemma Unserialize_CMutableTransaction_ok:
  assumes "Unserialize_CMutableTransaction s = Inr (tx, t)" "0 \<le> sint (tx_nVersion tx)"
  shows "s = Serialize_CTransaction tx @ t \<and> tx_ok tx"
proof -
  from assms(1) obtain n32 s1 ins s2 outs s3 lt s4 where
    r: "ser_readdata32 s = Inr (n32, s1)" "Unserialize_vector Unserialize_CTxIn s1 = Inr (ins, s2)"
      "Unserialize_vector Unserialize_CTxOut s2 = Inr (outs, s3)" "ser_readdata32 s3 = Inr (lt, s4)"
    and tx: "tx_nVersion tx = ucast (n32 AND 0xffff)" "tx_nType tx = ucast (signed_drop_bit 16 n32 AND 0xffff)"
      "vin tx = ins" "vout tx = outs" "nLockTime tx = lt"
    and p: "if has_payload tx then Unserialize_bytes s4 = Inr (vExtraPayload tx, t) else vExtraPayload tx = [] \<and> s4 = t"
    by (auto simp: Unserialize_CMutableTransaction_def ser_bind_eq_Inr ser_map_eq_Inr Let_def has_payload_def
          CMutableTransaction_default_def split: if_splits)
  from n32_split [OF tx(1,2) assms(2)] r(1) have "s = ser_writedata32 (n32bitVersion tx) @ s1"
    by (simp add: c32.dec_iff)
  moreover note txin.vector_exact [OF r(2)] txout.vector_exact [OF r(3)]
  moreover have "s3 = ser_writedata32 lt @ s4" using r(4) by (simp add: c32.dec_iff)
  moreover have "s4 = (if has_payload tx then Serialize_bytes (vExtraPayload tx) else []) @ t"
    using p by (auto simp: vbytes.dec_iff split: if_splits)
  moreover have "if has_payload tx then length (vExtraPayload tx) \<le> 0x02000000 else vExtraPayload tx = []"
    using p by (auto simp: vbytes.dec_iff split: if_splits)
  ultimately show ?thesis
    using tx assms(2) by (simp add: Serialize_CTransaction_def tx_ok_def)
qed

lemma CTransaction_of_sel [simp]:
  "tx_nVersion (CTransaction_of m) = tx_nVersion m" "tx_nType (CTransaction_of m) = tx_nType m"
  "vin (CTransaction_of m) = vin m" "vout (CTransaction_of m) = vout m" "nLockTime (CTransaction_of m) = nLockTime m"
  "vExtraPayload (CTransaction_of m) = vExtraPayload m" "tx_hash (CTransaction_of m) = CMutableTransaction_GetHash m"
  by (simp_all add: CTransaction_of_def CMutableTransaction.defs CTransaction.defs)

lemma CTransaction_of_scheme [simp]:
  "Serialize_CTransaction (CTransaction_of m) = Serialize_CTransaction m" "tx_ok (CTransaction_of m) = tx_ok m"
  by (simp_all add: Serialize_CTransaction_def n32bitVersion_def has_payload_def tx_ok_def)

lemma CMutableTransaction_of_sel [simp]:
  "tx_nVersion (CMutableTransaction_of m) = tx_nVersion m" "tx_nType (CMutableTransaction_of m) = tx_nType m"
  "vin (CMutableTransaction_of m) = vin m" "vout (CMutableTransaction_of m) = vout m" "nLockTime (CMutableTransaction_of m) = nLockTime m"
  "vExtraPayload (CMutableTransaction_of m) = vExtraPayload m"
  by (simp_all add: CMutableTransaction_of_def CMutableTransaction.defs)

lemma CMutableTransaction_of_scheme [simp]:
  "Serialize_CTransaction (CMutableTransaction_of m) = Serialize_CTransaction m" "tx_ok (CMutableTransaction_of m) = tx_ok m"
  "CMutableTransaction_GetHash (CMutableTransaction_of m) = CMutableTransaction_GetHash m"
  by (simp_all add: Serialize_CTransaction_def n32bitVersion_def has_payload_def tx_ok_def CMutableTransaction_GetHash_def)

lemma CTransaction_of_back: "tx_hash tx = CMutableTransaction_GetHash tx \<Longrightarrow> CTransaction_of (CMutableTransaction_of tx) = tx"
  by (rule CTransaction.equality) simp_all

definition ctx_ok :: "CTransaction \<Rightarrow> bool" where
  "ctx_ok tx \<longleftrightarrow> tx_ok tx \<and> tx_hash tx = CMutableTransaction_GetHash tx"

interpretation ctx: codec Serialize_CTransaction Unserialize_CTransaction ctx_ok
proof
  fix tx s assume ok: "ctx_ok tx"
  have "Unserialize_CMutableTransaction (Serialize_CTransaction (CMutableTransaction_of tx) @ s) = Inr (CMutableTransaction_of tx, s)"
    by (rule mtx.dec_enc) (use ok in \<open>simp add: ctx_ok_def\<close>)
  then show "Unserialize_CTransaction (Serialize_CTransaction tx @ s) = Inr (tx, s)"
    using ok CTransaction_of_back [of tx] by (simp add: Unserialize_CTransaction_def ctx_ok_def)
qed

lemma Unserialize_CTransaction_ok:
  assumes "Unserialize_CTransaction s = Inr (tx, t)" "0 \<le> sint (tx_nVersion tx)"
  shows "s = Serialize_CTransaction tx @ t \<and> ctx_ok tx"
proof -
  obtain m where m: "Unserialize_CMutableTransaction s = Inr (m, t)" "tx = CTransaction_of m"
    using assms(1) by (auto simp: Unserialize_CTransaction_def ser_map_eq_Inr)
  then show ?thesis
    using Unserialize_CMutableTransaction_ok [OF m(1)] assms(2)
    by (simp add: ctx_ok_def CMutableTransaction_GetHash_def)
qed

text \<open>Property C18. A transaction round-trips through its wire format, and for a non-negative version the bytes
  that were read are the bytes that will be written, so the transaction hash is the hash of the received bytes.\<close>

theorem CTransaction_exact:
  "(ctx_ok tx \<longrightarrow> Unserialize_CTransaction (Serialize_CTransaction tx @ s) = Inr (tx, s)) \<and>
   (Unserialize_CTransaction r = Inr (tx, t) \<and> 0 \<le> sint (tx_nVersion tx) \<longrightarrow>
      r = Serialize_CTransaction tx @ t \<and> ctx_ok tx \<and> tx_hash tx = SerializeHash [Serialize_CTransaction tx])"
  using Unserialize_CTransaction_ok [of r tx t] ctx.dec_enc [of tx s]
  by (auto simp: ctx_ok_def CMutableTransaction_GetHash_def)

lemma n32_negative: "sint (tx_nVersion tx) < 0 \<Longrightarrow> n32bitVersion (tx \<lparr>tx_nType := a\<rparr>) = n32bitVersion tx"
proof (rule bit_word_eqI)
  fix n assume "n < LENGTH(32)" "sint (tx_nVersion tx) < 0"
  moreover from this have "bit (tx_nVersion tx) 15" using bit_last_iff [of "tx_nVersion tx"] by simp
  ultimately show "bit (n32bitVersion (tx \<lparr>tx_nType := a\<rparr>)) n = bit (n32bitVersion tx) n"
    by (auto simp: n32bitVersion_def bit_simps min_def)
qed

lemma Serialize_negative:
  assumes "sint (tx_nVersion tx) < 0"
  shows "Serialize_CTransaction (tx \<lparr>tx_nType := a\<rparr>) = Serialize_CTransaction tx"
proof -
  have "tx_nVersion tx \<noteq> 3" using assms by auto
  then show ?thesis using n32_negative [OF assms] by (simp add: Serialize_CTransaction_def has_payload_def)
qed

text \<open>Property C40. With a negative version the sign extension of \<open>nVersion\<close> covers \<open>nType\<close>: transactions that differ in
  the type only have the same bytes and the same hash, and a transaction that is read, written and read again changes
  its type to \<open>-1\<close>.\<close>

theorem negative_version_loses_type:
  fixes tx :: CMutableTransaction
  assumes "sint (tx_nVersion tx) < 0" "tx_ok (tx \<lparr>tx_nType := - 1\<rparr>)"
  shows "CMutableTransaction_GetHash (tx \<lparr>tx_nType := a\<rparr>) = CMutableTransaction_GetHash (tx \<lparr>tx_nType := b\<rparr>) \<and>
    Unserialize_CMutableTransaction (Serialize_CTransaction tx) = Inr (tx \<lparr>tx_nType := - 1\<rparr>, [])"
  using mtx.dec_enc [OF assms(2), of "[]"] Serialize_negative [OF assms(1)]
  by (simp add: CMutableTransaction_GetHash_def)

subsection \<open>Totals and fees\<close>

lemma MAX_MONEY_val: "MAX_MONEY = 8400000000000000"
  by (simp add: MAX_MONEY_def COIN_def)

lemma int64_add: "0 \<le> a \<Longrightarrow> a \<le> MAX_MONEY \<Longrightarrow> 0 \<le> b \<Longrightarrow> b \<le> MAX_MONEY \<Longrightarrow> int64 (a + b) = a + b"
  by (rule int64_id) (simp_all add: MAX_MONEY_val)

lemma GetValueOut_loop_sum:
  "MoneyRange a \<Longrightarrow> GetValueOut_loop outs a = Some v \<longleftrightarrow>
     list_all MoneyRange (map nValue outs) \<and> a + sum_list (map nValue outs) \<le> MAX_MONEY \<and> v = a + sum_list (map nValue outs)"
proof (induction outs arbitrary: a)
  case Nil
  then show ?case by (auto simp: MoneyRange_def)
next
  case (Cons out outs)
  have nn: "0 \<le> sum_list (map nValue outs)" if "list_all MoneyRange (map nValue outs)"
    using that by (intro sum_list_nonneg) (auto simp: MoneyRange_def list_all_iff)
  show ?case
  proof (cases "MoneyRange (nValue out)")
    case True
    with Cons.prems have "int64 (a + nValue out) = a + nValue out" by (simp add: MoneyRange_def int64_add)
    then show ?thesis using Cons.IH [of "a + nValue out"] True nn Cons.prems
      by (cases "MoneyRange (a + nValue out)") (auto simp: Let_def MoneyRange_def [of "a + nValue out"] MoneyRange_def [of a]
            MoneyRange_def [of "nValue out"] algebra_simps)
  qed simp
qed

lemma GetValueOut_sum:
  "GetValueOut tx = Some v \<longleftrightarrow> list_all MoneyRange (map nValue (vout tx)) \<and>
     sum_list (map nValue (vout tx)) \<le> MAX_MONEY \<and> v = sum_list (map nValue (vout tx))"
  using GetValueOut_loop_sum [of 0 "vout tx" v] by (simp add: GetValueOut_def MoneyRange_def MAX_MONEY_val)

lemma GetFee_val:
  assumes "0 \<le> nSatoshisPerK r" "nSatoshisPerK r * int n < 2 ^ 63" "n < 2 ^ 63"
  shows "GetFee r n = Some (if nSatoshisPerK r = 0 \<or> n = 0 then 0 else max 1 (nSatoshisPerK r * int n div 1000))"
proof -
  have nn: "0 \<le> nSatoshisPerK r * int n" using assms(1) by simp
  then have "int64 (nSatoshisPerK r * int n) = nSatoshisPerK r * int n"
    using assms(2) by (intro int64_id) simp_all
  moreover have "0 \<le> nSatoshisPerK r * int n div 1000" using nn by simp
  ultimately show ?thesis using assms nn by (auto simp: GetFee_def Let_def max_def)
qed

subsection \<open>The orders\<close>

lemma bytes_less_irrefl: "\<not> bytes_less a a"
  by (induction a) auto

lemma bytes_less_trans: "bytes_less a b \<Longrightarrow> bytes_less b c \<Longrightarrow> bytes_less a c"
proof (induction a b arbitrary: c rule: bytes_less.induct)
  case (3 x xs y ys)
  then show ?case by (cases c) auto
qed (auto elim: bytes_less.elims)

lemma bytes_less_total: "a \<noteq> b \<Longrightarrow> bytes_less a b \<or> bytes_less b a"
  by (induction a b rule: bytes_less.induct) (auto elim: bytes_less.elims, metis bytes_less.simps(2) list.exhaust)

lemma prevector_less_linear:
  "\<not> prevector_less a a" "prevector_less a b \<Longrightarrow> prevector_less b c \<Longrightarrow> prevector_less a c"
  "a \<noteq> b \<Longrightarrow> prevector_less a b \<or> prevector_less b a"
  using bytes_less_irrefl bytes_less_trans bytes_less_total by (auto simp: prevector_less_def split: if_splits)

lemma CompareInputBIP69_linear:
  "\<not> CompareInputBIP69 a a" "CompareInputBIP69 a b \<Longrightarrow> CompareInputBIP69 b c \<Longrightarrow> CompareInputBIP69 a c"
  "prevout a \<noteq> prevout b \<Longrightarrow> CompareInputBIP69 a b \<or> CompareInputBIP69 b a"
proof -
  show "\<not> CompareInputBIP69 a a" by (simp add: CompareInputBIP69_def)
  show "CompareInputBIP69 a b \<Longrightarrow> CompareInputBIP69 b c \<Longrightarrow> CompareInputBIP69 a c"
    using bytes_less_trans bytes_less_irrefl by (auto simp: CompareInputBIP69_def split: if_splits) (metis)+
  show "prevout a \<noteq> prevout b \<Longrightarrow> CompareInputBIP69 a b \<or> CompareInputBIP69 b a"
    using bytes_less_total [of "rev (op_hash (prevout a))" "rev (op_hash (prevout b))"]
    by (cases "prevout a"; cases "prevout b") (auto simp: CompareInputBIP69_def)
qed

lemma CompareOutputBIP69_linear:
  "\<not> CompareOutputBIP69 a a" "CompareOutputBIP69 a b \<Longrightarrow> CompareOutputBIP69 b c \<Longrightarrow> CompareOutputBIP69 a c"
  "(nValue a, scriptPubKey a) \<noteq> (nValue b, scriptPubKey b) \<Longrightarrow> CompareOutputBIP69 a b \<or> CompareOutputBIP69 b a"
proof -
  show "\<not> CompareOutputBIP69 a a" by (simp add: CompareOutputBIP69_def prevector_less_linear(1))
  show "CompareOutputBIP69 a b \<Longrightarrow> CompareOutputBIP69 b c \<Longrightarrow> CompareOutputBIP69 a c"
    using prevector_less_linear(2) [of "scriptPubKey a" "scriptPubKey b" "scriptPubKey c"]
    unfolding CompareOutputBIP69_def by linarith
  show "(nValue a, scriptPubKey a) \<noteq> (nValue b, scriptPubKey b) \<Longrightarrow> CompareOutputBIP69 a b \<or> CompareOutputBIP69 b a"
    using prevector_less_linear(3) [of "scriptPubKey a" "scriptPubKey b"]
    unfolding CompareOutputBIP69_def by (cases "nValue a" "nValue b" rule: linorder_cases) auto
qed

text \<open>BIP69 orders equal amounts by the scripts as byte strings; the order of \<open>prevector\<close> puts the shorter script first.\<close>

lemma BIP69_outputs_not_lexicographic:
  "\<exists>a b. nValue a = nValue b \<and> bytes_less (scriptPubKey a) (scriptPubKey b) \<and> CompareOutputBIP69 b a"
proof (intro exI conjI)
  show "nValue (CTxOut_SetNull \<lparr>scriptPubKey := [1, 2]\<rparr>) = nValue (CTxOut_SetNull \<lparr>scriptPubKey := [2]\<rparr>)" by simp
  show "bytes_less (scriptPubKey (CTxOut_SetNull \<lparr>scriptPubKey := [1, 2]\<rparr>)) (scriptPubKey (CTxOut_SetNull \<lparr>scriptPubKey := [2]\<rparr>))" by simp
  show "CompareOutputBIP69 (CTxOut_SetNull \<lparr>scriptPubKey := [2]\<rparr>) (CTxOut_SetNull \<lparr>scriptPubKey := [1, 2]\<rparr>)"
    by (simp add: CompareOutputBIP69_def prevector_less_def)
qed

subsection \<open>Properties\<close>

text \<open>\<open>GetValueOut\<close> returns the exact sum of the outputs when every output and the sum are in the money
  range, and throws otherwise: no unchecked 64-bit addition can make an invalid total look valid.\<close>

theorem GetValueOut_correct:
  "GetValueOut tx = (if list_all MoneyRange (map nValue (vout tx)) \<and> sum_list (map nValue (vout tx)) \<le> MAX_MONEY
     then Some (sum_list (map nValue (vout tx))) else None)"
  using GetValueOut_sum [of tx] by (cases "GetValueOut tx") auto

definition demo_tx :: CMutableTransaction where
  "demo_tx = CMutableTransaction_default \<lparr>vin := [CTxIn_default \<lparr>scriptSig := [1, 2]\<rparr>],
     vout := [CTxOut_SetNull \<lparr>nValue := 5, scriptPubKey := [0x51]\<rparr>]\<rparr>"

lemma demo_tx_ok: "tx_ok demo_tx" "tx_ok (demo_tx \<lparr>tx_nVersion := v, tx_nType := - 1\<rparr>)"
  by (auto simp: demo_tx_def tx_ok_def has_payload_def CMutableTransaction_default_def CURRENT_VERSION_def txin_ok_def
      CTxIn_default_def COutPoint_SetNull_def is_uint256_def txout_ok_def CTxOut_SetNull_def)

theorem CTransaction_exact_witness:
  "Unserialize_CTransaction (Serialize_CTransaction (CTransaction_of demo_tx) @ [7]) = Inr (CTransaction_of demo_tx, [7])"
  using CTransaction_exact [of "CTransaction_of demo_tx" "[7]"] demo_tx_ok(1)
  by (simp add: ctx_ok_def CMutableTransaction_GetHash_def)

theorem negative_version_loses_type_witness:
  "Unserialize_CMutableTransaction (Serialize_CTransaction (demo_tx \<lparr>tx_nVersion := - 1\<rparr>)) =
     Inr (demo_tx \<lparr>tx_nVersion := - 1, tx_nType := - 1\<rparr>, [])"
  using negative_version_loses_type [of "demo_tx \<lparr>tx_nVersion := - 1\<rparr>"] demo_tx_ok(2) [of "- 1"] by simp

end
