(* ===== verification/Merkle.thy ===== *)
theory Merkle
  imports Transaction
begin

text \<open>
  Merkle trees, \<^verbatim>\<open>src/src/consensus/merkle.cpp\<close>: the constant-space computation of the root and of a branch, and the root from a
  branch. The array \<open>inner\<close> is a list of 32 hashes. The counters are natural numbers: for at most \<open>2^31\<close> leaves no
  32-bit counter of the code wraps around. The loop over the lower zero bits of \<open>count\<close>, which the code has twice, is one
  definition; its first argument says whether equal siblings are recorded. A positive \<open>count\<close> has a bit that ends the loop.
\<close>

lemma half_level_less: "2 ^ level \<le> count \<Longrightarrow> count div (2 * 2 ^ level) < count div (2 ^ level :: nat)"
  using div_less_dividend [of 2 "count div 2 ^ level"] by (simp add: div_mult2_eq [symmetric] div_greater_zero_iff mult.commute)

definition merkle_hash :: "uint256 \<Rightarrow> uint256 \<Rightarrow> uint256" where
  "merkle_hash left right = CHash256_Finalize (CHash256_Write (CHash256_Write CSHA256 left) right)"

record merkle_state =
  mk_inner :: "uint256 list"
  mk_matchlevel :: int
  mk_mutated :: bool
  mk_branch :: "uint256 list"

definition push_branch :: "bool \<Rightarrow> nat \<Rightarrow> uint256 \<Rightarrow> bool \<Rightarrow> merkle_state \<Rightarrow> bool \<times> uint256 list" where
  "push_branch pbranch level h matchh st =
     (if pbranch then
        if matchh then (matchh, mk_branch st @ [mk_inner st ! level])
        else if mk_matchlevel st = int level then (True, mk_branch st @ [h])
        else (matchh, mk_branch st)
      else (matchh, mk_branch st))"

function merkle_up :: "bool \<Rightarrow> bool \<Rightarrow> nat \<Rightarrow> nat \<Rightarrow> uint256 \<Rightarrow> bool \<Rightarrow> merkle_state \<Rightarrow> nat \<times> uint256 \<times> bool \<times> merkle_state" where
  "merkle_up check pbranch count level h matchh st =
     (if bit count level \<or> count < 2 ^ level then (level, h, matchh, st)
      else case push_branch pbranch level h matchh st of (matchh', branch) \<Rightarrow>
        merkle_up check pbranch count (level + 1) (merkle_hash (mk_inner st ! level) h) matchh'
          (st\<lparr>mk_mutated := mk_mutated st \<or> check \<and> mk_inner st ! level = h, mk_branch := branch\<rparr>))"
  by pat_completeness auto
termination
  by (relation "measure (\<lambda>(_, _, count, level, _). count div 2 ^ level)")
    (auto simp: not_less half_level_less)

declare merkle_up.simps [simp del]

fun merkle_leaves :: "bool \<Rightarrow> nat \<Rightarrow> uint256 list \<Rightarrow> nat \<Rightarrow> merkle_state \<Rightarrow> merkle_state" where
  "merkle_leaves pbranch branchpos [] count st = st"
| "merkle_leaves pbranch branchpos (h # hs) count st =
     (case merkle_up True pbranch (count + 1) 0 h (count = branchpos) st of (level, h', matchh, st') \<Rightarrow>
      merkle_leaves pbranch branchpos hs (count + 1)
        (st'\<lparr>mk_inner := (mk_inner st')[level := h'], mk_matchlevel := if matchh then int level else mk_matchlevel st'\<rparr>))"

function lowest_level :: "nat \<Rightarrow> nat \<Rightarrow> nat" where
  "lowest_level count level = (if bit count level \<or> count < 2 ^ level then level else lowest_level count (level + 1))"
  by pat_completeness auto
termination
  by (relation "measure (\<lambda>(count, level). count div 2 ^ level)")
    (auto simp: not_less half_level_less)

declare lowest_level.simps [simp del]

lemma merkle_up_level: "merkle_up check pbranch count level h matchh st = (level', h', matchh', st') \<Longrightarrow> level \<le> level'"
  by (induction check pbranch count level h matchh st rule: merkle_up.induct)
    (auto simp: merkle_up.simps [of _ _ _ _ _ _ _] split: if_splits prod.splits)

lemma sweep_less:
  assumes "\<not> count < 2 * 2 ^ level" "merkle_up check pbranch (count + 2 ^ level) (Suc level) h matchh st = (level', h', matchh', st')"
  shows "(count + 2 ^ level) div 2 ^ level' < count div 2 ^ level"
proof -
  have l: "Suc level \<le> level'" using merkle_up_level assms(2) by metis
  have q: "2 \<le> count div 2 ^ level" using assms(1) by (simp add: not_less less_eq_div_iff_mult_less_eq)
  have "(count + 2 ^ level) div 2 ^ level' \<le> (count + 2 ^ level) div 2 ^ Suc level" using power_increasing [OF l, of "2 :: nat"] by (intro div_le_mono2) simp_all
  also have "\<dots> = (count div 2 ^ level + 1) div 2" unfolding power_Suc2 div_mult2_eq by simp
  also have "\<dots> < count div 2 ^ level" using q by linarith
  finally show ?thesis .
qed

text \<open>The final sweep. \<open>count\<close> is always an odd multiple of \<open>2 ^ level\<close>, so the second condition, which bounds the recursion, is the first.\<close>

function merkle_sweep :: "bool \<Rightarrow> nat \<Rightarrow> nat \<Rightarrow> uint256 \<Rightarrow> bool \<Rightarrow> merkle_state \<Rightarrow> uint256 \<times> merkle_state" where
  "merkle_sweep pbranch count level h matchh st =
     (if count = 2 ^ level \<or> count < 2 * 2 ^ level then (h, st)
      else let st1 = (if pbranch \<and> matchh then st\<lparr>mk_branch := mk_branch st @ [h]\<rparr> else st); count' = count + 2 ^ level in
        case merkle_up False pbranch count' (level + 1) (merkle_hash h h) matchh st1 of (level', h', matchh', st') \<Rightarrow>
        merkle_sweep pbranch count' level' h' matchh' st')"
  by pat_completeness auto
termination
  by (relation "measure (\<lambda>(_, count, level, _). count div 2 ^ level)") (auto split: prod.split dest: sweep_less)

declare merkle_sweep.simps [simp del]

definition MerkleComputation :: "uint256 list \<Rightarrow> nat \<Rightarrow> bool \<Rightarrow> uint256 \<times> bool \<times> uint256 list" where
  "MerkleComputation leaves branchpos pbranch =
     (if length leaves = 0 then (replicate 32 0, False, [])
      else let st = merkle_leaves pbranch branchpos leaves 0
                      \<lparr>mk_inner = replicate 32 (replicate 32 0), mk_matchlevel = - 1, mk_mutated = False, mk_branch = []\<rparr>;
               count = length leaves; level = lowest_level count 0;
               (h, st') = merkle_sweep pbranch count level (mk_inner st ! level) (mk_matchlevel st = int level) st
           in (h, mk_mutated st', mk_branch st'))"

definition ComputeMerkleRoot :: "uint256 list \<Rightarrow> uint256 \<times> bool" where
  "ComputeMerkleRoot leaves = (case MerkleComputation leaves (2 ^ 32 - 1) False of (hash, mutated, _) \<Rightarrow> (hash, mutated))"

definition ComputeMerkleBranch :: "uint256 list \<Rightarrow> nat \<Rightarrow> uint256 list" where
  "ComputeMerkleBranch leaves position = (case MerkleComputation leaves position True of (_, _, branch) \<Rightarrow> branch)"

fun ComputeMerkleRootFromBranch :: "uint256 \<Rightarrow> uint256 list \<Rightarrow> nat \<Rightarrow> uint256" where
  "ComputeMerkleRootFromBranch hash [] nIndex = hash"
| "ComputeMerkleRootFromBranch hash (it # vMerkleBranch) nIndex =
     ComputeMerkleRootFromBranch (if odd nIndex then Hash_ranges [it, hash] else Hash_ranges [hash, it]) vMerkleBranch (nIndex div 2)"

definition BlockMerkleRoot :: "CTransaction list \<Rightarrow> uint256 \<times> bool" where
  "BlockMerkleRoot vtx = ComputeMerkleRoot (map tx_hash vtx)"

definition BlockMerkleBranch :: "CTransaction list \<Rightarrow> nat \<Rightarrow> uint256 list" where
  "BlockMerkleBranch vtx position = ComputeMerkleBranch (map tx_hash vtx) position"


subsection \<open>The reference tree\<close>

text \<open>The root of the tree of height \<open>k\<close> over a nonempty list of at most \<open>2 ^ k\<close> leaves: a missing right half is the left one again.\<close>

fun merkle_tree :: "nat \<Rightarrow> uint256 list \<Rightarrow> uint256" where
  "merkle_tree 0 l = hd l"
| "merkle_tree (Suc k) l =
     (if length l \<le> 2 ^ k then let x = merkle_tree k l in merkle_hash x x
      else merkle_hash (merkle_tree k (take (2 ^ k) l)) (merkle_tree k (drop (2 ^ k) l)))"

definition merkle_node :: "uint256 list \<Rightarrow> nat \<Rightarrow> nat \<Rightarrow> uint256" where
  "merkle_node l k i = merkle_tree k (take (2 ^ k) (drop (i * 2 ^ k) l))"

text \<open>Two complete siblings among the first \<open>c\<close> leaves are equal.\<close>

definition merkle_dup :: "uint256 list \<Rightarrow> nat \<Rightarrow> bool" where
  "merkle_dup l c \<longleftrightarrow> (\<exists>k i. (2 * i + 2) * 2 ^ k \<le> c \<and> merkle_node l k (2 * i) = merkle_node l k (2 * i + 1))"

lemma merkle_node_0: "i < length l \<Longrightarrow> merkle_node l 0 i = l ! i"
  by (simp add: merkle_node_def hd_drop_conv_nth take_Suc)

lemma merkle_node_double:
  assumes "(2 * i + 1) * 2 ^ k < length l"
  shows "merkle_node l (Suc k) i = merkle_hash (merkle_node l k (2 * i)) (merkle_node l k (2 * i + 1))"
proof -
  let ?s = "take (2 ^ Suc k) (drop (i * 2 ^ Suc k) l)"
  have "\<not> length ?s \<le> 2 ^ k" using assms by (auto simp: min_def algebra_simps)
  moreover have "take (2 ^ k) ?s = take (2 ^ k) (drop (2 * i * 2 ^ k) l)" by (simp add: algebra_simps)
  moreover have "drop (2 ^ k) ?s = take (2 ^ k) (drop ((2 * i + 1) * 2 ^ k) l)" by (simp add: drop_take algebra_simps)
  ultimately show ?thesis by (simp only: merkle_node_def merkle_tree.simps if_False)
qed

lemma merkle_node_single:
  assumes "length l \<le> (2 * i + 1) * 2 ^ k"
  shows "merkle_node l (Suc k) i = merkle_hash (merkle_node l k (2 * i)) (merkle_node l k (2 * i))"
proof -
  let ?d = "drop (i * 2 ^ Suc k) l"
  have d: "length ?d \<le> 2 ^ k" using assms by (simp add: algebra_simps)
  then have "take (2 ^ Suc k) ?d = ?d" "take (2 ^ k) ?d = ?d" by simp_all
  then show ?thesis using d by (simp add: merkle_node_def Let_def mult.assoc mult.commute [of 2] mult.left_commute)
qed

lemma merkle_hash_ranges: "merkle_hash left right = Hash_ranges [left, right]"
  by (simp add: merkle_hash_def Hash_ranges_def)


lemma FromBranch_append:
  "ComputeMerkleRootFromBranch h (br @ [x]) p =
     (let g = ComputeMerkleRootFromBranch h br p in if odd (p div 2 ^ length br) then merkle_hash x g else merkle_hash g x)"
  by (induction h br p rule: ComputeMerkleRootFromBranch.induct) (simp_all add: merkle_hash_ranges Let_def div_mult2_eq)

subsection \<open>Climbing from a leaf\<close>

definition inner_ok :: "uint256 list \<Rightarrow> nat \<Rightarrow> nat \<Rightarrow> merkle_state \<Rightarrow> bool" where
  "inner_ok l b level st \<longleftrightarrow> (\<forall>k\<ge>level. bit b k \<longrightarrow> mk_inner st ! k = merkle_node l k (b div 2 ^ k - 1))"

definition branch_path :: "uint256 list \<Rightarrow> nat \<Rightarrow> nat \<Rightarrow> uint256 list \<Rightarrow> bool" where
  "branch_path l p k br \<longleftrightarrow> length br = k \<and> ComputeMerkleRootFromBranch (l ! p) br p = merkle_node l k (p div 2 ^ k)"

text \<open>The leaf at \<open>p\<close> is still to come, or some stored hash covers it.\<close>

definition stored_match :: "uint256 list \<Rightarrow> nat \<Rightarrow> nat \<Rightarrow> nat \<Rightarrow> merkle_state \<Rightarrow> bool" where
  "stored_match l p b level st \<longleftrightarrow> mk_matchlevel st = - 1 \<and> mk_branch st = [] \<or>
     (\<exists>m\<ge>level. mk_matchlevel st = int m \<and> bit b m \<and> b div 2 ^ m - 1 = p div 2 ^ m \<and> branch_path l p m (mk_branch st))"

definition climb_match :: "uint256 list \<Rightarrow> nat \<Rightarrow> nat \<Rightarrow> nat \<Rightarrow> bool \<Rightarrow> merkle_state \<Rightarrow> bool" where
  "climb_match l p b level matchh st \<longleftrightarrow>
     (if matchh then p div 2 ^ level = b div 2 ^ level \<and> branch_path l p level (mk_branch st) else stored_match l p b level st)"

lemma odd_multiple:
  assumes "2 ^ level dvd b" "bit b level"
  obtains i :: nat where "b = (2 * i + 1) * 2 ^ level" "b div 2 ^ level = 2 * i + 1" "(b - 2 ^ level) div 2 ^ Suc level = i"
    "2 ^ Suc level dvd b - 2 ^ level" "b - 2 ^ level + 2 ^ Suc level = b + 2 ^ level" "b - 2 ^ level = i * 2 ^ Suc level"
proof -
  obtain q where q: "b = 2 ^ level * q" using assms(1) by blast
  then have "odd q" using assms(2) by (simp add: bit_iff_odd)
  then obtain i where "q = 2 * i + 1" by (auto elim: oddE)
  then show ?thesis using q that [of i] by (simp add: algebra_simps)
qed

lemma higher_level:
  assumes "b = (2 * i + 1) * 2 ^ level" "level < k"
  shows "(b - 2 ^ level) div 2 ^ k = b div (2 ^ k :: nat)"
proof -
  obtain j where k: "k = Suc level + j" using assms(2) less_imp_Suc_add by (metis add_Suc)
  have "(b - 2 ^ level) div 2 ^ Suc level = b div 2 ^ Suc level" unfolding assms(1)
    by (simp add: algebra_simps div_mult2_eq [symmetric])
  then show ?thesis unfolding k power_add div_mult2_eq by simp
qed


lemma push_branch_climb:
  assumes push: "push_branch True level (merkle_node l level (b div 2 ^ level)) matchh st = (matchh', branch)"
    and b: "2 ^ level dvd b" "bit b level" "b < length l"
    and inner: "inner_ok l b level st" and m: "climb_match l p b level matchh st"
  shows "climb_match l p (b - 2 ^ level) (Suc level) matchh' (st\<lparr>mk_mutated := mut, mk_branch := branch\<rparr>)"
    "\<not> matchh \<Longrightarrow> mk_matchlevel st = - 1 \<Longrightarrow> \<not> matchh'"
proof -
  from b(1,2) obtain i where i: "b = (2 * i + 1) * 2 ^ level" "b div 2 ^ level = 2 * i + 1" "(b - 2 ^ level) div 2 ^ Suc level = i" by (rule odd_multiple)
  have node: "merkle_node l (Suc level) i = merkle_hash (merkle_node l level (2 * i)) (merkle_node l level (2 * i + 1))"
    using b(3) i(1) by (intro merkle_node_double) simp
  have inn: "mk_inner st ! level = merkle_node l level (2 * i)" using inner b(2) i(2) by (simp add: inner_ok_def)
  have dv: "p div (2 * 2 ^ level) = p div 2 ^ level div 2" by (metis div_mult2_eq mult.commute)
  consider (right) "matchh" | (left) "\<not> matchh" "mk_matchlevel st = int level" | (none) "\<not> matchh" "mk_matchlevel st \<noteq> int level" by blast
  then show "climb_match l p (b - 2 ^ level) (Suc level) matchh' (st\<lparr>mk_mutated := mut, mk_branch := branch\<rparr>)"
  proof cases
    case right
    then have "matchh'" "branch = mk_branch st @ [merkle_node l level (2 * i)]" using push inn by (simp_all add: push_branch_def)
    moreover have "p div 2 ^ level = 2 * i + 1" "branch_path l p level (mk_branch st)" using m right i(2) by (simp_all add: climb_match_def)
    ultimately show ?thesis using i(3) node by (simp add: climb_match_def branch_path_def FromBranch_append dv)
  next
    case left
    then have "matchh'" "branch = mk_branch st @ [merkle_node l level (2 * i + 1)]" using push i(2) by (simp_all add: push_branch_def)
    moreover have "p div 2 ^ level = 2 * i" "branch_path l p level (mk_branch st)"
      using m left i(2) by (auto simp: climb_match_def stored_match_def)
    ultimately show ?thesis using i(3) node by (simp add: climb_match_def branch_path_def FromBranch_append dv)
  next
    case none
    then have "\<not> matchh'" "branch = mk_branch st" using push by (auto simp: push_branch_def)
    moreover have "bit (b - 2 ^ level) k = bit b k" "(b - 2 ^ level) div 2 ^ k = b div 2 ^ k" if "level < k" for k
      using higher_level [OF i(1) that] by (simp_all add: bit_iff_odd)
    ultimately show ?thesis using m none
      by (auto simp: climb_match_def stored_match_def intro!: exI [of _ "nat (mk_matchlevel st)"] dest: le_neq_implies_less)
  qed
  show "\<not> matchh \<Longrightarrow> mk_matchlevel st = - 1 \<Longrightarrow> \<not> matchh'" using push by (auto simp: push_branch_def)
qed

lemma inner_ok_climb:
  assumes "inner_ok l b level st" "2 ^ level dvd b" "bit b level"
  shows "inner_ok l (b - 2 ^ level) (Suc level) (st\<lparr>mk_mutated := mut, mk_branch := branch\<rparr>)"
proof -
  from assms(2,3) obtain i where i: "b = (2 * i + 1) * 2 ^ level" by (rule odd_multiple)
  show ?thesis using assms(1) higher_level [OF i] by (auto simp: inner_ok_def bit_iff_odd)
qed

lemma ex_from_level: "(level :: nat) < L \<Longrightarrow> (\<exists>k. level \<le> k \<and> k < L \<and> P k) \<longleftrightarrow> P level \<or> (\<exists>k. level + 1 \<le> k \<and> k < L \<and> P k)"
  by (auto simp: Suc_le_eq) (metis le_neq_implies_less, metis less_imp_le)

lemma merkle_up_climbs:
  assumes "merkle_up check pbranch count level h matchh st = (L, h', matchh', st')"
    and "count = b + 2 ^ level" "2 ^ level dvd b" "b < length l" "h = merkle_node l level (b div 2 ^ level)"
    and "inner_ok l b level st" "pbranch \<Longrightarrow> climb_match l p b level matchh st"
  shows "level \<le> L \<and> bit count L \<and> 2 ^ L dvd count \<and> (\<forall>k. level \<le> k \<longrightarrow> k < L \<longrightarrow> \<not> bit count k) \<and>
    h' = merkle_node l L (count div 2 ^ L - 1) \<and> mk_inner st' = mk_inner st \<and> mk_matchlevel st' = mk_matchlevel st \<and>
    (mk_mutated st' \<longleftrightarrow> mk_mutated st \<or> check \<and>
      (\<exists>k. level \<le> k \<and> k < L \<and> merkle_node l k (count div 2 ^ k - 2) = merkle_node l k (count div 2 ^ k - 1))) \<and>
    (matchh \<longrightarrow> matchh') \<and>
    (pbranch \<longrightarrow> climb_match l p (count - 2 ^ L) L matchh' st' \<and> (\<not> matchh \<longrightarrow> mk_matchlevel st = - 1 \<longrightarrow> \<not> matchh'))"
  using assms
proof (induction check pbranch count level h matchh st arbitrary: b rule: merkle_up.induct)
  case (1 check pbranch count level h matchh st)
  have q: "count div 2 ^ level = b div 2 ^ level + 1" using "1.prems"(2,3) by (simp add: div_add)
  show ?case
  proof (cases "bit count level")
    case True
    then have r: "L = level" "h' = h" "matchh' = matchh" "st' = st" using "1.prems"(1) by (simp_all add: merkle_up.simps [of check])
    have d: "2 ^ level dvd count" using "1.prems"(2,3) by simp
    show ?thesis unfolding r using True "1.prems"(5,7) q d
      by (intro conjI) (simp_all add: "1.prems"(2) [symmetric] diff_add_inverse2 [of b "2 ^ level", folded "1.prems"(2)], blast dest: leD)
  next
    case False
    have nl: "\<not> count < 2 ^ level" using "1.prems"(2) by simp
    have bb: "bit b level" using False q by (simp add: bit_iff_odd)
    from "1.prems"(3) bb obtain i where i: "b = (2 * i + 1) * 2 ^ level" "b div 2 ^ level = 2 * i + 1" "(b - 2 ^ level) div 2 ^ Suc level = i"
      "2 ^ Suc level dvd b - 2 ^ level" "b - 2 ^ level + 2 ^ Suc level = b + 2 ^ level" by (rule odd_multiple)
    obtain m2 branch where pb: "push_branch pbranch level h matchh st = (m2, branch)" by (cases "push_branch pbranch level h matchh st")
    have inn: "mk_inner st ! level = merkle_node l level (2 * i)" using "1.prems"(6) bb i(2) by (simp add: inner_ok_def)
    have node: "merkle_hash (mk_inner st ! level) h = merkle_node l (Suc level) ((b - 2 ^ level) div 2 ^ Suc level)"
      unfolding i(3) inn "1.prems"(5) i(2) using "1.prems"(4) i(1) by (intro merkle_node_double [symmetric]) simp
    let ?st = "st\<lparr>mk_mutated := mk_mutated st \<or> check \<and> mk_inner st ! level = h, mk_branch := branch\<rparr>"
    have up: "merkle_up check pbranch count (level + 1) (merkle_hash (mk_inner st ! level) h) m2 ?st = (L, h', matchh', st')"
      using "1.prems"(1) False nl pb by (simp add: merkle_up.simps [of check _ _ level])
    have cm: "climb_match l p (b - 2 ^ level) (Suc level) m2 ?st" "\<not> matchh \<Longrightarrow> mk_matchlevel st = - 1 \<Longrightarrow> \<not> m2" if "pbranch"
      using push_branch_climb [OF pb [unfolded "1.prems"(5), simplified that] "1.prems"(3) bb "1.prems"(4,6) "1.prems"(7) [OF that]] by blast+
    have "\<not> (bit count level \<or> count < 2 ^ level)" using False nl by simp
    note IH = "1.IH" [OF this pb [symmetric] up, of "b - 2 ^ level"]
    have e: "count = b - 2 ^ level + 2 ^ (level + 1)" using i(5) "1.prems"(2) by simp
    have d: "2 ^ (level + 1) dvd b - 2 ^ level" using i(4) by simp
    have lt: "b - 2 ^ level < length l" using "1.prems"(4) by simp
    have io: "inner_ok l (b - 2 ^ level) (level + 1) ?st" using inner_ok_climb [OF "1.prems"(6,3) bb] by simp
    note IH = IH [OF e d lt node [unfolded Suc_eq_plus1] io cm(1) [unfolded Suc_eq_plus1]]
    have "mk_inner st ! level = h \<longleftrightarrow> merkle_node l level (count div 2 ^ level - 2) = merkle_node l level (count div 2 ^ level - 1)"
      unfolding inn "1.prems"(5) q i(2) by simp
    note ex = ex_from_level [of level L "\<lambda>k. merkle_node l k (count div 2 ^ k - 2) = merkle_node l k (count div 2 ^ k - 1)", folded this]
    have "matchh \<Longrightarrow> m2" using pb by (auto simp: push_branch_def split: if_splits)
    have "level < L" using IH by simp
    have bits: "\<forall>k. level \<le> k \<longrightarrow> k < L \<longrightarrow> \<not> bit count k"
    proof (intro allI impI)
      fix k assume "level \<le> k" "k < L"
      then consider "k = level" | "level + 1 \<le> k" by linarith
      then show "\<not> bit count k" using IH False \<open>k < L\<close> by cases simp_all
    qed
    note mi = IH [THEN conjunct2, THEN conjunct2, THEN conjunct2, THEN conjunct2, THEN conjunct2, THEN conjunct2, THEN conjunct2, THEN conjunct1]
    have mut: "mk_mutated st' \<longleftrightarrow> mk_mutated st \<or> check \<and>
      (\<exists>k. level \<le> k \<and> k < L \<and> merkle_node l k (count div 2 ^ k - 2) = merkle_node l k (count div 2 ^ k - 1))"
      unfolding ex [OF \<open>level < L\<close>] using mi by (cases check) simp_all
    show ?thesis
    proof (intro conjI)
      show "pbranch \<longrightarrow> climb_match l p (count - 2 ^ L) L matchh' st' \<and> (\<not> matchh \<longrightarrow> mk_matchlevel st = - 1 \<longrightarrow> \<not> matchh')"
        using IH cm(2) by simp
      show "matchh \<longrightarrow> matchh'" using IH \<open>matchh \<Longrightarrow> m2\<close> by blast
    qed (use IH bits mut \<open>level < L\<close> in simp_all)
  qed
qed


lemma block_div:
  assumes "count = (2 * i + 1) * 2 ^ L" "count - 2 ^ L \<le> b" "b \<le> count" "L < k"
  shows "b div 2 ^ k = count div (2 ^ k :: nat)"
proof -
  obtain j where k: "k = Suc L + j" using assms(4) less_imp_Suc_add by (metis add_Suc)
  have "b < count + 2 ^ L" using assms(3) by (rule le_less_trans) simp
  then have "b div 2 ^ Suc L = i" using assms(1,2) by (intro div_nat_eqI) (simp_all add: algebra_simps)
  moreover have "count div 2 ^ Suc L = i" using assms(1) by (intro div_nat_eqI) (simp_all add: algebra_simps)
  ultimately show ?thesis unfolding k power_add div_mult2_eq by simp
qed

lemma block_bit:
  assumes "(count :: nat) = (2 * i + 1) * 2 ^ L" "count - 2 ^ L \<le> b" "b \<le> count" "L < k"
  shows "bit b k = bit count k"
  using block_div [OF assms] by (simp add: bit_iff_odd)

lemma merkle_dup_Suc:
  assumes "bit (Suc c) L" "2 ^ L dvd Suc c"
  shows "merkle_dup l (Suc c) \<longleftrightarrow> merkle_dup l c \<or>
    (\<exists>k. 0 \<le> k \<and> k < L \<and> merkle_node l k (Suc c div 2 ^ k - 2) = merkle_node l k (Suc c div 2 ^ k - 1))" (is "_ \<longleftrightarrow> _ \<or> ?new")
proof
  assume "merkle_dup l (Suc c)"
  then obtain k i where k: "(2 * i + 2) * 2 ^ k \<le> Suc c" "merkle_node l k (2 * i) = merkle_node l k (2 * i + 1)" by (auto simp: merkle_dup_def)
  show "merkle_dup l c \<or> ?new"
  proof (cases "(2 * i + 2) * 2 ^ k = Suc c")
    case True
    then have d: "Suc c div 2 ^ k = 2 * i + 2" by (metis nonzero_mult_div_cancel_right power_not_zero zero_neq_numeral)
    have "2 ^ Suc k dvd Suc c" using True [symmetric] by (simp add: algebra_simps)
    moreover have "\<not> 2 ^ Suc L dvd Suc c" using assms(1) by (metis bit_iff_odd dvd_div_iff_mult mult.commute power_Suc2 assms(2) power_not_zero zero_neq_numeral)
    ultimately have "k < L" by (meson le_imp_power_dvd dvd_trans not_less Suc_le_mono)
    then show ?thesis using k(2) d by (auto intro!: exI [of _ k])
  next
    case False
    then have "(2 * i + 2) * 2 ^ k \<le> c" using k(1) by linarith
    then have "merkle_dup l c" using k(2) unfolding merkle_dup_def by blast
    then show ?thesis ..
  qed
next
  assume "merkle_dup l c \<or> ?new"
  then show "merkle_dup l (Suc c)"
  proof
    assume ?new
    then obtain k where k: "k < L" "merkle_node l k (Suc c div 2 ^ k - 2) = merkle_node l k (Suc c div 2 ^ k - 1)" by blast
    have "2 ^ Suc k dvd Suc c" using k(1) assms(2) by (meson Suc_leI dvd_trans le_imp_power_dvd)
    then obtain q where q: "Suc c = 2 ^ k * (2 * q)" by (auto simp: mult.assoc mult.left_commute)
    then obtain i where i: "q = Suc i" by (cases q) auto
    have "Suc c div 2 ^ k = 2 * i + 2" unfolding q i by simp
    then have "merkle_node l k (2 * i) = merkle_node l k (2 * i + 1)" "(2 * i + 2) * 2 ^ k \<le> Suc c" using k(2) q i by (simp_all add: algebra_simps)
    then show ?thesis unfolding merkle_dup_def by blast
  qed (auto simp: merkle_dup_def intro: le_SucI)
qed

definition leaves_inv :: "uint256 list \<Rightarrow> nat \<Rightarrow> bool \<Rightarrow> nat \<Rightarrow> merkle_state \<Rightarrow> bool" where
  "leaves_inv l p pbranch c st \<longleftrightarrow> length (mk_inner st) = 32 \<and> inner_ok l c 0 st \<and> (mk_mutated st \<longleftrightarrow> merkle_dup l c) \<and>
     (pbranch \<longrightarrow> stored_match l p c 0 st \<and> (mk_matchlevel st = - 1 \<longleftrightarrow> c \<le> p))"

lemma merkle_leaf:
  assumes inv: "leaves_inv l p pbranch c st" and c: "c < length l" "length l \<le> 2 ^ 31" and p: "pbranch \<Longrightarrow> p < length l"
    and up: "merkle_up True pbranch (c + 1) 0 (l ! c) (c = p) st = (L, h', matchh, st')"
  shows "leaves_inv l p pbranch (Suc c) (st'\<lparr>mk_inner := (mk_inner st')[L := h'], mk_matchlevel := if matchh then int L else mk_matchlevel st'\<rparr>)"
proof -
  have m0: "climb_match l p c 0 (c = p) st" if pbranch
    using inv that p [OF that] by (auto simp: leaves_inv_def climb_match_def branch_path_def stored_match_def merkle_node_0)
  note cl = merkle_up_climbs [OF up, of c l p] 
  have cl: "bit (Suc c) L \<and> 2 ^ L dvd Suc c \<and> (\<forall>k<L. \<not> bit (Suc c) k)" "h' = merkle_node l L (Suc c div 2 ^ L - 1)"
    "mk_inner st' = mk_inner st" "mk_matchlevel st' = mk_matchlevel st"
    "mk_mutated st' \<longleftrightarrow> mk_mutated st \<or> (\<exists>k. 0 \<le> k \<and> k < L \<and> merkle_node l k (Suc c div 2 ^ k - 2) = merkle_node l k (Suc c div 2 ^ k - 1))"
    "c = p \<longrightarrow> matchh" "pbranch \<longrightarrow> climb_match l p (Suc c - 2 ^ L) L matchh st' \<and> (c \<noteq> p \<longrightarrow> mk_matchlevel st = - 1 \<longrightarrow> \<not> matchh)"
    using cl inv c(1) m0 by (auto simp: leaves_inv_def merkle_node_0)
  obtain i where i: "Suc c = (2 * i + 1) * 2 ^ L" using cl(1) odd_multiple [of L "Suc c"] by metis
  have L: "L < 32"
  proof -
    have "2 ^ L \<le> Suc c" using i by simp
    also have "\<dots> < 2 ^ 32" using c by simp
    finally show ?thesis by (rule power_less_imp_less_exp [rotated]) simp
  qed
  have "1 \<le> (2 :: nat) ^ L" by simp
  then have le: "Suc c - 2 ^ L \<le> c" by linarith
  have same: "bit c k = bit (Suc c) k" "c div 2 ^ k = Suc c div 2 ^ k" if "L < k" for k
    using block_bit [OF i le _ that] block_div [OF i le _ that] by simp_all
  let ?st = "st'\<lparr>mk_inner := (mk_inner st')[L := h'], mk_matchlevel := if matchh then int L else mk_matchlevel st'\<rparr>"
  have "inner_ok l (Suc c) 0 ?st"
    unfolding inner_ok_def
  proof (intro allI impI)
    fix k assume k: "bit (Suc c) k"
    then consider "k = L" | "L < k" using cl(1) by (metis not_less_iff_gr_or_eq)
    then show "mk_inner ?st ! k = merkle_node l k (Suc c div 2 ^ k - 1)"
      using inv cl(2,3) L k same by cases (auto simp: leaves_inv_def inner_ok_def)
  qed
  moreover have "mk_mutated ?st \<longleftrightarrow> merkle_dup l (Suc c)" using cl(1,5) inv merkle_dup_Suc [of c L l] by (simp add: leaves_inv_def)
  moreover have "stored_match l p (Suc c) 0 ?st" "mk_matchlevel ?st = - 1 \<longleftrightarrow> Suc c \<le> p" if pbranch
  proof -
    have b: "(Suc c - 2 ^ L) div 2 ^ L = Suc c div 2 ^ L - 1" using i by simp
    have hi: "bit (Suc c - 2 ^ L) k = bit (Suc c) k" "(Suc c - 2 ^ L) div 2 ^ k = Suc c div 2 ^ k" if "L < k" for k
      using block_bit [OF i _ _ that, of "Suc c - 2 ^ L"] block_div [OF i _ _ that, of "Suc c - 2 ^ L"] by simp_all
    have nb: "\<not> bit (Suc c - 2 ^ L) L" using b i by (simp add: bit_iff_odd)
    show "stored_match l p (Suc c) 0 ?st"
    proof (cases matchh)
      case True
      then show ?thesis using cl(1,7) that b by (auto simp: climb_match_def stored_match_def intro!: exI [of _ L])
    next
      case False
      then have "stored_match l p (Suc c - 2 ^ L) L st'" using cl(7) that by (simp add: climb_match_def)
      then show ?thesis using False nb hi by (auto simp: stored_match_def le_less)
    qed
    show "mk_matchlevel ?st = - 1 \<longleftrightarrow> Suc c \<le> p" using cl(4,6,7) inv that by (auto simp: leaves_inv_def)
  qed
  ultimately show ?thesis using inv cl(3) by (simp add: leaves_inv_def)
qed

lemma merkle_leaves_inv:
  assumes "leaves_inv l p pbranch c st" "c \<le> length l" "length l \<le> 2 ^ 31" "pbranch \<Longrightarrow> p < length l"
  shows "leaves_inv l p pbranch (length l) (merkle_leaves pbranch p (drop c l) c st)"
  using assms
proof (induction "length l - c" arbitrary: c st)
  case 0
  then show ?case by simp
next
  case (Suc n)
  then have "c < length l" by simp
  obtain L h' m st' where up: "merkle_up True pbranch (c + 1) 0 (l ! c) (c = p) st = (L, h', m, st')" by (cases "merkle_up True pbranch (c + 1) 0 (l ! c) (c = p) st")
  note inv = merkle_leaf [OF Suc.prems(1) \<open>c < length l\<close> Suc.prems(3,4) up]
  show ?case using Suc.hyps(1) [OF _ inv] Suc.hyps(2) Suc.prems(3,4) \<open>c < length l\<close> up by (simp add: Cons_nth_drop_Suc [symmetric])
qed


subsection \<open>The final sweep\<close>

lemma lowest_level_bit:
  assumes "2 ^ level dvd count" "0 < count"
  shows "bit count (lowest_level count level) \<and> 2 ^ lowest_level count level dvd count"
  using assms
proof (induction count level rule: lowest_level.induct)
  case (1 count level)
  have "\<not> count < 2 ^ level" using "1.prems" by (auto dest: dvd_imp_le)
  moreover have "2 ^ (level + 1) dvd count" if "\<not> bit count level"
    using that "1.prems"(1) by (auto simp: bit_iff_odd elim!: dvdE)
  ultimately show ?case using "1" by (simp add: lowest_level.simps [of count level])
qed

lemma sweep_double:
  assumes m: "climb_match l p b level matchh st" and h: "h = merkle_node l level (2 * i)" "b = i * 2 ^ Suc level"
    and l: "length l \<le> (2 * i + 1) * 2 ^ level"
  shows "climb_match l p b (Suc level) matchh (if matchh then st\<lparr>mk_branch := mk_branch st @ [h]\<rparr> else st)"
proof -
  have b: "b div 2 ^ level = 2 * i" "b div 2 ^ Suc level = i" using h(2) by (simp_all add: mult.left_commute)
  have dv: "p div (2 * 2 ^ level) = p div 2 ^ level div 2" by (metis div_mult2_eq mult.commute)
  have "\<not> bit b level" using b by (simp add: bit_iff_odd)
  then have "stored_match l p b level st \<Longrightarrow> stored_match l p b (Suc level) st" by (auto simp: stored_match_def Suc_le_eq le_less)
  then show ?thesis using m b merkle_node_single [OF l] h(1)
    by (auto simp: climb_match_def branch_path_def FromBranch_append dv)
qed

lemma merkle_node_root: "length l \<le> 2 ^ K \<Longrightarrow> merkle_node l K 0 = merkle_tree K l"
  by (simp add: merkle_node_def)

lemma merkle_sweep_correct:
  assumes "merkle_sweep pbranch count level h matchh st = (h', st')"
    and "2 ^ level dvd count" "bit count level" "count - 2 ^ level < length l" "length l \<le> count" "count < 2 * length l"
    and "h = merkle_node l level (count div 2 ^ level - 1)" "inner_ok l (count - 2 ^ level) (Suc level) st"
    and "pbranch \<Longrightarrow> climb_match l p (count - 2 ^ level) level matchh st \<and> mk_matchlevel st \<noteq> - 1"
  shows "\<exists>K. length l \<le> 2 ^ K \<and> 2 ^ K < 2 * length l \<and> h' = merkle_tree K l \<and> mk_mutated st' = mk_mutated st \<and>
    (pbranch \<longrightarrow> branch_path l p K (mk_branch st'))"
  using assms
proof (induction pbranch count level h matchh st rule: merkle_sweep.induct)
  case (1 pbranch count level h matchh st)
  obtain i where i: "count = (2 * i + 1) * 2 ^ level" "count div 2 ^ level = 2 * i + 1" "count - 2 ^ level = i * 2 ^ Suc level"
    using "1.prems"(2,3) by (rule odd_multiple)
  show ?case
  proof (cases "count = 2 ^ level")
    case True
    then have r: "h' = h" "st' = st" using "1.prems"(1) by (simp_all add: merkle_sweep.simps [of pbranch])
    have "matchh" if pbranch using "1.prems"(9) [OF that] True by (auto simp: climb_match_def stored_match_def split: if_splits)
    then have "branch_path l p level (mk_branch st)" if pbranch using "1.prems"(9) [OF that] that by (simp add: climb_match_def)
    then show ?thesis using r True "1.prems"(5-7) merkle_node_root [of l level] by (intro exI [of _ level]) simp
  next
    case False
    then have i0: "0 < i" using i(1) by (cases i) auto
    then have nl: "\<not> (count = 2 ^ level \<or> count < 2 * 2 ^ level)" using False i(1) by simp
    define b where "b = i * 2 ^ Suc level"
    let ?st = "if pbranch \<and> matchh then st\<lparr>mk_branch := mk_branch st @ [h]\<rparr> else st"
    let ?c = "count + 2 ^ level"
    obtain L h2 m2 st2 where up: "merkle_up False pbranch ?c (level + 1) (merkle_hash h h) matchh ?st = (L, h2, m2, st2)"
      by (cases "merkle_up False pbranch ?c (level + 1) (merkle_hash h h) matchh ?st")
    have hh: "h = merkle_node l level (2 * i)" using "1.prems"(7) i(2) by simp
    have li: "length l \<le> (2 * i + 1) * 2 ^ level" using "1.prems"(5) i(1) by simp
    have c: "?c = b + 2 ^ (level + 1)" "2 ^ (level + 1) dvd b" "b < length l" "merkle_hash h h = merkle_node l (level + 1) (b div 2 ^ (level + 1))"
      using "1.prems"(4) i hh merkle_node_single [OF li] by (simp_all add: b_def algebra_simps)
    have io: "inner_ok l b (level + 1) ?st" using "1.prems"(8) i(3) by (simp add: b_def inner_ok_def)
    have cm: "climb_match l p b (level + 1) matchh ?st" if pbranch
      using sweep_double [OF _ hh b_def li, of p matchh st] "1.prems"(9) [OF that] i(3) that by (simp add: b_def)
    note cl = merkle_up_climbs [OF up c io cm]
    have L: "level + 1 \<le> L" "bit ?c L" "2 ^ L dvd ?c" "h2 = merkle_node l L (?c div 2 ^ L - 1)" "mk_inner st2 = mk_inner ?st"
      "mk_matchlevel st2 = mk_matchlevel ?st" "mk_mutated st2 = mk_mutated ?st" "pbranch \<longrightarrow> climb_match l p (?c - 2 ^ L) L m2 st2"
      using cl by simp_all
    obtain j where j: "?c = (2 * j + 1) * 2 ^ L" using L(3,2) by (rule odd_multiple)
    have pw: "(2 :: nat) ^ (level + 1) \<le> 2 ^ L" using L(1) by (intro power_increasing) simp_all
    have f1: "inner_ok l (?c - 2 ^ L) (Suc L) st2"
      unfolding inner_ok_def
    proof (intro allI impI)
      fix k assume k: "Suc L \<le> k" "bit (?c - 2 ^ L) k"
      have bc: "?c - 2 ^ L \<le> b" "b \<le> ?c" using c(1) pw by linarith+
      have "bit b k" "b div 2 ^ k = (?c - 2 ^ L) div 2 ^ k"
        using block_bit [OF j bc, of k] block_div [OF j bc, of k] block_bit [OF j order_refl diff_le_self, of k] block_div [OF j order_refl diff_le_self, of k] k
        by (simp_all add: Suc_le_eq)
      then show "mk_inner st2 ! k = merkle_node l k ((?c - 2 ^ L) div 2 ^ k - 1)"
        using io k(1) L(1,5) by (simp add: inner_ok_def)
    qed
    have f2: "?c - 2 ^ L < length l" using c(1,3) pw by linarith
    have "2 ^ (level + 1) \<le> b" using i0 by (simp add: b_def)
    then have f3: "?c < 2 * length l" using c(1,3) by linarith
    have f4: "length l \<le> ?c" using "1.prems"(5) by simp
    have f5: "merkle_sweep pbranch ?c L h2 m2 st2 = (h', st')"
      using "1.prems"(1) nl up by (simp add: merkle_sweep.simps [of pbranch count] Let_def)
    have f6: "climb_match l p (?c - 2 ^ L) L m2 st2 \<and> mk_matchlevel st2 \<noteq> - 1" if pbranch using "1.prems"(9) [OF that] L(6,8) that by simp
    note IH = "1.IH" [OF nl refl refl up [symmetric] refl refl f5 L(3,2) f2 f4 f3 L(4) f1 f6]
    have "mk_mutated ?st = mk_mutated st" by simp
    then show ?thesis using IH unfolding L(7) by blast
  qed
qed


subsection \<open>The computation against the reference\<close>

text \<open>The height of the tree over \<open>n\<close> leaves.\<close>

fun merkle_depth :: "nat \<Rightarrow> nat" where
  "merkle_depth n = (if n \<le> 1 then 0 else Suc (merkle_depth ((n + 1) div 2)))"

declare merkle_depth.simps [simp del]

lemma merkle_depth_unique: "n \<le> 2 ^ K \<Longrightarrow> 2 ^ K < 2 * n \<Longrightarrow> merkle_depth n = K"
proof (induction n arbitrary: K rule: merkle_depth.induct)
  case (1 n)
  show ?case
  proof (cases "n \<le> 1")
    case True
    then show ?thesis using "1.prems" by (cases K) (auto simp: merkle_depth.simps [of n])
  next
    case False
    then obtain K' where K: "K = Suc K'" using "1.prems" by (cases K) auto
    have "merkle_depth ((n + 1) div 2) = K'" using "1.prems" False unfolding K by (intro "1.IH") auto
    then show ?thesis using False K by (simp add: merkle_depth.simps [of n])
  qed
qed

lemma merkle_depth_bounds: "0 < n \<Longrightarrow> n \<le> 2 ^ merkle_depth n \<and> 2 ^ merkle_depth n < 2 * n"
proof (induction n rule: merkle_depth.induct)
  case (1 n)
  show ?case
  proof (cases "n \<le> 1")
    case False
    define d where "d = merkle_depth ((n + 1) div 2)"
    have IH: "(n + 1) div 2 \<le> 2 ^ d" "2 ^ d < 2 * ((n + 1) div 2)" using "1.IH" [OF False] False by (simp_all add: d_def)
    have "2 ^ d < n"
    proof (cases "even n")
      case odd: False
      then obtain i where i: "n = 2 * i + 1" by (rule oddE)
      then have "d \<noteq> 0" using IH(1) False by (cases "d = 0") auto
      then have "(2 :: nat) ^ d \<noteq> n" using odd by auto
      then show ?thesis using IH(2) i by simp
    qed (use IH(2) in \<open>auto elim!: evenE\<close>)
    moreover have "n \<le> 2 * 2 ^ d" using IH(1) by linarith
    ultimately show ?thesis using False by (simp add: merkle_depth.simps [of n] d_def)
  qed (use "1.prems" in \<open>simp add: merkle_depth.simps [of n]\<close>)
qed

definition merkle_root :: "uint256 list \<Rightarrow> uint256" where
  "merkle_root l = merkle_tree (merkle_depth (length l)) l"

lemma dvd_power_not_bit: "2 ^ Suc k dvd (n :: nat) \<Longrightarrow> \<not> bit n k"
  by (auto simp: bit_iff_odd elim!: dvdE)

lemma leaves_inv_init:
  "leaves_inv l p pbranch 0 \<lparr>mk_inner = replicate 32 (replicate 32 0), mk_matchlevel = - 1, mk_mutated = False, mk_branch = []\<rparr>"
  by (simp add: leaves_inv_def inner_ok_def merkle_dup_def stored_match_def)

lemma MerkleComputation_eq:
  assumes "0 < length l" "length l \<le> 2 ^ 31" "pbranch \<Longrightarrow> p < length l"
  obtains branch where "MerkleComputation l p pbranch = (merkle_root l, merkle_dup l (length l), branch)"
    "pbranch \<Longrightarrow> ComputeMerkleRootFromBranch (l ! p) branch p = merkle_root l \<and> length branch = merkle_depth (length l)"
proof -
  let ?init = "\<lparr>mk_inner = replicate 32 (replicate 32 0), mk_matchlevel = - 1, mk_mutated = False, mk_branch = []\<rparr>"
  define st where "st = merkle_leaves pbranch p l 0 ?init"
  define level where "level = lowest_level (length l) 0"
  have inv: "leaves_inv l p pbranch (length l) st"
    using merkle_leaves_inv [OF leaves_inv_init [of l p pbranch] _ assms(2,3)] by (simp add: st_def)
  have lv: "bit (length l) level" "2 ^ level dvd length l" using lowest_level_bit [of 0 "length l"] assms(1) by (simp_all add: level_def)
  obtain i where i: "length l = (2 * i + 1) * 2 ^ level" using lv(2,1) by (rule odd_multiple)
  obtain h' st' where sw: "merkle_sweep pbranch (length l) level (mk_inner st ! level) (mk_matchlevel st = int level) st = (h', st')"
    by (cases "merkle_sweep pbranch (length l) level (mk_inner st ! level) (mk_matchlevel st = int level) st")
  have hi: "bit (length l - 2 ^ level) k = bit (length l) k" "(length l - 2 ^ level) div 2 ^ k = length l div 2 ^ k" if "level < k" for k
    using block_bit [OF i order_refl diff_le_self that] block_div [OF i order_refl diff_le_self that] by simp_all
  have io: "inner_ok l (length l - 2 ^ level) (Suc level) st" using inv hi by (simp add: leaves_inv_def inner_ok_def Suc_le_eq)
  have h: "mk_inner st ! level = merkle_node l level (length l div 2 ^ level - 1)" using inv lv(1) by (simp add: leaves_inv_def inner_ok_def)
  have low: "\<not> bit (length l) k" if "k < level" for k
    using dvd_trans [OF le_imp_power_dvd [OF Suc_leI [OF that]] lv(2)] by (rule dvd_power_not_bit)
  have cm: "climb_match l p (length l - 2 ^ level) level (mk_matchlevel st = int level) st \<and> mk_matchlevel st \<noteq> - 1" if pb: pbranch
  proof -
    obtain m where m: "mk_matchlevel st = int m" "bit (length l) m" "length l div 2 ^ m - 1 = p div 2 ^ m" "branch_path l p m (mk_branch st)"
      using inv pb assms(3) by (auto simp: leaves_inv_def stored_match_def)
    have d: "(length l - 2 ^ level) div 2 ^ level = length l div 2 ^ level - 1" using i by simp
    consider "m = level" | "level < m" using low m(2) by (meson linorder_cases)
    then show ?thesis using m d hi by cases (auto simp: climb_match_def stored_match_def)
  qed
  obtain K where K: "length l \<le> 2 ^ K" "2 ^ K < 2 * length l" "h' = merkle_tree K l" "mk_mutated st' = mk_mutated st" "pbranch \<longrightarrow> branch_path l p K (mk_branch st')"
    using merkle_sweep_correct [OF sw lv(2,1) _ order_refl _ h io cm] assms(1) by (auto simp del: One_nat_def)
  have d: "merkle_depth (length l) = K" using K(1,2) by (rule merkle_depth_unique)
  show ?thesis
  proof (rule that [of "mk_branch st'"])
    show "MerkleComputation l p pbranch = (merkle_root l, merkle_dup l (length l), mk_branch st')"
      using assms(1) sw K(3,4) inv d by (simp add: MerkleComputation_def Let_def st_def level_def leaves_inv_def merkle_root_def)
    show "ComputeMerkleRootFromBranch (l ! p) (mk_branch st') p = merkle_root l \<and> length (mk_branch st') = merkle_depth (length l)" if pbranch
    proof -
      have "p div 2 ^ K = 0" using assms(3) [OF that] K(1) by simp
      then show ?thesis using K that d by (simp add: branch_path_def merkle_root_def merkle_node_root)
    qed
  qed
qed


lemma ComputeMerkleRoot_eq:
  assumes "0 < length l" "length l \<le> 2 ^ 31"
  shows "ComputeMerkleRoot l = (merkle_root l, merkle_dup l (length l))"
proof -
  obtain branch where "MerkleComputation l (2 ^ 32 - 1) False = (merkle_root l, merkle_dup l (length l), branch)"
    by (rule MerkleComputation_eq [OF assms, of False "2 ^ 32 - 1"]) simp_all
  then show ?thesis unfolding ComputeMerkleRoot_def by (simp only: prod.case)
qed

subsection \<open>A root determines its leaves\<close>

text \<open>The pairs that are hashed in the tree of height \<open>k\<close> over a list.\<close>

fun merkle_pairs :: "nat \<Rightarrow> uint256 list \<Rightarrow> (uint256 \<times> uint256) set" where
  "merkle_pairs 0 l = {}"
| "merkle_pairs (Suc k) l =
     (if length l \<le> 2 ^ k then insert (merkle_tree k l, merkle_tree k l) (merkle_pairs k l)
      else insert (merkle_tree k (take (2 ^ k) l), merkle_tree k (drop (2 ^ k) l))
        (merkle_pairs k (take (2 ^ k) l) \<union> merkle_pairs k (drop (2 ^ k) l)))"

definition no_collision :: "(uint256 \<times> uint256) set \<Rightarrow> bool" where
  "no_collision P \<longleftrightarrow> inj_on (\<lambda>(left, right). merkle_hash left right) P"

lemma no_collisionD: "no_collision P \<Longrightarrow> (a, b) \<in> P \<Longrightarrow> (c, d) \<in> P \<Longrightarrow> merkle_hash a b = merkle_hash c d \<Longrightarrow> a = c \<and> b = d"
  by (auto simp: no_collision_def inj_on_def)

lemma no_collision_mono: "no_collision P \<Longrightarrow> Q \<subseteq> P \<Longrightarrow> no_collision Q"
  unfolding no_collision_def by (rule inj_on_subset)

lemma merkle_node_take: "(i + 1) * 2 ^ k \<le> n \<Longrightarrow> merkle_node (take n l) k i = merkle_node l k i"
  by (simp add: merkle_node_def drop_take min_def)

lemma merkle_node_drop: "merkle_node (drop (j * 2 ^ k) l) k i = merkle_node l k (i + j)"
  by (simp add: merkle_node_def algebra_simps)

lemma merkle_dup_take: "merkle_dup (take n l) (min n (length l)) \<Longrightarrow> merkle_dup l (length l)"
proof -
  assume "merkle_dup (take n l) (min n (length l))"
  then obtain k i where k: "(2 * i + 2) * 2 ^ k \<le> min n (length l)" "merkle_node (take n l) k (2 * i) = merkle_node (take n l) k (2 * i + 1)"
    by (auto simp: merkle_dup_def)
  then have "merkle_node l k (2 * i) = merkle_node l k (2 * i + 1)"
    using merkle_node_take [of "2 * i" k n l] merkle_node_take [of "2 * i + 1" k n l] by (simp add: algebra_simps)
  then show ?thesis using k(1) unfolding merkle_dup_def by (meson min.boundedE)
qed

lemma merkle_dup_drop:
  assumes "merkle_dup (drop (2 ^ K) l) (length l - 2 ^ K)" "length l \<le> 2 * 2 ^ K"
  shows "merkle_dup l (length l)"
proof -
  obtain k i where k: "(2 * i + 2) * 2 ^ k \<le> length l - 2 ^ K" "merkle_node (drop (2 ^ K) l) k (2 * i) = merkle_node (drop (2 ^ K) l) k (2 * i + 1)"
    using assms(1) by (auto simp: merkle_dup_def)
  have "2 * 2 ^ k \<le> (2 * i + 2) * 2 ^ k" by simp
  then have "2 ^ Suc k \<le> (2 :: nat) ^ K" using k(1) assms(2) by simp
  then have kK: "Suc k \<le> K" by (rule power_le_imp_le_exp [rotated]) simp
  then obtain d where d: "K = Suc k + d" using le_Suc_ex by blast
  have e: "(2 :: nat) ^ K = 2 * 2 ^ d * 2 ^ k" by (simp add: d power_add)
  have "merkle_node l k (2 * (i + 2 ^ d)) = merkle_node l k (2 * (i + 2 ^ d) + 1)"
    using k(2) unfolding e merkle_node_drop by (simp add: algebra_simps)
  moreover have "(2 * (i + 2 ^ d) + 2) * 2 ^ k = (2 * i + 2) * 2 ^ k + 2 ^ K" by (simp add: e algebra_simps)
  then have "(2 * (i + 2 ^ d) + 2) * 2 ^ k \<le> length l" using k(1) \<open>2 * 2 ^ k \<le> (2 * i + 2) * 2 ^ k\<close> zero_less_power [of "2 :: nat" k] by linarith
  ultimately show ?thesis unfolding merkle_dup_def by blast
qed

lemma merkle_tree_binds:
  assumes "no_collision (merkle_pairs K l \<union> merkle_pairs K m)" "merkle_tree K l = merkle_tree K m"
    and "l \<noteq> []" "m \<noteq> []" "length l \<le> 2 ^ K" "length m \<le> 2 ^ K" "\<not> merkle_dup l (length l)" "\<not> merkle_dup m (length m)"
  shows "l = m"
  using assms
proof (induction K arbitrary: l m)
  case 0
  then show ?case by (cases l; cases m) auto
next
  case (Suc K)
  have parts: "take (2 ^ K) x \<noteq> [] \<and> length (take (2 ^ K) x) \<le> 2 ^ K \<and> \<not> merkle_dup (take (2 ^ K) x) (length (take (2 ^ K) x))"
    "\<not> length x \<le> 2 ^ K \<Longrightarrow> drop (2 ^ K) x \<noteq> [] \<and> length (drop (2 ^ K) x) \<le> 2 ^ K \<and> \<not> merkle_dup (drop (2 ^ K) x) (length (drop (2 ^ K) x))"
    if "x \<noteq> []" "length x \<le> 2 ^ Suc K" "\<not> merkle_dup x (length x)" for x
    using that merkle_dup_take [of "2 ^ K" x] merkle_dup_drop [of K x] by (auto simp: min.commute)
  have short: "take (2 ^ K) x = x" if "length x \<le> 2 ^ K" for x :: "uint256 list" using that by simp
  note IH = Suc.IH [OF no_collision_mono [OF Suc.prems(1)]]
  have half: False if "x \<noteq> []" "length x \<le> 2 ^ K" "\<not> merkle_dup x (length x)" "\<not> length y \<le> 2 ^ K" "y \<noteq> []" "length y \<le> 2 ^ Suc K" "\<not> merkle_dup y (length y)"
    and nc: "no_collision (merkle_pairs (Suc K) x \<union> merkle_pairs (Suc K) y)" and eq: "merkle_tree (Suc K) x = merkle_tree (Suc K) y" for x y
  proof -
    have pr: "merkle_tree K x = merkle_tree K (take (2 ^ K) y) \<and> merkle_tree K x = merkle_tree K (drop (2 ^ K) y)"
      using no_collisionD [OF nc, of "merkle_tree K x" "merkle_tree K x" "merkle_tree K (take (2 ^ K) y)" "merkle_tree K (drop (2 ^ K) y)"] eq that(2,4)
      by (auto simp: Let_def)
    have a: "x = take (2 ^ K) y"
      by (rule Suc.IH [OF no_collision_mono [OF nc]]) (use pr that parts(1) [OF that(5-7)] in auto)
    have b: "x = drop (2 ^ K) y"
      by (rule Suc.IH [OF no_collision_mono [OF nc]]) (use pr that parts(2) [OF that(5-7,4)] in auto)
    have "length x = 2 ^ K" using a that(4) by simp
    moreover from this have "length y = 2 * 2 ^ K" using b that(4) by simp
    ultimately have "merkle_node y K (2 * 0) = merkle_node y K (2 * 0 + 1)" "(2 * 0 + 2) * 2 ^ K \<le> length y"
      using a b by (simp_all add: merkle_node_def)
    then show False using that(7) unfolding merkle_dup_def by blast
  qed
  consider "length l \<le> 2 ^ K" "length m \<le> 2 ^ K" | "\<not> length l \<le> 2 ^ K" "\<not> length m \<le> 2 ^ K"
    | "length l \<le> 2 ^ K" "\<not> length m \<le> 2 ^ K" | "\<not> length l \<le> 2 ^ K" "length m \<le> 2 ^ K" by blast
  then show ?case
  proof cases
    case 1
    have "merkle_tree K l = merkle_tree K m"
      using no_collisionD [OF Suc.prems(1), of "merkle_tree K l" "merkle_tree K l" "merkle_tree K m" "merkle_tree K m"] Suc.prems(2) 1 by (simp add: Let_def)
    then show ?thesis by (intro IH) (use 1 Suc.prems in auto)
  next
    case 2
    have pr: "merkle_tree K (take (2 ^ K) l) = merkle_tree K (take (2 ^ K) m) \<and> merkle_tree K (drop (2 ^ K) l) = merkle_tree K (drop (2 ^ K) m)"
      using no_collisionD [OF Suc.prems(1), of "merkle_tree K (take (2 ^ K) l)" "merkle_tree K (drop (2 ^ K) l)" "merkle_tree K (take (2 ^ K) m)" "merkle_tree K (drop (2 ^ K) m)"] Suc.prems(2) 2 by simp
    have "take (2 ^ K) l = take (2 ^ K) m"
      by (rule IH) (use pr 2 parts(1) [OF Suc.prems(3,5,7)] parts(1) [OF Suc.prems(4,6,8)] in auto)
    moreover have "drop (2 ^ K) l = drop (2 ^ K) m"
      by (rule IH) (use pr 2 parts(2) [OF Suc.prems(3,5,7)] parts(2) [OF Suc.prems(4,6,8)] in auto)
    ultimately show ?thesis by (metis append_take_drop_id)
  next
    case 3
    then show ?thesis using half [of l m] Suc.prems by blast
  next
    case 4
    then show ?thesis using half [of m l] Suc.prems by (simp add: Un_commute)
  qed
qed

subsection \<open>Properties\<close>

text \<open>The constant-space computation is right: \<open>ComputeMerkleRoot\<close> returns the root of the tree defined by halving, and its flag says
  exactly whether two complete siblings are equal anywhere in the tree; and for each position \<open>ComputeMerkleBranch\<close> gives a path
  from which \<open>ComputeMerkleRootFromBranch\<close> computes the same root.\<close>
theorem merkle_computation_correct:
  assumes "0 < length leaves" "length leaves \<le> 2 ^ 31"
  shows "ComputeMerkleRoot leaves = (merkle_root leaves, merkle_dup leaves (length leaves)) \<and>
    (position < length leaves \<longrightarrow>
      ComputeMerkleRootFromBranch (leaves ! position) (ComputeMerkleBranch leaves position) position = fst (ComputeMerkleRoot leaves) \<and>
      length (ComputeMerkleBranch leaves position) = merkle_depth (length leaves))"
proof (intro conjI impI)
  assume p: "position < length leaves"
  obtain branch where b: "MerkleComputation leaves position True = (merkle_root leaves, merkle_dup leaves (length leaves), branch)"
    "ComputeMerkleRootFromBranch (leaves ! position) branch position = merkle_root leaves" "length branch = merkle_depth (length leaves)"
    by (rule MerkleComputation_eq [OF assms, of True position]) (use p in simp_all)
  then show "ComputeMerkleRootFromBranch (leaves ! position) (ComputeMerkleBranch leaves position) position = fst (ComputeMerkleRoot leaves)"
    "length (ComputeMerkleBranch leaves position) = merkle_depth (length leaves)"
    using ComputeMerkleRoot_eq [OF assms] by (simp_all only: ComputeMerkleBranch_def prod.case fst_conv)
qed (rule ComputeMerkleRoot_eq [OF assms])

theorem merkle_computation_correct_witness:
  "ComputeMerkleRootFromBranch (replicate 32 3) (ComputeMerkleBranch [replicate 32 1, replicate 32 2, replicate 32 3] 2) 2 =
     fst (ComputeMerkleRoot [replicate 32 1, replicate 32 2, replicate 32 3])"
  using merkle_computation_correct [of "[replicate 32 1, replicate 32 2, replicate 32 3]" 2] by simp

text \<open>A Merkle root commits to the transactions: if two lists of leaves have trees of the same height and the same root,
  neither is flagged as mutated, and no two different pairs hashed in the two trees collide, then the lists are equal. The
  flag is what excludes the repetition of CVE-2012-2459, which the comment of the file describes.\<close>
theorem merkle_root_binds:
  assumes "0 < length l" "length l \<le> 2 ^ 31" "0 < length m" "length m \<le> 2 ^ 31" "merkle_depth (length l) = merkle_depth (length m)"
    and "ComputeMerkleRoot l = (hash, False)" "ComputeMerkleRoot m = (hash, False)"
    and "no_collision (merkle_pairs (merkle_depth (length l)) l \<union> merkle_pairs (merkle_depth (length m)) m)"
  shows "l = m"
  using merkle_tree_binds [OF assms(8) [unfolded assms(5)]] merkle_depth_bounds [OF assms(1)] merkle_depth_bounds [OF assms(3)] assms(5-7)
    ComputeMerkleRoot_eq [OF assms(1,2)] ComputeMerkleRoot_eq [OF assms(3,4)] assms(1,3)
  by (auto simp: merkle_root_def)

theorem merkle_root_binds_witness:
  "\<exists>hash. ComputeMerkleRoot [replicate 32 1, replicate 32 2] = (hash, False) \<and> [replicate 32 1, replicate 32 2] = [replicate 32 1, replicate 32 (2 :: u8)]"
proof -
  define l where "l = [replicate 32 1, replicate 32 (2 :: u8)]"
  have len: "length l = 2" by (simp add: l_def)
  have ne: "l ! 0 \<noteq> l ! 1"
  proof
    assume "l ! 0 = l ! 1"
    then have "hd (l ! 0) = hd (l ! 1)" by (rule arg_cong)
    then show False by (simp add: l_def)
  qed
  have dup: "\<not> merkle_dup l (length l)"
  proof
    assume "merkle_dup l (length l)"
    then obtain k i where k: "(2 * i + 2) * 2 ^ k \<le> (2 :: nat)" "merkle_node l k (2 * i) = merkle_node l k (2 * i + 1)" unfolding merkle_dup_def len by blast
    have "(2 :: nat) * 2 ^ k \<le> (2 * i + 2) * 2 ^ k" by (rule mult_right_mono) simp_all
    then have "(2 :: nat) ^ k \<le> 1" using k(1) by linarith
    then have k0: "k = 0" using one_less_power [of "2 :: nat" k] by (cases "k = 0") simp_all
    then have "i = 0" using k(1) by simp
    then show False using k(2) k0 ne len by (simp add: merkle_node_0)
  qed
  then have c: "ComputeMerkleRoot l = (merkle_root l, False)" using ComputeMerkleRoot_eq [of l] len by simp
  have "merkle_depth 1 = 0" by (subst merkle_depth.simps) simp
  then have d: "merkle_depth (length l) = Suc 0" unfolding len by (subst merkle_depth.simps) simp
  have "merkle_pairs (Suc 0) l = {(merkle_tree 0 (take 1 l), merkle_tree 0 (drop 1 l))}" using len by simp
  then have "no_collision (merkle_pairs (merkle_depth (length l)) l \<union> merkle_pairs (merkle_depth (length l)) l)"
    unfolding d by (simp only: no_collision_def Un_absorb inj_on_insert) simp
  from merkle_root_binds [OF _ _ _ _ refl c c this] show ?thesis using c len unfolding l_def by auto
qed

end
