(* ===== verification/Interpreter.thy ===== *)
theory Interpreter
  imports Transaction "HOL-Library.Sublist"
begin

text \<open>
  The script interpreter, \<^verbatim>\<open>src/src/script/interpreter.cpp\<close>, \<^verbatim>\<open>interpreter.h\<close> and \<^verbatim>\<open>script_error.h\<close>: the encoding checks of
  signatures, keys and pushes, \<open>EvalScript\<close> with one definition per group of opcodes, and \<open>VerifyScript\<close>.
  The main stack, the alternative stack and the stack of conditions are lists whose head is the back of the vector.
  A returned \<open>false\<close> with its \<open>serror\<close> is \<open>Inl\<close> of the error; the exceptions that \<open>EvalScript\<close> catches (from
  \<open>CScriptNum\<close>) are \<open>SCRIPT_ERR_UNKNOWN_ERROR\<close>. The signature checker is a record of its three methods, and
  \<open>CPubKey::CheckLowS\<close>, which calls the curve library, is a parameter of the environment.
\<close>

unbundle bit_operations_syntax

subsection \<open>Errors, flags and the environment\<close>

datatype ScriptError =
    SCRIPT_ERR_UNKNOWN_ERROR | SCRIPT_ERR_EVAL_FALSE | SCRIPT_ERR_OP_RETURN
  | SCRIPT_ERR_SCRIPT_SIZE | SCRIPT_ERR_PUSH_SIZE | SCRIPT_ERR_OP_COUNT | SCRIPT_ERR_STACK_SIZE
  | SCRIPT_ERR_SIG_COUNT | SCRIPT_ERR_PUBKEY_COUNT
  | SCRIPT_ERR_VERIFY | SCRIPT_ERR_EQUALVERIFY | SCRIPT_ERR_CHECKMULTISIGVERIFY | SCRIPT_ERR_CHECKSIGVERIFY
  | SCRIPT_ERR_NUMEQUALVERIFY
  | SCRIPT_ERR_BAD_OPCODE | SCRIPT_ERR_DISABLED_OPCODE | SCRIPT_ERR_INVALID_STACK_OPERATION
  | SCRIPT_ERR_INVALID_ALTSTACK_OPERATION | SCRIPT_ERR_UNBALANCED_CONDITIONAL
  | SCRIPT_ERR_NEGATIVE_LOCKTIME | SCRIPT_ERR_UNSATISFIED_LOCKTIME
  | SCRIPT_ERR_SIG_HASHTYPE | SCRIPT_ERR_SIG_DER | SCRIPT_ERR_MINIMALDATA | SCRIPT_ERR_SIG_PUSHONLY
  | SCRIPT_ERR_SIG_HIGH_S | SCRIPT_ERR_SIG_NULLDUMMY | SCRIPT_ERR_PUBKEYTYPE | SCRIPT_ERR_CLEANSTACK
  | SCRIPT_ERR_SIG_NULLFAIL | SCRIPT_ERR_DISCOURAGE_UPGRADABLE_NOPS

definition SIGHASH_ALL :: u8 where "SIGHASH_ALL = 1"
definition SIGHASH_NONE :: u8 where "SIGHASH_NONE = 2"
definition SIGHASH_SINGLE :: u8 where "SIGHASH_SINGLE = 3"
definition SIGHASH_ANYONECANPAY :: u8 where "SIGHASH_ANYONECANPAY = 0x80"

datatype verify_flag =
    SCRIPT_VERIFY_P2SH | SCRIPT_VERIFY_STRICTENC | SCRIPT_VERIFY_DERSIG | SCRIPT_VERIFY_LOW_S | SCRIPT_VERIFY_NULLDUMMY
  | SCRIPT_VERIFY_SIGPUSHONLY | SCRIPT_VERIFY_MINIMALDATA | SCRIPT_VERIFY_DISCOURAGE_UPGRADABLE_NOPS
  | SCRIPT_VERIFY_CLEANSTACK | SCRIPT_VERIFY_CHECKLOCKTIMEVERIFY | SCRIPT_VERIFY_CHECKSEQUENCEVERIFY
  | SCRIPT_VERIFY_NULLFAIL

text \<open>The position of a flag's bit.\<close>

fun flag_bit :: "verify_flag \<Rightarrow> nat" where
  "flag_bit SCRIPT_VERIFY_P2SH = 0"
| "flag_bit SCRIPT_VERIFY_STRICTENC = 1"
| "flag_bit SCRIPT_VERIFY_DERSIG = 2"
| "flag_bit SCRIPT_VERIFY_LOW_S = 3"
| "flag_bit SCRIPT_VERIFY_NULLDUMMY = 4"
| "flag_bit SCRIPT_VERIFY_SIGPUSHONLY = 5"
| "flag_bit SCRIPT_VERIFY_MINIMALDATA = 6"
| "flag_bit SCRIPT_VERIFY_DISCOURAGE_UPGRADABLE_NOPS = 7"
| "flag_bit SCRIPT_VERIFY_CLEANSTACK = 8"
| "flag_bit SCRIPT_VERIFY_CHECKLOCKTIMEVERIFY = 9"
| "flag_bit SCRIPT_VERIFY_CHECKSEQUENCEVERIFY = 10"
| "flag_bit SCRIPT_VERIFY_NULLFAIL = 14"

definition has_flag :: "u32 \<Rightarrow> verify_flag \<Rightarrow> bool" where
  "has_flag flags f \<longleftrightarrow> flags AND push_bit (flag_bit f) 1 \<noteq> 0"

record SignatureChecker =
  CheckSig :: "valtype \<Rightarrow> valtype \<Rightarrow> CScript \<Rightarrow> bool"
  CheckLockTime :: "int \<Rightarrow> bool"
  CheckSequence :: "int \<Rightarrow> bool"

definition BaseSignatureChecker :: SignatureChecker where
  "BaseSignatureChecker = \<lparr>CheckSig = (\<lambda>_ _ _. False), CheckLockTime = (\<lambda>_. False), CheckSequence = (\<lambda>_. False)\<rparr>"

record eval_env =
  flags :: u32
  checker :: SignatureChecker
  CheckLowS :: "bytes \<Rightarrow> bool"

abbreviation flagged :: "eval_env \<Rightarrow> verify_flag \<Rightarrow> bool" where
  "flagged env \<equiv> has_flag (flags env)"

subsection \<open>Encodings\<close>

fun CastToBool :: "valtype \<Rightarrow> bool" where
  "CastToBool [] = False"
| "CastToBool (b # bs) = (if b \<noteq> 0 then \<not> (bs = [] \<and> b = 0x80) else CastToBool bs)"

definition IsCompressedOrUncompressedPubKey :: "valtype \<Rightarrow> bool" where
  "IsCompressedOrUncompressedPubKey vchPubKey =
     (if length vchPubKey < 33 then False
      else if vchPubKey ! 0 = 0x04 then length vchPubKey = 65
      else if vchPubKey ! 0 = 0x02 \<or> vchPubKey ! 0 = 0x03 then length vchPubKey = 33
      else False)"

definition IsValidSignatureEncoding :: "bytes \<Rightarrow> bool" where
  "IsValidSignatureEncoding sig =
     (if length sig < 9 then False
      else if length sig > 73 then False
      else if sig ! 0 \<noteq> 0x30 then False
      else if unat (sig ! 1) \<noteq> length sig - 3 then False
      else let lenR = unat (sig ! 3) in
      if 5 + lenR \<ge> length sig then False
      else let lenS = unat (sig ! (5 + lenR)) in
      if lenR + lenS + 7 \<noteq> length sig then False
      else if sig ! 2 \<noteq> 0x02 then False
      else if lenR = 0 then False
      else if sig ! 4 AND 0x80 \<noteq> 0 then False
      else if lenR > 1 \<and> sig ! 4 = 0 \<and> \<not> sig ! 5 AND 0x80 \<noteq> 0 then False
      else if sig ! (lenR + 4) \<noteq> 0x02 then False
      else if lenS = 0 then False
      else if sig ! (lenR + 6) AND 0x80 \<noteq> 0 then False
      else if lenS > 1 \<and> sig ! (lenR + 6) = 0 \<and> \<not> sig ! (lenR + 7) AND 0x80 \<noteq> 0 then False
      else True)"

text \<open>The checks return the error or nothing.\<close>

definition IsLowDERSignature :: "(bytes \<Rightarrow> bool) \<Rightarrow> valtype \<Rightarrow> ScriptError + unit" where
  "IsLowDERSignature low_s vchSig =
     (if \<not> IsValidSignatureEncoding vchSig then Inl SCRIPT_ERR_SIG_DER
      else if \<not> low_s (butlast vchSig) then Inl SCRIPT_ERR_SIG_HIGH_S else Inr ())"

definition IsDefinedHashtypeSignature :: "valtype \<Rightarrow> bool" where
  "IsDefinedHashtypeSignature vchSig = (if vchSig = [] then False else
     let nHashType = last vchSig AND NOT SIGHASH_ANYONECANPAY in \<not> (nHashType < SIGHASH_ALL \<or> nHashType > SIGHASH_SINGLE))"

definition CheckSignatureEncoding :: "eval_env \<Rightarrow> valtype \<Rightarrow> ScriptError + unit" where
  "CheckSignatureEncoding env vchSig =
     (if vchSig = [] then Inr ()
      else if (flagged env SCRIPT_VERIFY_DERSIG \<or> flagged env SCRIPT_VERIFY_LOW_S \<or> flagged env SCRIPT_VERIFY_STRICTENC) \<and>
        \<not> IsValidSignatureEncoding vchSig then Inl SCRIPT_ERR_SIG_DER
      else bindE (if flagged env SCRIPT_VERIFY_LOW_S then IsLowDERSignature (CheckLowS env) vchSig else Inr ()) (\<lambda>_.
        if flagged env SCRIPT_VERIFY_STRICTENC \<and> \<not> IsDefinedHashtypeSignature vchSig then Inl SCRIPT_ERR_SIG_HASHTYPE
        else Inr ()))"

definition CheckPubKeyEncoding :: "eval_env \<Rightarrow> valtype \<Rightarrow> ScriptError + unit" where
  "CheckPubKeyEncoding env vchSig =
     (if flagged env SCRIPT_VERIFY_STRICTENC \<and> \<not> IsCompressedOrUncompressedPubKey vchSig then Inl SCRIPT_ERR_PUBKEYTYPE
      else Inr ())"

definition CheckMinimalPush :: "valtype \<Rightarrow> nat \<Rightarrow> bool" where
  "CheckMinimalPush data opcode =
     (if length data = 0 then opcode = OP_0
      else if length data = 1 \<and> data ! 0 \<ge> 1 \<and> data ! 0 \<le> 16 then opcode = OP_1 + (unat (data ! 0) - 1)
      else if length data = 1 \<and> data ! 0 = 0x81 then opcode = OP_1NEGATE
      else if length data \<le> 75 then opcode = length data
      else if length data \<le> 255 then opcode = OP_PUSHDATA1
      else if length data \<le> 65535 then opcode = OP_PUSHDATA2
      else True)"

subsection \<open>The state of an evaluation\<close>

record eval_state =
  es_stack :: "valtype list"
  es_altstack :: "valtype list"
  es_vfExec :: "bool list"
  es_nOpCount :: int
  es_pbegincodehash :: CScript

type_synonym eval_result = "ScriptError + eval_state"

definition vchFalse :: valtype where "vchFalse = []"
definition vchTrue :: valtype where "vchTrue = [1]"

abbreviation bool_vch :: "bool \<Rightarrow> valtype" where
  "bool_vch b \<equiv> if b then vchTrue else vchFalse"

abbreviation bad_stack :: "ScriptError + 'a" where
  "bad_stack \<equiv> Inl SCRIPT_ERR_INVALID_STACK_OPERATION"

abbreviation set_stack :: "eval_state \<Rightarrow> valtype list \<Rightarrow> eval_result" where
  "set_stack st s \<equiv> Inr (st \<lparr>es_stack := s\<rparr>)"

definition script_num :: "eval_env \<Rightarrow> valtype \<Rightarrow> nat \<Rightarrow> ScriptError + int" where
  "script_num env vch nMaxNumSize = (case CScriptNum vch (flagged env SCRIPT_VERIFY_MINIMALDATA) nMaxNumSize of
     None \<Rightarrow> Inl SCRIPT_ERR_UNKNOWN_ERROR | Some n \<Rightarrow> Inr n)"

abbreviation default_num :: "eval_env \<Rightarrow> valtype \<Rightarrow> ScriptError + int" where
  "default_num env vch \<equiv> script_num env vch nDefaultMaxNumSize"

subsection \<open>Opcodes: constants and control\<close>

definition op_push_number :: "nat \<Rightarrow> eval_state \<Rightarrow> eval_result" where
  "op_push_number opcode st = set_stack st (getvch (int opcode - (int OP_1 - 1)) # es_stack st)"

definition op_upgradable_nop :: "eval_env \<Rightarrow> eval_state \<Rightarrow> eval_result" where
  "op_upgradable_nop env st =
     (if flagged env SCRIPT_VERIFY_DISCOURAGE_UPGRADABLE_NOPS then Inl SCRIPT_ERR_DISCOURAGE_UPGRADABLE_NOPS else Inr st)"

definition op_checklocktimeverify :: "eval_env \<Rightarrow> eval_state \<Rightarrow> eval_result" where
  "op_checklocktimeverify env st =
     (if \<not> flagged env SCRIPT_VERIFY_CHECKLOCKTIMEVERIFY
      then if flagged env SCRIPT_VERIFY_DISCOURAGE_UPGRADABLE_NOPS then Inl SCRIPT_ERR_DISCOURAGE_UPGRADABLE_NOPS else Inr st
      else case es_stack st of [] \<Rightarrow> bad_stack
      | x # _ \<Rightarrow> bindE (script_num env x 5) (\<lambda>nLockTime.
          if nLockTime < 0 then Inl SCRIPT_ERR_NEGATIVE_LOCKTIME
          else if \<not> CheckLockTime (checker env) nLockTime then Inl SCRIPT_ERR_UNSATISFIED_LOCKTIME
          else Inr st))"

definition op_checksequenceverify :: "eval_env \<Rightarrow> eval_state \<Rightarrow> eval_result" where
  "op_checksequenceverify env st =
     (if \<not> flagged env SCRIPT_VERIFY_CHECKSEQUENCEVERIFY
      then if flagged env SCRIPT_VERIFY_DISCOURAGE_UPGRADABLE_NOPS then Inl SCRIPT_ERR_DISCOURAGE_UPGRADABLE_NOPS else Inr st
      else case es_stack st of [] \<Rightarrow> bad_stack
      | x # _ \<Rightarrow> bindE (script_num env x 5) (\<lambda>nSequence.
          if nSequence < 0 then Inl SCRIPT_ERR_NEGATIVE_LOCKTIME
          else if nSequence AND uint SEQUENCE_LOCKTIME_DISABLE_FLAG \<noteq> 0 then Inr st
          else if \<not> CheckSequence (checker env) nSequence then Inl SCRIPT_ERR_UNSATISFIED_LOCKTIME
          else Inr st))"

definition op_if :: "nat \<Rightarrow> bool \<Rightarrow> eval_state \<Rightarrow> eval_result" where
  "op_if opcode fExec st =
     (if fExec then case es_stack st of [] \<Rightarrow> Inl SCRIPT_ERR_UNBALANCED_CONDITIONAL
        | vch # s \<Rightarrow> let fValue = (if opcode = OP_NOTIF then \<not> CastToBool vch else CastToBool vch) in
            Inr (st \<lparr>es_stack := s, es_vfExec := fValue # es_vfExec st\<rparr>)
      else Inr (st \<lparr>es_vfExec := False # es_vfExec st\<rparr>))"

definition op_else :: "eval_state \<Rightarrow> eval_result" where
  "op_else st = (case es_vfExec st of [] \<Rightarrow> Inl SCRIPT_ERR_UNBALANCED_CONDITIONAL
     | b # bs \<Rightarrow> Inr (st \<lparr>es_vfExec := (\<not> b) # bs\<rparr>))"

definition op_endif :: "eval_state \<Rightarrow> eval_result" where
  "op_endif st = (case es_vfExec st of [] \<Rightarrow> Inl SCRIPT_ERR_UNBALANCED_CONDITIONAL
     | b # bs \<Rightarrow> Inr (st \<lparr>es_vfExec := bs\<rparr>))"

definition op_verify :: "eval_state \<Rightarrow> eval_result" where
  "op_verify st = (case es_stack st of [] \<Rightarrow> bad_stack
     | x # s \<Rightarrow> if CastToBool x then set_stack st s else Inl SCRIPT_ERR_VERIFY)"

subsection \<open>Opcodes: stack\<close>

definition op_toaltstack :: "eval_state \<Rightarrow> eval_result" where
  "op_toaltstack st = (case es_stack st of [] \<Rightarrow> bad_stack
     | x # s \<Rightarrow> Inr (st \<lparr>es_stack := s, es_altstack := x # es_altstack st\<rparr>))"

definition op_fromaltstack :: "eval_state \<Rightarrow> eval_result" where
  "op_fromaltstack st = (case es_altstack st of [] \<Rightarrow> Inl SCRIPT_ERR_INVALID_ALTSTACK_OPERATION
     | x # s \<Rightarrow> Inr (st \<lparr>es_stack := x # es_stack st, es_altstack := s\<rparr>))"

text \<open>The operations that rearrange the main stack, from \<open>OP_2DROP\<close> to \<open>OP_OVER\<close> and from \<open>OP_ROT\<close> to \<open>OP_SIZE\<close>.\<close>

definition stack_op1 :: "nat \<Rightarrow> valtype list \<Rightarrow> ScriptError + valtype list" where
  "stack_op1 opcode stack =
     (if opcode = OP_2DROP then (case stack of x2 # x1 # s \<Rightarrow> Inr s | _ \<Rightarrow> bad_stack)
      else if opcode = OP_2DUP then (case stack of x2 # x1 # s \<Rightarrow> Inr (x2 # x1 # x2 # x1 # s) | _ \<Rightarrow> bad_stack)
      else if opcode = OP_3DUP then
        (case stack of x3 # x2 # x1 # s \<Rightarrow> Inr (x3 # x2 # x1 # x3 # x2 # x1 # s) | _ \<Rightarrow> bad_stack)
      else if opcode = OP_2OVER then
        (case stack of x4 # x3 # x2 # x1 # s \<Rightarrow> Inr (x2 # x1 # x4 # x3 # x2 # x1 # s) | _ \<Rightarrow> bad_stack)
      else if opcode = OP_2ROT then
        (case stack of x6 # x5 # x4 # x3 # x2 # x1 # s \<Rightarrow> Inr (x2 # x1 # x6 # x5 # x4 # x3 # s) | _ \<Rightarrow> bad_stack)
      else
        (case stack of x4 # x3 # x2 # x1 # s \<Rightarrow> Inr (x2 # x1 # x4 # x3 # s) | _ \<Rightarrow> bad_stack))"

definition stack_op2 :: "nat \<Rightarrow> valtype list \<Rightarrow> ScriptError + valtype list" where
  "stack_op2 opcode stack =
     (if opcode = OP_IFDUP then
        (case stack of x # s \<Rightarrow> Inr (if CastToBool x then x # x # s else x # s) | _ \<Rightarrow> bad_stack)
      else if opcode = OP_DEPTH then Inr (getvch (int (length stack)) # stack)
      else if opcode = OP_DROP then (case stack of x # s \<Rightarrow> Inr s | _ \<Rightarrow> bad_stack)
      else if opcode = OP_DUP then (case stack of x # s \<Rightarrow> Inr (x # x # s) | _ \<Rightarrow> bad_stack)
      else if opcode = OP_NIP then (case stack of x2 # x1 # s \<Rightarrow> Inr (x2 # s) | _ \<Rightarrow> bad_stack)
      else
        (case stack of x2 # x1 # s \<Rightarrow> Inr (x1 # x2 # x1 # s) | _ \<Rightarrow> bad_stack))"

definition stack_op3 :: "nat \<Rightarrow> valtype list \<Rightarrow> ScriptError + valtype list" where
  "stack_op3 opcode stack =
     (if opcode = OP_ROT then (case stack of x3 # x2 # x1 # s \<Rightarrow> Inr (x1 # x3 # x2 # s) | _ \<Rightarrow> bad_stack)
      else if opcode = OP_SWAP then (case stack of x2 # x1 # s \<Rightarrow> Inr (x1 # x2 # s) | _ \<Rightarrow> bad_stack)
      else if opcode = OP_TUCK then (case stack of x2 # x1 # s \<Rightarrow> Inr (x2 # x1 # x2 # s) | _ \<Rightarrow> bad_stack)
      else (case stack of x # s \<Rightarrow> Inr (getvch (int (length x)) # x # s) | _ \<Rightarrow> bad_stack))"

definition op_pick_roll :: "eval_env \<Rightarrow> nat \<Rightarrow> eval_state \<Rightarrow> eval_result" where
  "op_pick_roll env opcode st = (if length (es_stack st) < 2 then bad_stack else
     bindE (default_num env (hd (es_stack st))) (\<lambda>bn. let n = getint bn; s = tl (es_stack st) in
       if n < 0 \<or> n \<ge> int (length s) then bad_stack
       else let vch = s ! nat n in
       set_stack st (vch # (if opcode = OP_ROLL then take (nat n) s @ drop (Suc (nat n)) s else s))))"

subsection \<open>Opcodes: comparison, numbers and hashes\<close>

definition op_equal :: "nat \<Rightarrow> eval_state \<Rightarrow> eval_result" where
  "op_equal opcode st = (case es_stack st of vch2 # vch1 # s \<Rightarrow>
       let fEqual = (vch1 = vch2) in
       if opcode = OP_EQUALVERIFY then if fEqual then set_stack st s else Inl SCRIPT_ERR_EQUALVERIFY
       else set_stack st (bool_vch fEqual # s)
     | _ \<Rightarrow> bad_stack)"

definition unary_num :: "nat \<Rightarrow> int \<Rightarrow> int" where
  "unary_num opcode bn =
     (if opcode = OP_1ADD then bn + 1
      else if opcode = OP_1SUB then bn - 1
      else if opcode = OP_NEGATE then - bn
      else if opcode = OP_ABS then if bn < 0 then - bn else bn
      else if opcode = OP_NOT then of_bool (bn = 0)
      else of_bool (bn \<noteq> 0))"

definition op_unary :: "eval_env \<Rightarrow> nat \<Rightarrow> eval_state \<Rightarrow> eval_result" where
  "op_unary env opcode st = (case es_stack st of x # s \<Rightarrow>
       bindE (default_num env x) (\<lambda>bn. set_stack st (getvch (unary_num opcode bn) # s))
     | _ \<Rightarrow> bad_stack)"

definition binary_num :: "nat \<Rightarrow> int \<Rightarrow> int \<Rightarrow> int" where
  "binary_num opcode bn1 bn2 =
     (if opcode = OP_ADD then bn1 + bn2
      else if opcode = OP_SUB then bn1 - bn2
      else if opcode = OP_BOOLAND then of_bool (bn1 \<noteq> 0 \<and> bn2 \<noteq> 0)
      else if opcode = OP_BOOLOR then of_bool (bn1 \<noteq> 0 \<or> bn2 \<noteq> 0)
      else if opcode = OP_NUMEQUAL then of_bool (bn1 = bn2)
      else if opcode = OP_NUMEQUALVERIFY then of_bool (bn1 = bn2)
      else if opcode = OP_NUMNOTEQUAL then of_bool (bn1 \<noteq> bn2)
      else if opcode = OP_LESSTHAN then of_bool (bn1 < bn2)
      else if opcode = OP_GREATERTHAN then of_bool (bn1 > bn2)
      else if opcode = OP_LESSTHANOREQUAL then of_bool (bn1 \<le> bn2)
      else if opcode = OP_GREATERTHANOREQUAL then of_bool (bn1 \<ge> bn2)
      else if opcode = OP_MIN then if bn1 < bn2 then bn1 else bn2
      else if bn1 > bn2 then bn1 else bn2)"

definition op_binary :: "eval_env \<Rightarrow> nat \<Rightarrow> eval_state \<Rightarrow> eval_result" where
  "op_binary env opcode st = (case es_stack st of x2 # x1 # s \<Rightarrow>
       bindE (default_num env x1) (\<lambda>bn1. bindE (default_num env x2) (\<lambda>bn2.
         let vch = getvch (binary_num opcode bn1 bn2) in
         if opcode = OP_NUMEQUALVERIFY then if CastToBool vch then set_stack st s else Inl SCRIPT_ERR_NUMEQUALVERIFY
         else set_stack st (vch # s)))
     | _ \<Rightarrow> bad_stack)"

definition op_within :: "eval_env \<Rightarrow> eval_state \<Rightarrow> eval_result" where
  "op_within env st = (case es_stack st of x3 # x2 # x1 # s \<Rightarrow>
       bindE (default_num env x1) (\<lambda>bn1. bindE (default_num env x2) (\<lambda>bn2. bindE (default_num env x3) (\<lambda>bn3.
         set_stack st (bool_vch (bn2 \<le> bn1 \<and> bn1 < bn3) # s))))
     | _ \<Rightarrow> bad_stack)"

definition hash_vch :: "nat \<Rightarrow> valtype \<Rightarrow> valtype" where
  "hash_vch opcode vch =
     (if opcode = OP_RIPEMD160 then CRIPEMD160_Finalize (CRIPEMD160_Write CRIPEMD160 vch)
      else if opcode = OP_SHA1 then CSHA1_Finalize (CSHA1_Write CSHA1 vch)
      else if opcode = OP_SHA256 then CSHA256_Finalize (CSHA256_Write CSHA256 vch)
      else if opcode = OP_HASH160 then CHash160_Finalize (CSHA256_Write CSHA256 vch)
      else CHash256_Finalize (CHash256_Write CSHA256 vch))"

definition op_hash_item :: "nat \<Rightarrow> eval_state \<Rightarrow> eval_result" where
  "op_hash_item opcode st = (case es_stack st of x # s \<Rightarrow> set_stack st (hash_vch opcode x # s) | _ \<Rightarrow> bad_stack)"

subsection \<open>Opcodes: signatures\<close>

definition drop_signature :: "CScript \<Rightarrow> valtype \<Rightarrow> CScript" where
  "drop_signature scriptCode vchSig = fst (FindAndDelete scriptCode (push_data vchSig))"

definition op_checksig :: "eval_env \<Rightarrow> nat \<Rightarrow> eval_state \<Rightarrow> eval_result" where
  "op_checksig env opcode st = (case es_stack st of vchPubKey # vchSig # s \<Rightarrow>
       let scriptCode = drop_signature (es_pbegincodehash st) vchSig in
       bindE (CheckSignatureEncoding env vchSig) (\<lambda>_. bindE (CheckPubKeyEncoding env vchPubKey) (\<lambda>_.
         let fSuccess = CheckSig (checker env) vchSig vchPubKey scriptCode in
         if \<not> fSuccess \<and> flagged env SCRIPT_VERIFY_NULLFAIL \<and> vchSig \<noteq> [] then Inl SCRIPT_ERR_SIG_NULLFAIL
         else if opcode = OP_CHECKSIGVERIFY then if fSuccess then set_stack st s else Inl SCRIPT_ERR_CHECKSIGVERIFY
         else set_stack st (bool_vch fSuccess # s)))
     | _ \<Rightarrow> bad_stack)"

text \<open>The loop that matches the remaining signatures with the remaining keys, both from the top of the stack. It
  stops as soon as more signatures than keys are left, so it never runs out of keys.\<close>

fun multisig_loop :: "eval_env \<Rightarrow> CScript \<Rightarrow> valtype list \<Rightarrow> valtype list \<Rightarrow> ScriptError + bool" where
  "multisig_loop env scriptCode [] keys = Inr True"
| "multisig_loop env scriptCode (vchSig # sigs) [] = Inr False"
| "multisig_loop env scriptCode (vchSig # sigs) (vchPubKey # keys) =
     bindE (CheckSignatureEncoding env vchSig) (\<lambda>_. bindE (CheckPubKeyEncoding env vchPubKey) (\<lambda>_.
       let sigs' = (if CheckSig (checker env) vchSig vchPubKey scriptCode then sigs else vchSig # sigs) in
       if length sigs' > length keys then Inr False else multisig_loop env scriptCode sigs' keys))"

text \<open>The loop that removes the \<open>n\<close> arguments; the first \<open>ikey2\<close> of them are not signatures.\<close>

fun multisig_cleanup :: "eval_env \<Rightarrow> bool \<Rightarrow> nat \<Rightarrow> nat \<Rightarrow> valtype list \<Rightarrow> ScriptError + valtype list" where
  "multisig_cleanup env fSuccess 0 ikey2 stack = Inr stack"
| "multisig_cleanup env fSuccess (Suc n) ikey2 [] = Inl SCRIPT_ERR_UNKNOWN_ERROR"
| "multisig_cleanup env fSuccess (Suc n) ikey2 (x # stack) =
     (if \<not> fSuccess \<and> flagged env SCRIPT_VERIFY_NULLFAIL \<and> ikey2 = 0 \<and> x \<noteq> [] then Inl SCRIPT_ERR_SIG_NULLFAIL
      else multisig_cleanup env fSuccess n (ikey2 - 1) stack)"

text \<open>The numbers of keys and signatures, when the counts and the sizes of the stack allow them.\<close>

definition multisig_counts :: "eval_env \<Rightarrow> eval_state \<Rightarrow> ScriptError + nat \<times> nat" where
  "multisig_counts env st = (let stack = es_stack st in
     if length stack < 1 then bad_stack else
     bindE (default_num env (stack ! 0)) (\<lambda>bnKeys. let nKeysCount = getint bnKeys; k = nat nKeysCount in
     if nKeysCount < 0 \<or> nKeysCount > MAX_PUBKEYS_PER_MULTISIG then Inl SCRIPT_ERR_PUBKEY_COUNT
     else if es_nOpCount st + nKeysCount > MAX_OPS_PER_SCRIPT then Inl SCRIPT_ERR_OP_COUNT
     else if length stack < 2 + k then bad_stack else
     bindE (default_num env (stack ! (1 + k))) (\<lambda>bnSigs. let nSigsCount = getint bnSigs; m = nat nSigsCount in
     if nSigsCount < 0 \<or> nSigsCount > nKeysCount then Inl SCRIPT_ERR_SIG_COUNT
     else if length stack < 3 + k + m then bad_stack
     else Inr (k, m))))"

text \<open>What follows the removal of the arguments: the extra argument and the result.\<close>

definition multisig_finish :: "eval_env \<Rightarrow> nat \<Rightarrow> bool \<Rightarrow> valtype list \<Rightarrow> ScriptError + valtype list" where
  "multisig_finish env opcode fSuccess stack = (case stack of [] \<Rightarrow> bad_stack
     | dummy # s \<Rightarrow>
         if flagged env SCRIPT_VERIFY_NULLDUMMY \<and> dummy \<noteq> [] then Inl SCRIPT_ERR_SIG_NULLDUMMY
         else if opcode = OP_CHECKMULTISIGVERIFY then if fSuccess then Inr s else Inl SCRIPT_ERR_CHECKMULTISIGVERIFY
         else Inr (bool_vch fSuccess # s))"

definition op_checkmultisig :: "eval_env \<Rightarrow> nat \<Rightarrow> eval_state \<Rightarrow> eval_result" where
  "op_checkmultisig env opcode st = bindE (multisig_counts env st) (\<lambda>(k, m).
     let stack = es_stack st; keys = take k (drop 1 stack); sigs = take m (drop (2 + k) stack);
         scriptCode = foldl drop_signature (es_pbegincodehash st) sigs in
     bindE (multisig_loop env scriptCode sigs keys) (\<lambda>fSuccess.
     bindE (multisig_cleanup env fSuccess (2 + k + m) (k + 2) stack) (\<lambda>stack1.
     bindE (multisig_finish env opcode fSuccess stack1) (\<lambda>stack2.
       Inr (st \<lparr>es_stack := stack2, es_nOpCount := es_nOpCount st + int k\<rparr>)))))"

subsection \<open>The dispatch and the loop\<close>

text \<open>\<open>pc\<close> is the iterator after the instruction.\<close>

definition on_stack :: "(valtype list \<Rightarrow> ScriptError + valtype list) \<Rightarrow> eval_state \<Rightarrow> eval_result" where
  "on_stack f st = bindE (f (es_stack st)) (set_stack st)"

definition exec_opcode :: "eval_env \<Rightarrow> bytes \<Rightarrow> nat \<Rightarrow> bool \<Rightarrow> eval_state \<Rightarrow> eval_result" where
  "exec_opcode env pc opcode fExec st =
     (if opcode = OP_1NEGATE \<or> (OP_1 \<le> opcode \<and> opcode \<le> OP_16) then op_push_number opcode st
      else if opcode = OP_NOP then Inr st
      else if opcode = OP_CHECKLOCKTIMEVERIFY then op_checklocktimeverify env st
      else if opcode = OP_CHECKSEQUENCEVERIFY then op_checksequenceverify env st
      else if opcode \<in> {OP_NOP1, OP_NOP4, OP_NOP5, OP_NOP6, OP_NOP7, OP_NOP8, OP_NOP9, OP_NOP10} then op_upgradable_nop env st
      else if opcode = OP_IF \<or> opcode = OP_NOTIF then op_if opcode fExec st
      else if opcode = OP_ELSE then op_else st
      else if opcode = OP_ENDIF then op_endif st
      else if opcode = OP_VERIFY then op_verify st
      else if opcode = OP_RETURN then Inl SCRIPT_ERR_OP_RETURN
      else if opcode = OP_TOALTSTACK then op_toaltstack st
      else if opcode = OP_FROMALTSTACK then op_fromaltstack st
      else if opcode \<in> {OP_2DROP, OP_2DUP, OP_3DUP, OP_2OVER, OP_2ROT, OP_2SWAP} then on_stack (stack_op1 opcode) st
      else if opcode \<in> {OP_IFDUP, OP_DEPTH, OP_DROP, OP_DUP, OP_NIP, OP_OVER} then on_stack (stack_op2 opcode) st
      else if opcode = OP_PICK \<or> opcode = OP_ROLL then op_pick_roll env opcode st
      else if opcode \<in> {OP_ROT, OP_SWAP, OP_TUCK, OP_SIZE} then on_stack (stack_op3 opcode) st
      else if opcode = OP_EQUAL \<or> opcode = OP_EQUALVERIFY then op_equal opcode st
      else if opcode \<in> {OP_1ADD, OP_1SUB, OP_NEGATE, OP_ABS, OP_NOT, OP_0NOTEQUAL} then op_unary env opcode st
      else if opcode \<in> {OP_ADD, OP_SUB, OP_BOOLAND, OP_BOOLOR, OP_NUMEQUAL, OP_NUMEQUALVERIFY, OP_NUMNOTEQUAL, OP_LESSTHAN,
          OP_GREATERTHAN, OP_LESSTHANOREQUAL, OP_GREATERTHANOREQUAL, OP_MIN, OP_MAX} then op_binary env opcode st
      else if opcode = OP_WITHIN then op_within env st
      else if opcode \<in> {OP_RIPEMD160, OP_SHA1, OP_SHA256, OP_HASH160, OP_HASH256} then op_hash_item opcode st
      else if opcode = OP_CODESEPARATOR then Inr (st \<lparr>es_pbegincodehash := pc\<rparr>)
      else if opcode = OP_CHECKSIG \<or> opcode = OP_CHECKSIGVERIFY then op_checksig env opcode st
      else if opcode = OP_CHECKMULTISIG \<or> opcode = OP_CHECKMULTISIGVERIFY then op_checkmultisig env opcode st
      else Inl SCRIPT_ERR_BAD_OPCODE)"

definition disabled_opcodes :: "nat set" where
  "disabled_opcodes = {OP_CAT, OP_SUBSTR, OP_LEFT, OP_RIGHT, OP_INVERT, OP_AND, OP_OR, OP_XOR, OP_2MUL, OP_2DIV, OP_MUL,
     OP_DIV, OP_MOD, OP_LSHIFT, OP_RSHIFT}"

definition eval_opcode :: "eval_env \<Rightarrow> bytes \<Rightarrow> nat \<Rightarrow> valtype \<Rightarrow> eval_state \<Rightarrow> eval_result" where
  "eval_opcode env pc opcode vchPushValue st = (let fExec = (\<not> False \<in> set (es_vfExec st)) in
     if fExec \<and> opcode \<le> OP_PUSHDATA4 then
       if flagged env SCRIPT_VERIFY_MINIMALDATA \<and> \<not> CheckMinimalPush vchPushValue opcode then Inl SCRIPT_ERR_MINIMALDATA
       else set_stack st (vchPushValue # es_stack st)
     else if fExec \<or> (OP_IF \<le> opcode \<and> opcode \<le> OP_ENDIF) then exec_opcode env pc opcode fExec st
     else Inr st)"

text \<open>One iteration of the loop, with the iterator it leaves.\<close>

definition eval_step :: "eval_env \<Rightarrow> bytes \<Rightarrow> eval_state \<Rightarrow> ScriptError + bytes \<times> eval_state" where
  "eval_step env pc st = (case GetOp pc of
     None \<Rightarrow> Inl SCRIPT_ERR_BAD_OPCODE
   | Some (opcode, vchPushValue, pc') \<Rightarrow>
       if length vchPushValue > MAX_SCRIPT_ELEMENT_SIZE then Inl SCRIPT_ERR_PUSH_SIZE else
       let st1 = (if opcode > OP_16 then st \<lparr>es_nOpCount := es_nOpCount st + 1\<rparr> else st) in
       if opcode > OP_16 \<and> es_nOpCount st1 > MAX_OPS_PER_SCRIPT then Inl SCRIPT_ERR_OP_COUNT
       else if opcode \<in> disabled_opcodes then Inl SCRIPT_ERR_DISABLED_OPCODE
       else bindE (eval_opcode env pc' opcode vchPushValue st1) (\<lambda>st2.
         if length (es_stack st2) + length (es_altstack st2) > 1000 then Inl SCRIPT_ERR_STACK_SIZE else Inr (pc', st2)))"

lemma eval_step_shorter: "eval_step env pc st = Inr (pc', st') \<Longrightarrow> length pc' < length pc"
  by (auto simp: eval_step_def bindE_eq_Inr Let_def split: option.splits if_splits dest!: GetOp_shorter)

function eval_loop :: "eval_env \<Rightarrow> bytes \<Rightarrow> eval_state \<Rightarrow> eval_result" where
  "eval_loop env pc st = (if pc = [] then Inr st else case eval_step env pc st of
     Inl e \<Rightarrow> Inl e | Inr (pc', st') \<Rightarrow> eval_loop env pc' st')"
  by pat_completeness auto
termination
  by (relation "measure (\<lambda>(env, pc, st). length pc)") (auto dest: eval_step_shorter)

declare eval_loop.simps [simp del]

definition EvalScript :: "eval_env \<Rightarrow> valtype list \<Rightarrow> CScript \<Rightarrow> ScriptError + valtype list" where
  "EvalScript env stack script = (if length script > MAX_SCRIPT_SIZE then Inl SCRIPT_ERR_SCRIPT_SIZE else
     bindE (eval_loop env script \<lparr>es_stack = stack, es_altstack = [], es_vfExec = [], es_nOpCount = 0, es_pbegincodehash = script\<rparr>)
       (\<lambda>st. if es_vfExec st \<noteq> [] then Inl SCRIPT_ERR_UNBALANCED_CONDITIONAL else Inr (es_stack st)))"

subsection \<open>Verification of a spend\<close>

text \<open>A failed assertion of \<open>VerifyScript\<close> is an error of its own.\<close>

datatype verify_error = Script_error ScriptError | Verify_assert

definition eval_for_verify :: "eval_env \<Rightarrow> valtype list \<Rightarrow> CScript \<Rightarrow> verify_error + valtype list" where
  "eval_for_verify env stack script = (case EvalScript env stack script of Inl e \<Rightarrow> Inl (Script_error e) | Inr s \<Rightarrow> Inr s)"

definition top_is_true :: "valtype list \<Rightarrow> verify_error + unit" where
  "top_is_true stack = (case stack of [] \<Rightarrow> Inl (Script_error SCRIPT_ERR_EVAL_FALSE)
     | x # _ \<Rightarrow> if CastToBool x then Inr () else Inl (Script_error SCRIPT_ERR_EVAL_FALSE))"

text \<open>The additional validation of a pay-to-script-hash spend; \<open>stackCopy\<close> is the stack the \<open>scriptSig\<close> left.\<close>

definition verify_p2sh :: "eval_env \<Rightarrow> CScript \<Rightarrow> valtype list \<Rightarrow> verify_error + valtype list" where
  "verify_p2sh env script_sig stackCopy =
     (if \<not> IsPushOnly script_sig then Inl (Script_error SCRIPT_ERR_SIG_PUSHONLY)
      else case stackCopy of [] \<Rightarrow> Inl Verify_assert
      | pubKeySerialized # stack \<Rightarrow>
          bindE (eval_for_verify env stack pubKeySerialized) (\<lambda>stack'. bindE (top_is_true stack') (\<lambda>_. Inr stack')))"

definition VerifyScript :: "eval_env \<Rightarrow> CScript \<Rightarrow> CScript \<Rightarrow> verify_error + unit" where
  "VerifyScript env script_sig script_pubkey =
     (if flagged env SCRIPT_VERIFY_SIGPUSHONLY \<and> \<not> IsPushOnly script_sig then Inl (Script_error SCRIPT_ERR_SIG_PUSHONLY) else
      bindE (eval_for_verify env [] script_sig) (\<lambda>stackCopy.
      bindE (eval_for_verify env stackCopy script_pubkey) (\<lambda>stack.
      bindE (top_is_true stack) (\<lambda>_.
      bindE (if flagged env SCRIPT_VERIFY_P2SH \<and> IsPayToScriptHash script_pubkey then verify_p2sh env script_sig stackCopy else Inr stack) (\<lambda>stack'.
      if flagged env SCRIPT_VERIFY_CLEANSTACK
      then if \<not> flagged env SCRIPT_VERIFY_P2SH then Inl Verify_assert
        else if length stack' \<noteq> 1 then Inl (Script_error SCRIPT_ERR_CLEANSTACK) else Inr ()
      else Inr ())))))"

subsection \<open>Resource limits\<close>

abbreviation small :: "valtype \<Rightarrow> bool" where
  "small x \<equiv> length x \<le> MAX_SCRIPT_ELEMENT_SIZE"

definition elems_ok :: "eval_state \<Rightarrow> bool" where
  "elems_ok st \<longleftrightarrow> list_all small (es_stack st) \<and> list_all small (es_altstack st) \<and>
     length (es_stack st) + length (es_altstack st) \<le> 1000"

text \<open>What an instruction may do to the state: the items stay small, at most one condition is added and the counter of
  operations stays within its limit.\<close>

definition frame_ok :: "eval_state \<Rightarrow> eval_state \<Rightarrow> bool" where
  "frame_ok st st' \<longleftrightarrow> list_all small (es_stack st') \<and> list_all small (es_altstack st') \<and>
     length (es_vfExec st') \<le> Suc (length (es_vfExec st)) \<and> es_nOpCount st \<le> es_nOpCount st' \<and>
     (es_nOpCount st \<le> MAX_OPS_PER_SCRIPT \<longrightarrow> es_nOpCount st' \<le> MAX_OPS_PER_SCRIPT)"

named_theorems op_frame

lemma script_num_bound: "script_num env x k = Inr n \<Longrightarrow> 0 < k \<Longrightarrow> \<bar>n\<bar> < 2 ^ (8 * k - 1)"
  by (auto simp: script_num_def split: option.splits dest: CScriptNum_bound)

lemma default_num_bound: "default_num env x = Inr n \<Longrightarrow> \<bar>n\<bar> < 2147483648"
  using script_num_bound [of env x nDefaultMaxNumSize n] by (simp add: nDefaultMaxNumSize_def)

lemma small_getvch: "\<bar>n\<bar> < 4294967296 \<Longrightarrow> small (getvch n)"
  using length_serialize_num [of n 4] by (simp add: getvch_def MAX_SCRIPT_ELEMENT_SIZE_def)

lemma small_bool [simp]: "small vchTrue" "small vchFalse"
  by (simp_all add: vchTrue_def vchFalse_def MAX_SCRIPT_ELEMENT_SIZE_def)

lemma small_hash: "small (hash_vch opcode x)"
  using length_Hash160 [of x] length_Hash_ranges [of "[x]"]
  by (simp add: hash_vch_def length_CRIPEMD160 length_CSHA1 CSHA256_once length_sha256_spec MAX_SCRIPT_ELEMENT_SIZE_def
      Hash160_def [symmetric] Hash_ranges_def)

lemma list_all_take_drop: "list_all P xs \<Longrightarrow> list_all P (take n xs)" "list_all P xs \<Longrightarrow> list_all P (drop n xs)"
  by (auto simp: list_all_iff dest: in_set_takeD in_set_dropD)

lemma unary_num_bound: "\<bar>n\<bar> < 2147483648 \<Longrightarrow> \<bar>unary_num opcode n\<bar> < 4294967296"
  by (auto simp: unary_num_def)

lemma binary_num_bound: "\<bar>a\<bar> < 2147483648 \<Longrightarrow> \<bar>b\<bar> < 2147483648 \<Longrightarrow> \<bar>binary_num opcode a b\<bar> < 4294967296"
  by (auto simp: binary_num_def)

lemma frame_same: "elems_ok st \<Longrightarrow> frame_ok st st"
  by (simp add: frame_ok_def elems_ok_def)

lemma frame_stack:
  "elems_ok st \<Longrightarrow> list_all small s \<Longrightarrow> frame_ok st (st \<lparr>es_stack := s\<rparr>)"
  by (simp add: frame_ok_def elems_ok_def)

lemma frame_push_number:
  "op_push_number opcode st = Inr st' \<Longrightarrow> elems_ok st \<Longrightarrow> opcode = OP_1NEGATE \<or> (OP_1 \<le> opcode \<and> opcode \<le> OP_16) \<Longrightarrow>
     frame_ok st st'"
  using small_getvch [of "int opcode - 80"] by (auto simp: op_push_number_def frame_ok_def elems_ok_def)

lemma frame_nops [op_frame]:
  "op_upgradable_nop env st = Inr st' \<Longrightarrow> elems_ok st \<Longrightarrow> frame_ok st st'"
  "op_checklocktimeverify env st = Inr st' \<Longrightarrow> elems_ok st \<Longrightarrow> frame_ok st st'"
  "op_checksequenceverify env st = Inr st' \<Longrightarrow> elems_ok st \<Longrightarrow> frame_ok st st'"
  by (auto simp: op_upgradable_nop_def op_checklocktimeverify_def op_checksequenceverify_def bindE_eq_Inr
      split: if_splits list.splits intro: frame_same)

lemma frame_control [op_frame]:
  "op_if opcode fExec st = Inr st' \<Longrightarrow> elems_ok st \<Longrightarrow> frame_ok st st'"
  "op_else st = Inr st' \<Longrightarrow> elems_ok st \<Longrightarrow> frame_ok st st'"
  "op_endif st = Inr st' \<Longrightarrow> elems_ok st \<Longrightarrow> frame_ok st st'"
  "op_verify st = Inr st' \<Longrightarrow> elems_ok st \<Longrightarrow> frame_ok st st'"
  by (auto simp: op_if_def op_else_def op_endif_def op_verify_def frame_ok_def elems_ok_def Let_def
      split: if_splits list.splits)

lemma frame_alt [op_frame]:
  "op_toaltstack st = Inr st' \<Longrightarrow> elems_ok st \<Longrightarrow> frame_ok st st'"
  "op_fromaltstack st = Inr st' \<Longrightarrow> elems_ok st \<Longrightarrow> frame_ok st st'"
  by (auto simp: op_toaltstack_def op_fromaltstack_def frame_ok_def elems_ok_def split: list.splits)

lemma small_stack_op1: "stack_op1 opcode s = Inr s' \<Longrightarrow> list_all small s \<Longrightarrow> list_all small s'"
  by (auto simp: stack_op1_def split: if_splits list.splits)

lemma small_stack_op2:
  "stack_op2 opcode s = Inr s' \<Longrightarrow> list_all small s \<Longrightarrow> length s \<le> 1000 \<Longrightarrow> list_all small s'"
  using small_getvch [of "int (length s)"] by (auto simp: stack_op2_def split: if_splits list.splits)

lemma small_stack_op3: "stack_op3 opcode s = Inr s' \<Longrightarrow> list_all small s \<Longrightarrow> list_all small s'"
  using small_getvch by (auto simp: stack_op3_def MAX_SCRIPT_ELEMENT_SIZE_def split: if_splits list.splits)

lemma frame_stack_ops [op_frame]:
  "on_stack (stack_op1 opcode) st = Inr st' \<Longrightarrow> elems_ok st \<Longrightarrow> frame_ok st st'"
  "on_stack (stack_op2 opcode) st = Inr st' \<Longrightarrow> elems_ok st \<Longrightarrow> frame_ok st st'"
  "on_stack (stack_op3 opcode) st = Inr st' \<Longrightarrow> elems_ok st \<Longrightarrow> frame_ok st st'"
  using small_stack_op1 small_stack_op2 small_stack_op3
  by (auto simp: on_stack_def bindE_eq_Inr elems_ok_def intro!: frame_stack)

lemma frame_pick_roll [op_frame]: "op_pick_roll env opcode st = Inr st' \<Longrightarrow> elems_ok st \<Longrightarrow> frame_ok st st'"
proof (cases "es_stack st")
  case (Cons x s)
  assume a: "op_pick_roll env opcode st = Inr st'" "elems_ok st"
  then have s: "list_all small s" using Cons by (simp add: elems_ok_def)
  have n: "small (s ! n)" if "n < length s" for n using s that by (simp add: list_all_length)
  show ?thesis using a Cons list_all_take_drop [OF s] n s
    by (auto simp: op_pick_roll_def bindE_eq_Inr Let_def nat_less_iff split: if_splits intro!: frame_stack)
qed (simp add: op_pick_roll_def)

lemma frame_data [op_frame]:
  "op_equal opcode st = Inr st' \<Longrightarrow> elems_ok st \<Longrightarrow> frame_ok st st'"
  "op_unary env opcode st = Inr st' \<Longrightarrow> elems_ok st \<Longrightarrow> frame_ok st st'"
  "op_binary env opcode st = Inr st' \<Longrightarrow> elems_ok st \<Longrightarrow> frame_ok st st'"
  "op_within env st = Inr st' \<Longrightarrow> elems_ok st \<Longrightarrow> frame_ok st st'"
  "op_hash_item opcode st = Inr st' \<Longrightarrow> elems_ok st \<Longrightarrow> frame_ok st st'"
  "op_checksig env opcode st = Inr st' \<Longrightarrow> elems_ok st \<Longrightarrow> frame_ok st st'"
  by (auto simp: op_equal_def op_unary_def op_binary_def op_within_def op_hash_item_def op_checksig_def bindE_eq_Inr Let_def
      frame_ok_def elems_ok_def small_hash
      split: list.splits if_splits dest!: default_num_bound intro!: small_getvch unary_num_bound binary_num_bound)

lemma multisig_cleanup_drop: "multisig_cleanup env ok n i s = Inr s' \<Longrightarrow> s' = drop n s"
  by (induction env ok n i s rule: multisig_cleanup.induct) (auto split: if_splits)

lemma multisig_finish_small:
  "multisig_finish env opcode b s = Inr s' \<Longrightarrow> list_all small s \<Longrightarrow> list_all small s'"
  by (auto simp: multisig_finish_def split: list.splits if_splits)

lemma multisig_counts_ok:
  "multisig_counts env st = Inr (k, m) \<Longrightarrow>
     int k \<le> MAX_PUBKEYS_PER_MULTISIG \<and> es_nOpCount st + int k \<le> MAX_OPS_PER_SCRIPT \<and> m \<le> k \<and> 3 + k + m \<le> length (es_stack st)"
  by (auto simp: multisig_counts_def bindE_eq_Inr Let_def split: if_splits)

lemma frame_checkmultisig [op_frame]:
  "op_checkmultisig env opcode st = Inr st' \<Longrightarrow> elems_ok st \<Longrightarrow> frame_ok st st'"
  by (auto simp: op_checkmultisig_def frame_ok_def elems_ok_def bindE_eq_Inr Let_def list_all_take_drop
      dest!: multisig_cleanup_drop multisig_counts_ok dest: multisig_finish_small)

lemma if_InrE:
  assumes "(if b then x else y) = Inr s" "b \<Longrightarrow> x = Inr s \<Longrightarrow> P" "\<not> b \<Longrightarrow> y = Inr s \<Longrightarrow> P"
  shows P
  using assms by (cases b) simp_all

lemma frame_Inr:
  "Inr st = (Inr st' :: eval_result) \<Longrightarrow> elems_ok st \<Longrightarrow> frame_ok st st'"
  "Inr (st \<lparr>es_pbegincodehash := pc\<rparr>) = (Inr st' :: eval_result) \<Longrightarrow> elems_ok st \<Longrightarrow> frame_ok st st'"
  "Inl e = (Inr st' :: eval_result) \<Longrightarrow> elems_ok st \<Longrightarrow> frame_ok st st'"
  by (auto simp: frame_ok_def elems_ok_def)

lemma frame_exec: "exec_opcode env pc opcode fExec st = Inr st' \<Longrightarrow> elems_ok st \<Longrightarrow> frame_ok st st'"
  unfolding exec_opcode_def
  by (elim if_InrE; (erule (2) frame_push_number | erule (1) frame_Inr | erule (1) op_frame))

lemma frame_eval_opcode:
  "eval_opcode env pc opcode vch st = Inr st' \<Longrightarrow> elems_ok st \<Longrightarrow> small vch \<Longrightarrow> frame_ok st st'"
  by (auto simp: eval_opcode_def Let_def intro: frame_exec frame_same frame_stack split: if_splits)
    (auto simp: frame_ok_def elems_ok_def)

text \<open>The invariant of the loop: every open condition was counted as an operation.\<close>

definition eval_inv :: "eval_state \<Rightarrow> bool" where
  "eval_inv st \<longleftrightarrow> elems_ok st \<and> int (length (es_vfExec st)) \<le> es_nOpCount st \<and> es_nOpCount st \<le> MAX_OPS_PER_SCRIPT"

lemma eval_opcode_vfExec:
  "eval_opcode env pc opcode vch st = Inr st' \<Longrightarrow> opcode \<le> OP_16 \<Longrightarrow> es_vfExec st' = es_vfExec st"
  by (auto simp: eval_opcode_def exec_opcode_def op_push_number_def Let_def split: if_splits)

lemma eval_step_inv:
  assumes "eval_step env pc st = Inr (pc', st')" "eval_inv st"
  shows "eval_inv st'"
proof -
  from assms(1) obtain opcode vch st1 where o: "GetOp pc = Some (opcode, vch, pc')" "small vch"
    "st1 = (if opcode > OP_16 then st \<lparr>es_nOpCount := es_nOpCount st + 1\<rparr> else st)"
    "opcode > OP_16 \<longrightarrow> es_nOpCount st1 \<le> MAX_OPS_PER_SCRIPT"
    "eval_opcode env pc' opcode vch st1 = Inr st'" "length (es_stack st') + length (es_altstack st') \<le> 1000"
    by (auto simp: eval_step_def bindE_eq_Inr Let_def split: option.splits if_splits)
  have st1: "elems_ok st1" "es_nOpCount st1 \<le> MAX_OPS_PER_SCRIPT" "es_vfExec st1 = es_vfExec st"
    using assms(2) o(3,4) by (auto simp: eval_inv_def elems_ok_def)
  have fr: "frame_ok st1 st'" using frame_eval_opcode [OF o(5) st1(1) o(2)] .
  have "int (length (es_vfExec st')) \<le> es_nOpCount st'"
  proof (cases "opcode > OP_16")
    case True
    then show ?thesis using fr assms(2) o(3) by (auto simp: frame_ok_def eval_inv_def)
  next
    case False
    then show ?thesis using eval_opcode_vfExec [OF o(5)] fr assms(2) o(3) by (auto simp: frame_ok_def eval_inv_def)
  qed
  then show ?thesis using fr st1(2) o(6) by (simp add: frame_ok_def eval_inv_def elems_ok_def)
qed

lemma eval_loop_Inr_iff:
  "eval_loop env pc st = Inr st' \<longleftrightarrow>
     (if pc = [] then st' = st else \<exists>pc1 st1. eval_step env pc st = Inr (pc1, st1) \<and> eval_loop env pc1 st1 = Inr st')"
  by (subst eval_loop.simps) (auto split: sum.splits)

lemma eval_loop_inv: "eval_loop env pc st = Inr st' \<Longrightarrow> eval_inv st \<Longrightarrow> eval_inv st'"
proof (induction env pc st rule: eval_loop.induct)
  case (1 env pc st)
  from 1(2) show ?case
  proof (cases "pc = []")
    case True
    then show ?thesis using 1(2,3) eval_loop_Inr_iff [of env pc st st'] by simp
  next
    case False
    then obtain pc1 st1 where "eval_step env pc st = Inr (pc1, st1)" "eval_loop env pc1 st1 = Inr st'"
      using 1(2) eval_loop_Inr_iff [of env pc st st'] by auto
    then show ?thesis using 1(1) [OF False, of "(pc1, st1)" pc1 st1] eval_step_inv 1(3) by blast
  qed
qed

lemma EvalScript_inv:
  assumes "EvalScript env stack script = Inr stack'" "list_all small stack" "length stack \<le> 1000"
  shows "list_all small stack' \<and> length stack' \<le> 1000"
proof -
  obtain st where st: "eval_loop env script \<lparr>es_stack = stack, es_altstack = [], es_vfExec = [], es_nOpCount = 0, es_pbegincodehash = script\<rparr> = Inr st"
    "es_stack st = stack'"
    using assms(1) by (auto simp: EvalScript_def bindE_eq_Inr split: if_splits)
  have "eval_inv st"
    by (rule eval_loop_inv [OF st(1)]) (use assms in \<open>simp add: eval_inv_def elems_ok_def MAX_OPS_PER_SCRIPT_def\<close>)
  then show ?thesis using st(2) by (auto simp: eval_inv_def elems_ok_def)
qed

subsection \<open>The instructions of an evaluated script\<close>

text \<open>The instructions of a script, or \<open>None\<close> when one of them is cut off, and the nesting of its conditionals: \<open>None\<close> when an
  \<open>OP_ELSE\<close> or \<open>OP_ENDIF\<close> has no conditional to belong to.\<close>

function script_ops :: "bytes \<Rightarrow> (nat \<times> valtype) list option" where
  "script_ops pc = (if pc = [] then Some [] else case GetOp pc of None \<Rightarrow> None
     | Some (opcode, vch, pc') \<Rightarrow> map_option ((#) (opcode, vch)) (script_ops pc'))"
  by pat_completeness auto
termination
  by (relation "measure length") (auto dest: GetOp_shorter)

declare script_ops.simps [simp del]

definition nest_step :: "nat \<Rightarrow> nat \<Rightarrow> nat option" where
  "nest_step opcode d =
     (if opcode = OP_IF \<or> opcode = OP_NOTIF then Some (Suc d)
      else if opcode = OP_ELSE then if d = 0 then None else Some d
      else if opcode = OP_ENDIF then if d = 0 then None else Some (d - 1)
      else Some d)"

fun nesting :: "nat list \<Rightarrow> nat \<Rightarrow> nat option" where
  "nesting [] d = Some d"
| "nesting (opcode # ops) d = Option.bind (nest_step opcode d) (nesting ops)"

lemma nest_control:
  "op_if opcode fExec st = Inr st' \<Longrightarrow> length (es_vfExec st') = Suc (length (es_vfExec st))"
  "op_else st = Inr st' \<Longrightarrow> es_vfExec st \<noteq> [] \<and> length (es_vfExec st') = length (es_vfExec st)"
  "op_endif st = Inr st' \<Longrightarrow> es_vfExec st \<noteq> [] \<and> length (es_vfExec st') = length (es_vfExec st) - 1"
  by (auto simp: op_if_def op_else_def op_endif_def Let_def split: if_splits list.splits)

named_theorems op_exec

lemma vfExec_ops [op_exec]:
  "op_push_number opcode st = Inr st' \<Longrightarrow> es_vfExec st' = es_vfExec st"
  "op_upgradable_nop env st = Inr st' \<Longrightarrow> es_vfExec st' = es_vfExec st"
  "op_checklocktimeverify env st = Inr st' \<Longrightarrow> es_vfExec st' = es_vfExec st"
  "op_checksequenceverify env st = Inr st' \<Longrightarrow> es_vfExec st' = es_vfExec st"
  "op_verify st = Inr st' \<Longrightarrow> es_vfExec st' = es_vfExec st"
  "op_toaltstack st = Inr st' \<Longrightarrow> es_vfExec st' = es_vfExec st"
  "op_fromaltstack st = Inr st' \<Longrightarrow> es_vfExec st' = es_vfExec st"
  "on_stack f st = Inr st' \<Longrightarrow> es_vfExec st' = es_vfExec st"
  "op_pick_roll env opcode st = Inr st' \<Longrightarrow> es_vfExec st' = es_vfExec st"
  by (auto simp: op_push_number_def op_upgradable_nop_def op_checklocktimeverify_def op_checksequenceverify_def op_verify_def
      op_toaltstack_def op_fromaltstack_def on_stack_def op_pick_roll_def bindE_eq_Inr Let_def split: if_splits list.splits)

lemma vfExec_data [op_exec]:
  "op_equal opcode st = Inr st' \<Longrightarrow> es_vfExec st' = es_vfExec st"
  "op_unary env opcode st = Inr st' \<Longrightarrow> es_vfExec st' = es_vfExec st"
  "op_binary env opcode st = Inr st' \<Longrightarrow> es_vfExec st' = es_vfExec st"
  "op_within env st = Inr st' \<Longrightarrow> es_vfExec st' = es_vfExec st"
  "op_hash_item opcode st = Inr st' \<Longrightarrow> es_vfExec st' = es_vfExec st"
  "op_checksig env opcode st = Inr st' \<Longrightarrow> es_vfExec st' = es_vfExec st"
  "op_checkmultisig env opcode st = Inr st' \<Longrightarrow> es_vfExec st' = es_vfExec st"
  by (auto simp: op_equal_def op_unary_def op_binary_def op_within_def op_hash_item_def op_checksig_def op_checkmultisig_def
      bindE_eq_Inr Let_def split: if_splits list.splits)

lemma vfExec_Inr [op_exec]:
  "Inr st = (Inr st' :: eval_result) \<Longrightarrow> es_vfExec st' = es_vfExec st"
  "Inr (st \<lparr>es_pbegincodehash := pc\<rparr>) = (Inr st' :: eval_result) \<Longrightarrow> es_vfExec st' = es_vfExec st"
  "Inl e = (Inr st' :: eval_result) \<Longrightarrow> es_vfExec st' = es_vfExec st"
  by auto

lemma vfExec_exec:
  "exec_opcode env pc opcode fExec st = Inr st' \<Longrightarrow> opcode \<notin> {OP_IF, OP_NOTIF, OP_ELSE, OP_ENDIF} \<Longrightarrow> es_vfExec st' = es_vfExec st"
  unfolding exec_opcode_def by (elim if_InrE; (erule op_exec | simp))

lemma nest_eval_opcode:
  assumes "eval_opcode env pc opcode vch st = Inr st'"
  shows "nest_step opcode (length (es_vfExec st)) = Some (length (es_vfExec st'))"
proof (cases "opcode \<in> {OP_IF, OP_NOTIF, OP_ELSE, OP_ENDIF}")
  case True
  then have "exec_opcode env pc opcode (\<not> False \<in> set (es_vfExec st)) st = Inr st'"
    using assms by (auto simp: eval_opcode_def Let_def)
  then show ?thesis using True nest_control(1) [of opcode "\<not> False \<in> set (es_vfExec st)" st st'] nest_control(2,3) [of st st']
    by (auto simp: exec_opcode_def nest_step_def)
next
  case False
  then have "es_vfExec st' = es_vfExec st"
    using assms vfExec_exec [of env pc opcode _ st st'] by (auto simp: eval_opcode_def Let_def split: if_splits)
  then show ?thesis using False by (simp add: nest_step_def)
qed

lemma eval_step_op:
  assumes "eval_step env pc st = Inr (pc', st')" "eval_inv st"
  obtains opcode vch where "GetOp pc = Some (opcode, vch, pc')" "length vch \<le> MAX_SCRIPT_ELEMENT_SIZE" "opcode \<notin> disabled_opcodes"
    "es_nOpCount st + (if opcode > OP_16 then 1 else 0) \<le> es_nOpCount st'"
    "nest_step opcode (length (es_vfExec st)) = Some (length (es_vfExec st'))"
proof -
  from assms(1) obtain opcode vch st1 where o: "GetOp pc = Some (opcode, vch, pc')" "small vch"
    "st1 = (if opcode > OP_16 then st \<lparr>es_nOpCount := es_nOpCount st + 1\<rparr> else st)" "opcode \<notin> disabled_opcodes"
    "eval_opcode env pc' opcode vch st1 = Inr st'"
    by (auto simp: eval_step_def bindE_eq_Inr Let_def split: option.splits if_splits)
  have st1: "elems_ok st1" "es_vfExec st1 = es_vfExec st" using assms(2) o(3) by (auto simp: eval_inv_def elems_ok_def)
  have "frame_ok st1 st'" using frame_eval_opcode [OF o(5) st1(1) o(2)] .
  then have "es_nOpCount st + (if opcode > OP_16 then 1 else 0) \<le> es_nOpCount st'" using o(3) by (auto simp: frame_ok_def)
  then show ?thesis using that o(1,2,4) nest_eval_opcode [OF o(5)] st1(2) by simp
qed

lemma eval_loop_ops:
  "eval_loop env pc st = Inr st' \<Longrightarrow> eval_inv st \<Longrightarrow>
   \<exists>ops. script_ops pc = Some ops \<and> list_all (\<lambda>(opcode, vch). length vch \<le> MAX_SCRIPT_ELEMENT_SIZE \<and> opcode \<notin> disabled_opcodes) ops \<and>
     es_nOpCount st + int (length (filter (\<lambda>(opcode, _). opcode > OP_16) ops)) \<le> es_nOpCount st' \<and>
     nesting (map fst ops) (length (es_vfExec st)) = Some (length (es_vfExec st'))"
proof (induction env pc st rule: eval_loop.induct)
  case (1 env pc st)
  show ?case
  proof (cases "pc = []")
    case True
    then show ?thesis using "1.prems" by (simp add: eval_loop.simps script_ops.simps [of "[]"])
  next
    case False
    then obtain pc1 st1 where s: "eval_step env pc st = Inr (pc1, st1)" "eval_loop env pc1 st1 = Inr st'"
      using "1.prems"(1) eval_loop_Inr_iff [of env pc st st'] by auto
    obtain opcode vch where o: "GetOp pc = Some (opcode, vch, pc1)" "length vch \<le> MAX_SCRIPT_ELEMENT_SIZE" "opcode \<notin> disabled_opcodes"
      "es_nOpCount st + (if opcode > OP_16 then 1 else 0) \<le> es_nOpCount st1"
      "nest_step opcode (length (es_vfExec st)) = Some (length (es_vfExec st1))" by (rule eval_step_op [OF s(1) "1.prems"(2)])
    obtain ops where "script_ops pc1 = Some ops" "list_all (\<lambda>(opcode, vch). length vch \<le> MAX_SCRIPT_ELEMENT_SIZE \<and> opcode \<notin> disabled_opcodes) ops"
      "es_nOpCount st1 + int (length (filter (\<lambda>(opcode, _). opcode > OP_16) ops)) \<le> es_nOpCount st'"
      "nesting (map fst ops) (length (es_vfExec st1)) = Some (length (es_vfExec st'))"
      using "1.IH" [OF False s(1) refl s(2) eval_step_inv [OF s(1) "1.prems"(2)]] by blast
    then show ?thesis using False o by (intro exI [of _ "(opcode, vch) # ops"]) (auto simp: script_ops.simps [of pc])
  qed
qed

lemma EvalScript_ops:
  assumes "EvalScript env stack script = Inr stack'" "list_all small stack" "length stack \<le> 1000"
  shows "\<exists>ops. script_ops script = Some ops \<and>
    list_all (\<lambda>(opcode, vch). length vch \<le> MAX_SCRIPT_ELEMENT_SIZE \<and> opcode \<notin> disabled_opcodes) ops \<and>
    int (length (filter (\<lambda>(opcode, _). opcode > OP_16) ops)) \<le> MAX_OPS_PER_SCRIPT \<and> nesting (map fst ops) 0 = Some 0"
proof -
  let ?s = "\<lparr>es_stack = stack, es_altstack = [], es_vfExec = [], es_nOpCount = 0, es_pbegincodehash = script\<rparr>"
  obtain st where st: "eval_loop env script ?s = Inr st" "es_vfExec st = []"
    using assms(1) by (auto simp: EvalScript_def bindE_eq_Inr split: if_splits)
  have inv: "eval_inv ?s" using assms(2,3) by (simp add: eval_inv_def elems_ok_def MAX_OPS_PER_SCRIPT_def)
  then have "es_nOpCount st \<le> MAX_OPS_PER_SCRIPT" using eval_loop_inv [OF st(1)] by (simp add: eval_inv_def)
  then show ?thesis using eval_loop_ops [OF st(1) inv] st(2) by force
qed

subsection \<open>The number of instructions\<close>

text \<open>The loop cut off after \<open>n\<close> instructions; \<open>None\<close> when it would go on.\<close>

fun eval_bounded :: "nat \<Rightarrow> eval_env \<Rightarrow> bytes \<Rightarrow> eval_state \<Rightarrow> eval_result option" where
  "eval_bounded n env [] st = Some (Inr st)"
| "eval_bounded 0 env (b # pc) st = None"
| "eval_bounded (Suc n) env (b # pc) st = (case eval_step env (b # pc) st of
     Inl e \<Rightarrow> Some (Inl e) | Inr (pc', st') \<Rightarrow> eval_bounded n env pc' st')"

lemma eval_bounded_loop: "length pc \<le> n \<Longrightarrow> eval_bounded n env pc st = Some (eval_loop env pc st)"
proof (induction n env pc st rule: eval_bounded.induct)
  case (1 n env st)
  then show ?case by (simp add: eval_loop.simps)
next
  case (3 n env b pc st)
  show ?case
  proof (cases "eval_step env (b # pc) st")
    case (Inl e)
    then show ?thesis by (subst eval_loop.simps) simp
  next
    case (Inr r)
    then obtain pc' st' where r: "eval_step env (b # pc) st = Inr (pc', st')" by (cases r) simp
    then show ?thesis using 3 eval_step_shorter [OF r] by (subst eval_loop.simps) simp
  qed
qed simp

subsection \<open>Unspendable scripts\<close>

lemma EvalScript_OP_RETURN:
  assumes "unat b = OP_RETURN"
  shows "\<exists>e. EvalScript env stack (b # s) = Inl e"
proof -
  have "GetOp (b # s) = Some (OP_RETURN, [], s)"
    using assms by (simp add: GetOp_def GetOp2_def Let_def)
  then have "eval_step env (b # s) \<lparr>es_stack = stack, es_altstack = [], es_vfExec = [], es_nOpCount = 0, es_pbegincodehash = b # s\<rparr>
      = Inl SCRIPT_ERR_OP_RETURN"
    by (simp add: eval_step_def eval_opcode_def exec_opcode_def disabled_opcodes_def MAX_OPS_PER_SCRIPT_def)
  then show ?thesis by (simp add: EvalScript_def eval_loop.simps)
qed

lemma EvalScript_unspendable: "IsUnspendable s \<Longrightarrow> \<exists>e. EvalScript env stack s = Inl e"
proof (cases "length s > MAX_SCRIPT_SIZE")
  case False
  assume "IsUnspendable s"
  then obtain b s' where "s = b # s'" "unat b = OP_RETURN" using False by (cases s) (auto simp: IsUnspendable_def)
  then show ?thesis using EvalScript_OP_RETURN by blast
qed (simp add: EvalScript_def)

subsection \<open>Multiple signatures\<close>

definition sig_matches :: "eval_env \<Rightarrow> CScript \<Rightarrow> valtype list \<Rightarrow> valtype list \<Rightarrow> bool" where
  "sig_matches env code sigs keys \<longleftrightarrow>
     (\<exists>ks. subseq ks keys \<and> list_all2 (\<lambda>s k. CheckSig (checker env) s k code) sigs ks)"

lemma sig_matches_Nil: "sig_matches env code [] keys"
  by (auto simp: sig_matches_def)

lemma sig_matches_length: "sig_matches env code sigs keys \<Longrightarrow> length sigs \<le> length keys"
  by (auto simp: sig_matches_def dest!: list_all2_lengthD list_emb_length)

lemma sig_matches_Cons_hit:
  assumes "CheckSig (checker env) s k code"
  shows "sig_matches env code (s # sigs) (k # keys) \<longleftrightarrow> sig_matches env code sigs keys"
proof
  assume "sig_matches env code (s # sigs) (k # keys)"
  then obtain k1 ks where ks: "subseq (k1 # ks) (k # keys)" "list_all2 (\<lambda>s k. CheckSig (checker env) s k code) sigs ks"
    by (auto simp: sig_matches_def list_all2_Cons1)
  then have "subseq ks keys" by (metis subseq_Cons' subseq_Cons2_iff)
  with ks(2) show "sig_matches env code sigs keys" by (auto simp: sig_matches_def)
next
  assume "sig_matches env code sigs keys"
  then obtain ks where "subseq ks keys" "list_all2 (\<lambda>s k. CheckSig (checker env) s k code) sigs ks"
    by (auto simp: sig_matches_def)
  then show "sig_matches env code (s # sigs) (k # keys)"
    using assms by (auto simp: sig_matches_def intro!: exI [of _ "k # ks"])
qed

lemma sig_matches_Cons_miss:
  assumes "\<not> CheckSig (checker env) s k code"
  shows "sig_matches env code (s # sigs) (k # keys) \<longleftrightarrow> sig_matches env code (s # sigs) keys"
proof
  assume "sig_matches env code (s # sigs) (k # keys)"
  then obtain k1 ks where ks: "subseq (k1 # ks) (k # keys)" "CheckSig (checker env) s k1 code"
      "list_all2 (\<lambda>s k. CheckSig (checker env) s k code) sigs ks"
    by (auto simp: sig_matches_def list_all2_Cons1)
  then have "subseq (k1 # ks) keys" using assms by (auto simp: subseq_Cons2_iff split: if_splits)
  with ks(2,3) show "sig_matches env code (s # sigs) keys"
    by (auto simp: sig_matches_def intro!: exI [of _ "k1 # ks"])
next
  assume "sig_matches env code (s # sigs) keys"
  then show "sig_matches env code (s # sigs) (k # keys)"
    by (auto simp: sig_matches_def intro: list_emb_Cons)
qed

lemma multisig_loop_matches:
  assumes "list_all (\<lambda>s. CheckSignatureEncoding env s = Inr ()) sigs"
    "list_all (\<lambda>k. CheckPubKeyEncoding env k = Inr ()) keys"
  shows "multisig_loop env code sigs keys = Inr (sig_matches env code sigs keys)"
  using assms
proof (induction env code sigs keys rule: multisig_loop.induct)
  case (1 env code keys)
  then show ?case by (simp add: sig_matches_Nil)
next
  case (2 env code s sigs)
  then show ?case using sig_matches_length [of env code "s # sigs" "[]"] by auto
next
  case (3 env code s sigs k keys)
  show ?case
  proof (cases "CheckSig (checker env) s k code")
    case True
    then show ?thesis using 3 sig_matches_length [of env code sigs keys]
      by (auto simp: Let_def sig_matches_Cons_hit)
  next
    case False
    then show ?thesis using 3 sig_matches_length [of env code "s # sigs" keys]
      by (auto simp: Let_def sig_matches_Cons_miss)
  qed
qed

subsection \<open>Strict DER\<close>

text \<open>The content of a DER integer that is not negative and has no superfluous zero byte.\<close>

definition der_int :: "bytes \<Rightarrow> bool" where
  "der_int R \<longleftrightarrow> R \<noteq> [] \<and> unat (R ! 0) < 128 \<and> (1 < length R \<and> R ! 0 = 0 \<longrightarrow> 128 \<le> unat (R ! 1))"

definition der_signature :: "bytes \<Rightarrow> bytes \<Rightarrow> u8 \<Rightarrow> bytes" where
  "der_signature R S hashtype =
     [0x30, of_nat (length R + length S + 4), 0x02, of_nat (length R)] @ R @ [0x02, of_nat (length S)] @ S @ [hashtype]"

lemma and80_iff: "((x :: u8) AND 0x80 \<noteq> 0) \<longleftrightarrow> 128 \<le> unat x"
  using and_0x80 [of x] by auto

lemma IsValidSignatureEncoding_iff:
  "IsValidSignatureEncoding sig \<longleftrightarrow> (let lenR = unat (sig ! 3); lenS = unat (sig ! (5 + lenR)) in
     9 \<le> length sig \<and> length sig \<le> 73 \<and> sig ! 0 = 0x30 \<and> unat (sig ! 1) = length sig - 3 \<and> 5 + lenR < length sig \<and>
     lenR + lenS + 7 = length sig \<and> sig ! 2 = 0x02 \<and> sig ! (lenR + 4) = 0x02 \<and>
     lenR \<noteq> 0 \<and> unat (sig ! 4) < 128 \<and> (1 < lenR \<and> sig ! 4 = 0 \<longrightarrow> 128 \<le> unat (sig ! 5)) \<and>
     lenS \<noteq> 0 \<and> unat (sig ! (lenR + 6)) < 128 \<and> (1 < lenS \<and> sig ! (lenR + 6) = 0 \<longrightarrow> 128 \<le> unat (sig ! (lenR + 7))))"
  unfolding IsValidSignatureEncoding_def Let_def and80_iff by (auto simp: not_le not_less)

lemma der_signature_valid:
  assumes "der_int R" "der_int S" "length R + length S \<le> 66"
  shows "IsValidSignatureEncoding (der_signature R S h)"
proof -
  let ?sig = "der_signature R S h"
  have len: "length ?sig = length R + length S + 7" by (simp add: der_signature_def)
  have R: "unat (?sig ! 3) = length R"
    using assms(3) by (simp add: der_signature_def unat_of_nat)
  have S: "unat (?sig ! (5 + length R)) = length S"
    using assms(3) by (simp add: der_signature_def nth_append unat_of_nat)
  have u: "unat (of_nat n :: u8) = n" if "n < 256" for n using that by (simp add: unat_of_nat)
  have f1: "unat (?sig ! 1) = length ?sig - 3"
    using assms(3) u [of "length R + length S + 4"] by (simp add: der_signature_def del: of_nat_add of_nat_Suc)
  have f: "?sig ! 0 = 0x30" "?sig ! 2 = 0x02" "?sig ! (length R + 4) = 0x02"
    "?sig ! (length R + 6) = S ! 0" "1 < length S \<Longrightarrow> ?sig ! (length R + 7) = S ! 1"
    "?sig ! 4 = R ! 0" "1 < length R \<Longrightarrow> ?sig ! 5 = R ! 1"
    using assms by (simp_all add: der_signature_def der_int_def nth_append unat_of_nat)
  have g: "unat (?sig ! Suc 0) = length R + length S + 4" using f1 len by simp
  have "0 < length R" "0 < length S" using assms by (auto simp: der_int_def)
  then have "2 \<le> length R + length S" by linarith
  then show ?thesis
    using assms by (auto simp: IsValidSignatureEncoding_iff R S Let_def len f g der_int_def)
qed

lemma valid_der_signature:
  assumes "IsValidSignatureEncoding sig"
  shows "\<exists>R S h. sig = der_signature R S h \<and> der_int R \<and> der_int S \<and> length R + length S \<le> 66"
proof -
  define lenR lenS where "lenR = unat (sig ! 3)" and "lenS = unat (sig ! (5 + lenR))"
  note v = assms [unfolded IsValidSignatureEncoding_iff Let_def, folded lenR_def, folded lenS_def]
  define R S where "R = take lenR (drop 4 sig)" and "S = take lenS (drop (6 + lenR) sig)"
  have len: "length R = lenR" "length S = lenS" using v by (auto simp: R_def S_def)
  have n: "R ! i = sig ! (4 + i)" if "i < lenR" for i using that v by (simp add: R_def)
  have m: "S ! i = sig ! (lenR + 6 + i)" if "i < lenS" for i using that v by (simp add: S_def add.commute add.left_commute)
  have "sig = der_signature R S (last sig)"
  proof (rule nth_equalityI)
    show "length sig = length (der_signature R S (last sig))" using v len by (simp add: der_signature_def)
    fix i assume i: "i < length sig"
    have "sig \<noteq> []" "length sig - 1 = lenR + lenS + 6" using v by auto
    then have l: "last sig = sig ! (lenR + lenS + 6)" by (simp add: last_conv_nth)
    have b: "of_nat lenR = sig ! 3" "of_nat lenS = sig ! (5 + lenR)" "of_nat (lenR + lenS + 4) = sig ! 1"
    proof -
      show "of_nat lenR = sig ! 3" "of_nat lenS = sig ! (5 + lenR)" by (simp_all add: lenR_def lenS_def)
      have "lenR + lenS + 4 = unat (sig ! 1)" using v by auto
      then show "of_nat (lenR + lenS + 4) = sig ! 1" by (simp only:) simp
    qed
    define A B where "A = [0x30, of_nat (lenR + lenS + 4) :: u8, 0x02, of_nat lenR]" and "B = [0x02, of_nat lenS :: u8]"
    have AB: "A = [sig ! 0, sig ! 1, sig ! 2, sig ! 3]" "B = [sig ! (4 + lenR), sig ! (5 + lenR)]"
      unfolding A_def B_def b using v by (simp_all add: add.commute)
    have d: "der_signature R S (last sig) = A @ R @ B @ S @ [last sig]" by (simp add: der_signature_def A_def B_def len)
    have lens: "length A = 4" "length B = 2" by (simp_all add: A_def B_def)
    consider (head) "i < 4" | (R) "4 \<le> i" "i < 4 + lenR" | (mid) "4 + lenR \<le> i" "i < 6 + lenR"
      | (S) "6 + lenR \<le> i" "i < 6 + lenR + lenS" | (last) "i = 6 + lenR + lenS"
      using i v by linarith
    then show "sig ! i = der_signature R S (last sig) ! i"
    proof cases
      case head
      then have "i = 0 \<or> i = 1 \<or> i = 2 \<or> i = 3" by arith
      then show ?thesis by (auto simp: d nth_append lens) (simp_all add: AB)
    next
      case R
      then have "i - 4 < lenR" by arith
      then show ?thesis using R n [of "i - 4"] by (simp add: d nth_append lens len)
    next
      case mid
      then have "i = 4 + lenR \<or> i = 5 + lenR" by arith
      then show ?thesis by (auto simp: d nth_append lens len) (simp_all add: AB)
    next
      case S
      then have "i - (6 + lenR) < lenS" "\<not> i < 4" "\<not> i - 4 < lenR" "\<not> i - (4 + lenR) < 2" "i - (4 + lenR) - 2 = i - (6 + lenR)" by arith+
      then show ?thesis using S m [of "i - (6 + lenR)"] by (simp add: d nth_append lens len)
    next
      case last
      have "(A @ R @ B @ S @ [last sig]) ! (6 + lenR + lenS) = last sig" by (simp add: nth_append lens len)
      moreover have "sig ! (6 + lenR + lenS) = last sig" unfolding l by (simp add: ac_simps)
      ultimately show ?thesis unfolding d last by simp
    qed
  qed
  moreover have "der_int R" "der_int S"
    using v n [of 0] n [of 1] m [of 0] m [of 1] len by (auto simp: der_int_def add.commute [of 7])
  ultimately show ?thesis using v len by fastforce
qed

subsection \<open>Running instructions\<close>

lemma eval_loop_Nil [simp]: "eval_loop env [] st = Inr st"
  by (simp add: eval_loop.simps)

lemma CheckMinimalPush_push_op: "2 \<le> length b \<Longrightarrow> CheckMinimalPush b (push_op b)"
  by (auto simp: CheckMinimalPush_def push_op_def)

definition running :: "eval_state \<Rightarrow> bool" where
  "running st \<longleftrightarrow> False \<notin> set (es_vfExec st)"

lemma eval_loop_push:
  assumes "small b" "2 \<le> length b" "running st"
  shows "eval_loop env (push_data b @ rest) st =
     (if length (es_stack st) + length (es_altstack st) \<ge> 1000 then Inl SCRIPT_ERR_STACK_SIZE
      else eval_loop env rest (st \<lparr>es_stack := b # es_stack st\<rparr>))"
proof -
  have "GetOp (push_data b @ rest) = Some (push_op b, b, rest)"
    using assms(1) by (intro GetOp_push_data) (simp add: MAX_SCRIPT_ELEMENT_SIZE_def)
  moreover have "push_op b \<le> 0x4e" by (rule push_op_le)
  moreover from this have "push_op b \<notin> disabled_opcodes" by (auto simp: disabled_opcodes_def)
  ultimately show ?thesis
    using assms CheckMinimalPush_push_op [OF assms(2)]
    by (subst eval_loop.simps) (simp add: eval_step_def eval_opcode_def running_def Let_def)
qed

lemma eval_loop_op:
  assumes "OP_16 < opcode" "opcode < 256" "opcode \<notin> disabled_opcodes" "running st" "es_nOpCount st < MAX_OPS_PER_SCRIPT"
  shows "eval_loop env (of_nat opcode # rest) st =
     bindE (exec_opcode env rest opcode True (st \<lparr>es_nOpCount := es_nOpCount st + 1\<rparr>)) (\<lambda>st'.
       if length (es_stack st') + length (es_altstack st') > 1000 then Inl SCRIPT_ERR_STACK_SIZE else eval_loop env rest st')"
proof -
  have "GetOp (of_nat opcode # rest) = Some (opcode, [], rest)"
    using assms(1,2) by (intro GetOp_opcode) simp_all
  then show ?thesis
    using assms
    by (subst eval_loop.simps)
      (simp add: eval_step_def eval_opcode_def running_def Let_def MAX_SCRIPT_ELEMENT_SIZE_def bindE_def split: sum.splits)
qed

subsection \<open>Standard output scripts\<close>

definition p2sh_script :: "bytes \<Rightarrow> CScript" where
  "p2sh_script h = [of_nat OP_HASH160, 0x14] @ h @ [of_nat OP_EQUAL]"

definition p2pkh_script :: "bytes \<Rightarrow> CScript" where
  "p2pkh_script h = [of_nat OP_DUP, of_nat OP_HASH160, 0x14] @ h @ [of_nat OP_EQUALVERIFY, of_nat OP_CHECKSIG]"

lemma push_data_20: "length h = 20 \<Longrightarrow> 0x14 # h = push_data h"
  by (simp add: push_data_def)

lemma p2sh_push: "length h = 20 \<Longrightarrow> p2sh_script h = of_nat OP_HASH160 # push_data h @ [of_nat OP_EQUAL]"
  by (simp add: p2sh_script_def push_data_20 [symmetric])

lemma p2pkh_push:
  "length h = 20 \<Longrightarrow> p2pkh_script h = of_nat OP_DUP # of_nat OP_HASH160 # push_data h @ [of_nat OP_EQUALVERIFY, of_nat OP_CHECKSIG]"
  by (simp add: p2pkh_script_def push_data_20 [symmetric])

lemma IsPayToScriptHash_iff: "IsPayToScriptHash s \<longleftrightarrow> (\<exists>h. length h = 20 \<and> s = p2sh_script h)"
proof
  assume a: "IsPayToScriptHash s"
  then have len: "length s = 23" by (simp add: IsPayToScriptHash_def)
  obtain a b r where r: "s = a # b # r" using len by (cases s; cases "tl s") auto
  then have "length r = 21" using len by simp
  then obtain h z where h: "r = h @ [z]" "length h = 20" by (cases r rule: rev_cases) auto
  then have "s = p2sh_script h"
    using a r by (simp add: IsPayToScriptHash_def p2sh_script_def nth_append word_unat_eq_iff)
  then show "\<exists>h. length h = 20 \<and> s = p2sh_script h" using h(2) by blast
next
  assume "\<exists>h. length h = 20 \<and> s = p2sh_script h"
  then show "IsPayToScriptHash s" by (auto simp: IsPayToScriptHash_def p2sh_script_def nth_append)
qed

lemma CastToBool_bool [simp]: "CastToBool (bool_vch b) = b"
  by (simp add: vchTrue_def vchFalse_def)

lemma exec_ops:
  "exec_opcode env pc 0x76 f st = on_stack (stack_op2 0x76) st"
  "exec_opcode env pc 0xa9 f st = op_hash_item 0xa9 st"
  "exec_opcode env pc 0x87 f st = op_equal 0x87 st"
  "exec_opcode env pc 0x88 f st = op_equal 0x88 st"
  "exec_opcode env pc 0xac f st = op_checksig env 0xac st"
  by (simp_all add: exec_opcode_def)

lemma hash_vch_160: "hash_vch 0xa9 x = Hash160 x"
  by (simp add: hash_vch_def Hash160_def)

abbreviation start :: "valtype list \<Rightarrow> CScript \<Rightarrow> eval_state" where
  "start stack script \<equiv> \<lparr>es_stack = stack, es_altstack = [], es_vfExec = [], es_nOpCount = 0, es_pbegincodehash = script\<rparr>"

definition then_loop :: "eval_env \<Rightarrow> bytes \<Rightarrow> eval_result \<Rightarrow> eval_result" where
  "then_loop env rest r = bindE r (\<lambda>st.
     if length (es_stack st) + length (es_altstack st) > 1000 then Inl SCRIPT_ERR_STACK_SIZE else eval_loop env rest st)"

lemma then_loop_simps [simp]:
  "then_loop env rest (Inl e) = Inl e"
  "then_loop env rest (Inr st) =
     (if length (es_stack st) + length (es_altstack st) > 1000 then Inl SCRIPT_ERR_STACK_SIZE else eval_loop env rest st)"
  by (simp_all add: then_loop_def)

lemma run_ops:
  assumes "running st" "es_nOpCount st < MAX_OPS_PER_SCRIPT"
  shows
  "eval_loop env (0x76 # rest) st = then_loop env rest (on_stack (stack_op2 0x76) (st \<lparr>es_nOpCount := es_nOpCount st + 1\<rparr>))"
  "eval_loop env (0xa9 # rest) st = then_loop env rest (op_hash_item 0xa9 (st \<lparr>es_nOpCount := es_nOpCount st + 1\<rparr>))"
  "eval_loop env (0x87 # rest) st = then_loop env rest (op_equal 0x87 (st \<lparr>es_nOpCount := es_nOpCount st + 1\<rparr>))"
  "eval_loop env (0x88 # rest) st = then_loop env rest (op_equal 0x88 (st \<lparr>es_nOpCount := es_nOpCount st + 1\<rparr>))"
  "eval_loop env (0xac # rest) st = then_loop env rest (op_checksig env 0xac (st \<lparr>es_nOpCount := es_nOpCount st + 1\<rparr>))"
  using eval_loop_op [of "0x76" st env rest] eval_loop_op [of "0xa9" st env rest] eval_loop_op [of "0x87" st env rest]
    eval_loop_op [of "0x88" st env rest] eval_loop_op [of "0xac" st env rest] assms
  by (simp_all add: exec_ops then_loop_def disabled_opcodes_def)

lemmas run_simps = run_ops eval_loop_push running_def MAX_OPS_PER_SCRIPT_def MAX_SCRIPT_ELEMENT_SIZE_def
  op_hash_item_def hash_vch_160 op_equal_def on_stack_def stack_op2_def

lemma EvalScript_p2sh:
  assumes "length h = 20"
  shows "EvalScript env stack (p2sh_script h) = (case stack of [] \<Rightarrow> bad_stack
    | x # s \<Rightarrow> if length s \<ge> 999 then Inl SCRIPT_ERR_STACK_SIZE else Inr (bool_vch (Hash160 x = h) # s))"
proof -
  have size: "\<not> length (p2sh_script h) > MAX_SCRIPT_SIZE"
    using assms by (simp add: p2sh_script_def MAX_SCRIPT_SIZE_def)
  have "eval_loop env (0xa9 # push_data h @ [0x87]) (start stack code) = (case stack of [] \<Rightarrow> bad_stack
      | x # s \<Rightarrow> if length s \<ge> 999 then Inl SCRIPT_ERR_STACK_SIZE
          else Inr (start (bool_vch (Hash160 x = h) # s) code \<lparr>es_nOpCount := 2\<rparr>))" for code
    using assms by (cases stack) (simp_all add: run_simps)
  then show ?thesis using size by (simp add: EvalScript_def p2sh_push [OF assms] split: list.splits)
qed

lemma EvalScript_p2pkh:
  assumes "length h = 20"
  shows "EvalScript env [pk, sig] (p2pkh_script h) = (if Hash160 pk \<noteq> h then Inl SCRIPT_ERR_EQUALVERIFY else
    bindE (op_checksig env OP_CHECKSIG (start [pk, sig] (p2pkh_script h))) (\<lambda>st. Inr (es_stack st)))"
proof -
  have size: "\<not> length (p2pkh_script h) > MAX_SCRIPT_SIZE"
    using assms by (simp add: p2pkh_script_def MAX_SCRIPT_SIZE_def)
  have "eval_loop env (0x76 # 0xa9 # push_data h @ [0x88, 0xac]) (start [pk, sig] code) = (if Hash160 pk \<noteq> h then Inl SCRIPT_ERR_EQUALVERIFY else
     then_loop env [] (op_checksig env OP_CHECKSIG (start [pk, sig] code \<lparr>es_nOpCount := 4\<rparr>)))" for code
    using assms by (simp add: run_simps)
  moreover have "bindE (then_loop env [] (op_checksig env OP_CHECKSIG (start [pk, sig] code \<lparr>es_nOpCount := 4\<rparr>)))
      (\<lambda>st. if es_vfExec st \<noteq> [] then Inl SCRIPT_ERR_UNBALANCED_CONDITIONAL else Inr (es_stack st)) =
    bindE (op_checksig env OP_CHECKSIG (start [pk, sig] code)) (\<lambda>st. Inr (es_stack st))" for code
    by (auto simp: op_checksig_def bindE_def Let_def split: sum.splits)
  ultimately show ?thesis using size by (simp add: EvalScript_def p2pkh_push [OF assms])
qed

subsection \<open>Verification\<close>

lemma eval_for_verify_Inr: "eval_for_verify env s c = Inr r \<longleftrightarrow> EvalScript env s c = Inr r"
  by (auto simp: eval_for_verify_def split: sum.splits)

lemma eval_for_verify_no_assert: "eval_for_verify env s c \<noteq> Inl Verify_assert"
  by (auto simp: eval_for_verify_def split: sum.splits)

lemma top_is_true_iff: "top_is_true s = Inr u \<longleftrightarrow> (\<exists>x r. s = x # r \<and> CastToBool x)"
  by (cases s) (simp_all add: top_is_true_def)

lemma top_is_true_no_assert: "top_is_true s \<noteq> Inl Verify_assert"
  by (simp add: top_is_true_def split: list.splits)

lemma verify_p2sh_Inr:
  "verify_p2sh env sig stackCopy = Inr s \<longleftrightarrow> IsPushOnly sig \<and>
     (\<exists>redeem st. stackCopy = redeem # st \<and> EvalScript env st redeem = Inr s \<and> (\<exists>x r. s = x # r \<and> CastToBool x))"
  by (auto simp: verify_p2sh_def bindE_eq_Inr eval_for_verify_Inr top_is_true_iff split: list.splits)

lemma VerifyScript_p2sh:
  assumes "flagged env SCRIPT_VERIFY_P2SH" "length h = 20"
  shows "VerifyScript env sig (p2sh_script h) = Inr () \<longleftrightarrow> IsPushOnly sig \<and>
    (\<exists>redeem st top rest. EvalScript env [] sig = Inr (redeem # st) \<and> length st < 999 \<and> Hash160 redeem = h \<and>
       EvalScript env st redeem = Inr (top # rest) \<and> CastToBool top \<and> (flagged env SCRIPT_VERIFY_CLEANSTACK \<longrightarrow> rest = []))"
proof -
  have p: "IsPayToScriptHash (p2sh_script h)" using assms(2) IsPayToScriptHash_iff by blast
  have e: "eval_for_verify env s c = (case EvalScript env s c of Inl e \<Rightarrow> Inl (Script_error e) | Inr r \<Rightarrow> Inr r)" for s c
    by (simp add: eval_for_verify_def)
  consider er where "EvalScript env [] sig = Inl er" | "EvalScript env [] sig = Inr []"
    | redeem st where "EvalScript env [] sig = Inr (redeem # st)"
    by (metis list.exhaust sum.exhaust)
  then show ?thesis
  proof cases
    case 3
    consider er where "EvalScript env st redeem = Inl er" | "EvalScript env st redeem = Inr []"
      | top rest where "EvalScript env st redeem = Inr (top # rest)"
      by (metis list.exhaust sum.exhaust)
    then show ?thesis using 3 assms p
      by cases (auto simp: VerifyScript_def e EvalScript_p2sh verify_p2sh_def top_is_true_def)
  qed (use assms p in \<open>auto simp: VerifyScript_def e EvalScript_p2sh\<close>)
qed

lemma VerifyScript_asserts:
  assumes "flagged env SCRIPT_VERIFY_CLEANSTACK \<Longrightarrow> flagged env SCRIPT_VERIFY_P2SH"
  shows "VerifyScript env sig spk \<noteq> Inl Verify_assert"
proof
  assume a: "VerifyScript env sig spk = Inl Verify_assert"
  then obtain st s where "EvalScript env st spk = Inr s" "IsPayToScriptHash spk" "st = []"
    using assms eval_for_verify_no_assert top_is_true_no_assert
    by (auto simp: VerifyScript_def bindE_eq_Inl eval_for_verify_Inr verify_p2sh_def split: if_splits list.splits)
  then show False using IsPayToScriptHash_iff [of spk] EvalScript_p2sh by fastforce
qed

lemma skip_copies_other: "pc = [] \<or> hd pc \<noteq> hd b \<Longrightarrow> b \<noteq> [] \<Longrightarrow> skip_copies b pc n = (pc, n)"
  by (subst skip_copies.simps) (cases pc; cases b; auto)

lemma hd_push_data: "unat (hd (push_data b)) = push_op b"
  by (auto simp: push_data_def push_op_def unat_of_nat)

lemma FindAndDelete_other_ops:
  assumes "b \<noteq> []" "GetOp pc = Some (op, v, pc')" "hd pc \<noteq> hd b" "pc \<noteq> []"
  shows "FindAndDelete_loop b pc2 pc r n = FindAndDelete_loop b pc pc' (r @ take (length pc2 - length pc) pc2) n"
  using assms skip_copies_other [of pc b n] by (subst FindAndDelete_loop.simps) simp

lemma drop_signature_p2pkh:
  assumes "length h = 20" "length sig \<noteq> 20"
  shows "drop_signature (p2pkh_script h) sig = p2pkh_script h"
proof -
  let ?b = "push_data sig"
  let ?s3 = "push_data h @ [0x88, 0xac]"
  have p: "p2pkh_script h = 0x76 # 0xa9 # ?s3" using p2pkh_push [OF assms(1)] by simp
  have le: "unat (hd ?b) \<le> 0x4e" using push_op_le [of sig] by (simp add: hd_push_data)
  then have ne: "0x76 \<noteq> hd ?b" "0xa9 \<noteq> hd ?b" "0x88 \<noteq> hd ?b" "0xac \<noteq> hd ?b" by auto
  have "unat (hd ?b) \<noteq> unat (hd ?s3)" using assms hd_push_data [of h] hd_push_data [of sig] by (auto simp: push_op_def)
  then have ne3: "hd ?s3 \<noteq> hd ?b" by auto
  have g: "GetOp (0x76 # r) = Some (0x76, [], r)" "GetOp (0xa9 # r) = Some (0xa9, [], r)" "GetOp (0x88 # r) = Some (0x88, [], r)"
    "GetOp (0xac # r) = Some (0xac, [], r)" for r
    using GetOp_opcode [of "0x76" r] GetOp_opcode [of "0xa9" r] GetOp_opcode [of "0x88" r] GetOp_opcode [of "0xac" r] by simp_all
  have g3: "GetOp ?s3 = Some (push_op h, h, [0x88, 0xac])" by (rule GetOp_push_data) (simp add: assms)
  have "snd (FindAndDelete (p2pkh_script h) ?b) = 0"
    using ne ne3 unfolding p FindAndDelete_def
    by (simp add: FindAndDelete_other_ops g g3) (simp add: FindAndDelete_loop.simps skip_copies_other)
  then show ?thesis by (auto simp: drop_signature_def FindAndDelete_def split: prod.splits if_splits)
qed

lemma CheckSig_step:
  "bindE (op_checksig env OP_CHECKSIG (start [pk, sig] code)) (\<lambda>st. Inr (es_stack st)) = Inr [x] \<and> CastToBool x \<longleftrightarrow>
     x = vchTrue \<and> CheckSignatureEncoding env sig = Inr () \<and> CheckPubKeyEncoding env pk = Inr () \<and>
     CheckSig (checker env) sig pk (drop_signature code sig)"
  by (auto simp: op_checksig_def bindE_eq_Inr Let_def vchTrue_def vchFalse_def split: if_splits)

lemma EvalScript_two_pushes:
  assumes "2 \<le> length a" "small a" "2 \<le> length b" "small b"
  shows "EvalScript env [] (push_data a @ push_data b) = Inr [b, a]"
proof -
  have "length (push_data x) \<le> 525" if "small x" for x
    using that by (auto simp: push_data_def MAX_SCRIPT_ELEMENT_SIZE_def WriteLE16_def WriteLE32_def)
  from this [of a] this [of b] have "length (push_data a @ push_data b) \<le> MAX_SCRIPT_SIZE"
    using assms by (simp add: MAX_SCRIPT_SIZE_def)
  moreover have "eval_loop env (push_data a @ push_data b) (start [] code) = Inr (start [b, a] code)" for code
    using assms eval_loop_push [of b _ env "[]"] by (simp add: run_simps)
  ultimately show ?thesis by (simp add: EvalScript_def)
qed

lemma VerifyScript_p2pkh:
  assumes h: "length h = 20" and sig: "2 \<le> length sig" "small sig" "length sig \<noteq> 20" and pk: "2 \<le> length pk" "small pk"
    and cl: "flagged env SCRIPT_VERIFY_CLEANSTACK \<Longrightarrow> flagged env SCRIPT_VERIFY_P2SH"
  shows "VerifyScript env (push_data sig @ push_data pk) (p2pkh_script h) = Inr () \<longleftrightarrow>
    Hash160 pk = h \<and> CheckSignatureEncoding env sig = Inr () \<and> CheckPubKeyEncoding env pk = Inr () \<and>
    CheckSig (checker env) sig pk (p2pkh_script h)"
proof -
  have "IsPushOnly (push_data sig @ push_data pk)"
    using IsPushOnly_pushes [of "[sig, pk]"] sig(2) pk(2) by (simp add: MAX_SCRIPT_ELEMENT_SIZE_def)
  moreover have "\<not> IsPayToScriptHash (p2pkh_script h)" by (simp add: IsPayToScriptHash_def p2pkh_script_def h)
  moreover note EvalScript_two_pushes [OF sig(1,2) pk, of env] EvalScript_p2pkh [OF h, of env pk sig]
    drop_signature_p2pkh [OF h sig(3)]
  ultimately show ?thesis
    using cl by (auto simp: VerifyScript_def bindE_eq_Inr eval_for_verify_Inr top_is_true_iff op_checksig_def Let_def
        vchTrue_def vchFalse_def split: if_splits)
qed

section \<open>Properties\<close>

definition demo_env :: eval_env where
  "demo_env = \<lparr>flags = 1, checker = BaseSignatureChecker \<lparr>CheckSig := (\<lambda>s k c. k \<noteq> [])\<rparr>, CheckLowS = (\<lambda>_. True)\<rparr>"

lemma demo_flags: "flagged demo_env f \<longleftrightarrow> f = SCRIPT_VERIFY_P2SH"
  by (cases f) (simp_all add: demo_env_def has_flag_def)

lemma demo_checks: "CheckSignatureEncoding demo_env s = Inr ()" "CheckPubKeyEncoding demo_env k = Inr ()"
  by (simp_all add: CheckSignatureEncoding_def CheckPubKeyEncoding_def demo_flags)

text \<open>Property C5. \<open>VerifyScript\<close> on a pay-to-public-key-hash output and a \<open>scriptSig\<close> that pushes a signature and a key
  accepts exactly when the key hashes to the output's hash, both encodings pass the enabled checks and the signature
  checker accepts the signature for the output script itself.\<close>

theorem VerifyScript_p2pkh_iff:
  assumes "length h = 20" "2 \<le> length sig" "length sig \<le> 520" "length sig \<noteq> 20" "2 \<le> length pk" "length pk \<le> 520"
    and "flagged env SCRIPT_VERIFY_CLEANSTACK \<Longrightarrow> flagged env SCRIPT_VERIFY_P2SH"
  shows "VerifyScript env (push_data sig @ push_data pk) (p2pkh_script h) = Inr () \<longleftrightarrow>
    Hash160 pk = h \<and> CheckSignatureEncoding env sig = Inr () \<and> CheckPubKeyEncoding env pk = Inr () \<and>
    CheckSig (checker env) sig pk (p2pkh_script h)"
  by (rule VerifyScript_p2pkh) (use assms in \<open>simp_all add: MAX_SCRIPT_ELEMENT_SIZE_def\<close>)

theorem VerifyScript_p2pkh_iff_witness:
  "VerifyScript demo_env (push_data (replicate 70 1) @ push_data (replicate 33 2)) (p2pkh_script (Hash160 (replicate 33 2))) = Inr ()"
  using VerifyScript_p2pkh_iff [of "Hash160 (replicate 33 2)" "replicate 70 1" "replicate 33 2" demo_env]
  by (simp add: length_Hash160 demo_flags demo_checks) (simp add: demo_env_def)

text \<open>Property C6. With P2SH verification, a pay-to-script-hash output is spent exactly by a push-only \<open>scriptSig\<close> whose
  last item hashes to the output's hash and, run as a script on the items below it, succeeds with a true top item, alone
  on the stack when clean stacks are required.\<close>

theorem VerifyScript_p2sh_iff:
  assumes "flagged env SCRIPT_VERIFY_P2SH" "length h = 20"
  shows "VerifyScript env sig (p2sh_script h) = Inr () \<longleftrightarrow> IsPushOnly sig \<and>
    (\<exists>redeem st top rest. EvalScript env [] sig = Inr (redeem # st) \<and> length st < 999 \<and> Hash160 redeem = h \<and>
       EvalScript env st redeem = Inr (top # rest) \<and> CastToBool top \<and> (flagged env SCRIPT_VERIFY_CLEANSTACK \<longrightarrow> rest = []))"
  by (rule VerifyScript_p2sh [OF assms])

theorem VerifyScript_p2sh_iff_witness:
  "VerifyScript demo_env [0x51] (p2sh_script (replicate 20 0)) = Inr () \<longleftrightarrow> IsPushOnly [0x51] \<and>
    (\<exists>redeem st top rest. EvalScript demo_env [] [0x51] = Inr (redeem # st) \<and> length st < 999 \<and> Hash160 redeem = replicate 20 0 \<and>
       EvalScript demo_env st redeem = Inr (top # rest) \<and> CastToBool top \<and> (flagged demo_env SCRIPT_VERIFY_CLEANSTACK \<longrightarrow> rest = []))"
  by (rule VerifyScript_p2sh_iff) (simp_all add: demo_flags)

text \<open>Property C25. The assertions of \<open>VerifyScript\<close> cannot fail when clean stacks are only required together with P2SH:
  the stack is never empty when the redeem script is taken from it.\<close>

theorem VerifyScript_no_assert:
  assumes "flagged env SCRIPT_VERIFY_CLEANSTACK \<Longrightarrow> flagged env SCRIPT_VERIFY_P2SH"
  shows "VerifyScript env sig spk \<noteq> Inl Verify_assert"
  by (rule VerifyScript_asserts [OF assms])

theorem VerifyScript_no_assert_witness: "VerifyScript demo_env [] (p2sh_script []) \<noteq> Inl Verify_assert"
  by (rule VerifyScript_no_assert) (simp add: demo_flags)

text \<open>Property C21. Evaluation keeps its resource limits. A script that evaluates has at most 10000 bytes and is cut into
  complete instructions, whether executed or not: none pushes more than 520 bytes, none is a disabled opcode, at most 201 are
  above \<open>OP_16\<close>, and every \<open>OP_ELSE\<close> and \<open>OP_ENDIF\<close> belongs to an open conditional, all of which are closed at the end. From a
  stack of at most 1000 items of at most 520 bytes the stack returned is such a stack, whatever the checker.\<close>

theorem EvalScript_limits:
  assumes "EvalScript env stack script = Inr stack'" "list_all (\<lambda>x. length x \<le> 520) stack" "length stack \<le> 1000"
  shows "list_all (\<lambda>x. length x \<le> 520) stack' \<and> length stack' \<le> 1000 \<and> length script \<le> 10000 \<and>
    (\<exists>ops. script_ops script = Some ops \<and>
       list_all (\<lambda>(opcode, vch). length vch \<le> 520 \<and>
         opcode \<notin> {0x7E, 0x7F, 0x80, 0x81, 0x83, 0x84, 0x85, 0x86, 0x8D, 0x8E, 0x95, 0x96, 0x97, 0x98, 0x99}) ops \<and>
       length (filter (\<lambda>(opcode, _). 0x60 < opcode) ops) \<le> 201 \<and> nesting (map fst ops) 0 = Some 0)"
proof -
  have "length script \<le> 10000" using assms(1) by (auto simp: EvalScript_def MAX_SCRIPT_SIZE_def split: if_splits)
  moreover have "list_all small stack" using assms(2) by (simp add: MAX_SCRIPT_ELEMENT_SIZE_def)
  ultimately show ?thesis using EvalScript_inv [OF assms(1) _ assms(3)] EvalScript_ops [OF assms(1) _ assms(3)]
    by (simp add: MAX_SCRIPT_ELEMENT_SIZE_def MAX_OPS_PER_SCRIPT_def disabled_opcodes_def)
qed

lemma demo_if: "EvalScript demo_env [] [0x51, 0x63, 0x02, 7, 8, 0x67, 0x61, 0x68] = Inr [[7, 8]]"
  by code_simp

lemma demo_if_ops: "script_ops [0x51, 0x63, 0x02, 7, 8, 0x67, 0x61, 0x68] =
  Some [(0x51, []), (0x63, []), (2, [7, 8]), (0x67, []), (0x61, []), (0x68, [])]"
  by code_simp

theorem EvalScript_limits_witness:
  "EvalScript demo_env [] [0x51, 0x63, 0x02, 7, 8, 0x67, 0x61, 0x68] = Inr [[7, 8]] \<and> length [[7, 8 :: u8]] \<le> 1000 \<and>
   script_ops [0x51, 0x63, 0x02, 7, 8, 0x67, 0x61, 0x68] =
     Some [(0x51, []), (0x63, []), (2, [7, 8]), (0x67, []), (0x61, []), (0x68, [])] \<and>
   nesting [0x51, 0x63, 2, 0x67, 0x61, 0x68] 0 = Some 0"
  using EvalScript_limits [OF demo_if] demo_if demo_if_ops by simp

text \<open>Property C22. The evaluation loop executes at most one instruction per byte of the script: cut off after that many
  iterations it has already returned its result.\<close>

theorem EvalScript_terminates:
  "eval_bounded (length script) env script st = Some (eval_loop env script st)"
  by (rule eval_bounded_loop) simp

lemma VerifyScript_evals: "VerifyScript env sig s = Inr () \<Longrightarrow> \<exists>st r. EvalScript env st s = Inr r"
  by (auto simp: VerifyScript_def bindE_eq_Inr eval_for_verify_Inr split: if_splits)

text \<open>Property C30. A script that \<open>IsUnspendable\<close> recognises fails on every initial stack, so no \<open>scriptSig\<close> can spend it and
  pruning its output loses nothing.\<close>

theorem unspendable_fails:
  assumes "IsUnspendable s"
  shows "(\<exists>e. EvalScript env stack s = Inl e) \<and> VerifyScript env sig s \<noteq> Inr ()"
  using EvalScript_unspendable [OF assms] VerifyScript_evals [of env sig s] by (metis Inl_Inr_False)

theorem unspendable_fails_witness: "VerifyScript demo_env [0x51] [0x6a] \<noteq> Inr ()"
  using unspendable_fails [of "[0x6a]" demo_env "[]" "[0x51]"] by (simp add: IsUnspendable_def)

text \<open>Property C23. The single pass of \<open>OP_CHECKMULTISIG\<close> decides the right question: when the encodings pass, it
  succeeds exactly when the signatures can be assigned, in order, to a subsequence of the keys that verifies them.\<close>

theorem multisig_is_matching:
  assumes "list_all (\<lambda>s. CheckSignatureEncoding env s = Inr ()) sigs"
    "list_all (\<lambda>k. CheckPubKeyEncoding env k = Inr ()) keys"
  shows "multisig_loop env code sigs keys =
    Inr (\<exists>ks. subseq ks keys \<and> list_all2 (\<lambda>s k. CheckSig (checker env) s k code) sigs ks)"
  using multisig_loop_matches [OF assms] by (simp add: sig_matches_def)

theorem multisig_is_matching_witness:
  "multisig_loop demo_env [] [[1], [2]] [[], [5], [6]] =
    Inr (\<exists>ks. subseq ks [[], [5], [6]] \<and> list_all2 (\<lambda>s k. CheckSig (checker demo_env) s k []) [[1], [2]] ks)"
  by (rule multisig_is_matching) (simp_all add: demo_checks)

text \<open>Property C24. \<open>IsValidSignatureEncoding\<close> accepts exactly the byte strings made of a strict DER signature with two
  minimal non-negative integers and a hash type byte, at most 73 bytes in all.\<close>

theorem strict_der:
  "IsValidSignatureEncoding sig \<longleftrightarrow>
     (\<exists>R S h. sig = der_signature R S h \<and> der_int R \<and> der_int S \<and> length R + length S \<le> 66)"
  using valid_der_signature der_signature_valid by blast

end
