(* ===== verification/Sighash.thy ===== *)
theory Sighash
  imports Interpreter
begin

text \<open>
  Signature hashes and the transaction signature checker, the second half of \<^verbatim>\<open>src/src/script/interpreter.cpp\<close>, with the
  syntactic part of \<open>CPubKey\<close> from \<^verbatim>\<open>src/src/pubkey.h\<close>. A \<open>CPubKey\<close> is its \<open>size()\<close> bytes, none when it is invalid. The
  verification of a signature by the curve library is a parameter. The index \<open>nIn\<close> of the input is in range wherever the
  code indexes with it: \<open>SignatureHash\<close> tests it, and the checker is made for an input of its transaction.
\<close>

unbundle bit_operations_syntax

subsection \<open>Public keys\<close>

type_synonym CPubKey = bytes

definition GetLen :: "u8 \<Rightarrow> nat" where
  "GetLen chHeader = (if chHeader = 2 \<or> chHeader = 3 then 33
     else if chHeader = 4 \<or> chHeader = 6 \<or> chHeader = 7 then 65 else 0)"

definition CPubKey_Set :: "bytes \<Rightarrow> CPubKey" where
  "CPubKey_Set p = (let len = (if p = [] then 0 else GetLen (p ! 0)) in
     if len \<noteq> 0 \<and> len = length p then p else [])"

definition CPubKey_IsValid :: "CPubKey \<Rightarrow> bool" where
  "CPubKey_IsValid k \<longleftrightarrow> length k > 0"

definition CPubKey_IsCompressed :: "CPubKey \<Rightarrow> bool" where
  "CPubKey_IsCompressed k \<longleftrightarrow> length k = 33"

definition CPubKey_GetID :: "CPubKey \<Rightarrow> bytes" where
  "CPubKey_GetID k = Hash160 k"

definition CPubKey_Serialize :: "CPubKey \<Rightarrow> bytes" where
  "CPubKey_Serialize k = WriteCompactSize (of_nat (length k)) @ k"

subsection \<open>The signature hash\<close>

definition fAnyoneCanPay :: "u32 \<Rightarrow> bool" where
  "fAnyoneCanPay nHashType \<longleftrightarrow> nHashType AND ucast SIGHASH_ANYONECANPAY \<noteq> 0"

definition fHashSingle :: "u32 \<Rightarrow> bool" where
  "fHashSingle nHashType \<longleftrightarrow> nHashType AND 0x1f = ucast SIGHASH_SINGLE"

definition fHashNone :: "u32 \<Rightarrow> bool" where
  "fHashNone nHashType \<longleftrightarrow> nHashType AND 0x1f = ucast SIGHASH_NONE"

function count_separators :: "bytes \<Rightarrow> nat \<Rightarrow> nat" where
  "count_separators it nCodeSeparators = (case GetOp it of None \<Rightarrow> nCodeSeparators
     | Some (opcode, vch, it') \<Rightarrow>
         count_separators it' (if opcode = OP_CODESEPARATOR then Suc nCodeSeparators else nCodeSeparators))"
  by pat_completeness auto
termination
  by (relation "measure (\<lambda>(it, n). length it)") (auto dest: GetOp_shorter)

declare count_separators.simps [simp del]

text \<open>The second loop. It returns what it wrote, the start of the part not yet written and the iterator where the last
  \<open>GetOp\<close> stopped.\<close>

function write_between_separators :: "bytes \<Rightarrow> bytes \<Rightarrow> bytes \<Rightarrow> bytes \<times> bytes \<times> bytes" where
  "write_between_separators it itBegin s = (case GetOp2 it of (fRet, opcode, vch, it') \<Rightarrow>
     if fRet then
       if opcode = OP_CODESEPARATOR
       then write_between_separators it' it' (s @ take (length itBegin - length it' - 1) itBegin)
       else write_between_separators it' itBegin s
     else (s, itBegin, it'))"
  by pat_completeness auto
termination
  by (relation "measure (\<lambda>(it, itBegin, s). length it)") (auto dest: GetOp2_shorter [OF sym])

declare write_between_separators.simps [simp del]

definition SerializeScriptCode :: "CScript \<Rightarrow> bytes" where
  "SerializeScriptCode scriptCode =
     WriteCompactSize (of_nat (length scriptCode - count_separators scriptCode 0)) @
     (case write_between_separators scriptCode scriptCode [] of (s, itBegin, it) \<Rightarrow>
        if itBegin \<noteq> [] then s @ take (length itBegin - length it) itBegin else s)"

definition SerializeInput :: "'a CMutableTransaction_scheme \<Rightarrow> CScript \<Rightarrow> nat \<Rightarrow> u32 \<Rightarrow> nat \<Rightarrow> bytes" where
  "SerializeInput txTo scriptCode nIn nHashType nInput0 = (let nInput = (if fAnyoneCanPay nHashType then nIn else nInput0) in
     Serialize_COutPoint (prevout (vin txTo ! nInput)) @
     (if nInput \<noteq> nIn then Serialize_bytes [] else SerializeScriptCode scriptCode) @
     (if nInput \<noteq> nIn \<and> (fHashSingle nHashType \<or> fHashNone nHashType) then ser_writedata32 0
      else ser_writedata32 (nSequence (vin txTo ! nInput))))"

definition SerializeOutput :: "'a CMutableTransaction_scheme \<Rightarrow> nat \<Rightarrow> u32 \<Rightarrow> nat \<Rightarrow> bytes" where
  "SerializeOutput txTo nIn nHashType nOutput =
     (if fHashSingle nHashType \<and> nOutput \<noteq> nIn then Serialize_CTxOut CTxOut_SetNull else Serialize_CTxOut (vout txTo ! nOutput))"

definition SerializeForSignature :: "'a CMutableTransaction_scheme \<Rightarrow> CScript \<Rightarrow> nat \<Rightarrow> u32 \<Rightarrow> bytes" where
  "SerializeForSignature txTo scriptCode nIn nHashType =
     (let nInputs = (if fAnyoneCanPay nHashType then 1 else length (vin txTo));
          nOutputs = (if fHashNone nHashType then 0 else if fHashSingle nHashType then nIn + 1 else length (vout txTo)) in
      ser_writedata32 (n32bitVersion txTo) @
      WriteCompactSize (of_nat nInputs) @ concat (map (SerializeInput txTo scriptCode nIn nHashType) [0..<nInputs]) @
      WriteCompactSize (of_nat nOutputs) @ concat (map (SerializeOutput txTo nIn nHashType) [0..<nOutputs]) @
      ser_writedata32 (nLockTime txTo) @
      (if has_payload txTo then Serialize_bytes (vExtraPayload txTo) else []))"

definition uint256_one :: uint256 where "uint256_one = 1 # replicate 31 0"

definition SignatureHash :: "CScript \<Rightarrow> 'a CMutableTransaction_scheme \<Rightarrow> nat \<Rightarrow> u32 \<Rightarrow> uint256" where
  "SignatureHash scriptCode txTo nIn nHashType =
     (if nIn \<ge> length (vin txTo) then uint256_one
      else if fHashSingle nHashType \<and> nIn \<ge> length (vout txTo) then uint256_one
      else SerializeHash [SerializeForSignature txTo scriptCode nIn nHashType, ser_writedata32 nHashType])"

subsection \<open>The checker\<close>

definition Tx_CheckSig ::
  "(CPubKey \<Rightarrow> uint256 \<Rightarrow> bytes \<Rightarrow> bool) \<Rightarrow> 'a CMutableTransaction_scheme \<Rightarrow> nat \<Rightarrow> valtype \<Rightarrow> valtype \<Rightarrow> CScript \<Rightarrow> bool" where
  "Tx_CheckSig verify txTo nIn vchSigIn vchPubKey scriptCode = (let pubkey = CPubKey_Set vchPubKey in
     if \<not> CPubKey_IsValid pubkey then False
     else if vchSigIn = [] then False
     else verify pubkey (SignatureHash scriptCode txTo nIn (ucast (last vchSigIn))) (butlast vchSigIn))"

definition Tx_CheckLockTime :: "'a CMutableTransaction_scheme \<Rightarrow> nat \<Rightarrow> int \<Rightarrow> bool" where
  "Tx_CheckLockTime txTo nIn lockTime = (let t = uint (nLockTime txTo) in
     if \<not> ((t < LOCKTIME_THRESHOLD \<and> lockTime < LOCKTIME_THRESHOLD) \<or> (t \<ge> LOCKTIME_THRESHOLD \<and> lockTime \<ge> LOCKTIME_THRESHOLD)) then False
     else if lockTime > t then False
     else if SEQUENCE_FINAL = nSequence (vin txTo ! nIn) then False
     else True)"

definition Tx_CheckSequence :: "'a CMutableTransaction_scheme \<Rightarrow> nat \<Rightarrow> int \<Rightarrow> bool" where
  "Tx_CheckSequence txTo nIn sequence = (let txToSequence = uint (nSequence (vin txTo ! nIn)) in
     if (scast (tx_nVersion txTo) :: u32) < 2 then False
     else if txToSequence AND uint SEQUENCE_LOCKTIME_DISABLE_FLAG \<noteq> 0 then False
     else let nLockTimeMask = uint (SEQUENCE_LOCKTIME_TYPE_FLAG OR SEQUENCE_LOCKTIME_MASK);
              txToSequenceMasked = txToSequence AND nLockTimeMask;
              nSequenceMasked = sequence AND nLockTimeMask;
              flag = uint SEQUENCE_LOCKTIME_TYPE_FLAG in
     if \<not> ((txToSequenceMasked < flag \<and> nSequenceMasked < flag) \<or> (txToSequenceMasked \<ge> flag \<and> nSequenceMasked \<ge> flag)) then False
     else if nSequenceMasked > txToSequenceMasked then False
     else True)"

definition TransactionSignatureChecker ::
  "(CPubKey \<Rightarrow> uint256 \<Rightarrow> bytes \<Rightarrow> bool) \<Rightarrow> 'a CMutableTransaction_scheme \<Rightarrow> nat \<Rightarrow> SignatureChecker" where
  "TransactionSignatureChecker verify txTo nIn =
     \<lparr>CheckSig = Tx_CheckSig verify txTo nIn, CheckLockTime = Tx_CheckLockTime txTo nIn, CheckSequence = Tx_CheckSequence txTo nIn\<rparr>"

subsection \<open>Scripts without their separators\<close>

function parses :: "bytes \<Rightarrow> bool" where
  "parses pc \<longleftrightarrow> (if pc = [] then True else case GetOp pc of None \<Rightarrow> False | Some (opcode, vch, pc') \<Rightarrow> parses pc')"
  by pat_completeness auto
termination
  by (relation "measure length") (auto dest: GetOp_shorter)

declare parses.simps [simp del]

function strip_separators :: "bytes \<Rightarrow> bytes" where
  "strip_separators pc = (case GetOp pc of None \<Rightarrow> []
     | Some (opcode, vch, pc') \<Rightarrow>
         (if opcode = OP_CODESEPARATOR then [] else take (length pc - length pc') pc) @ strip_separators pc')"
  by pat_completeness auto
termination
  by (relation "measure length") (auto dest: GetOp_shorter)

declare strip_separators.simps [simp del]

lemma GetOp2_suffix:
  "GetOp2 pc = (True, opcode, vch, pc') \<Longrightarrow> \<exists>i. pc = i @ pc' \<and> i \<noteq> [] \<and> (opcode > OP_PUSHDATA4 \<longrightarrow> length i = 1)"
proof -
  assume a: "GetOp2 pc = (True, opcode, vch, pc')"
  then obtain b pc1 where pc: "pc = b # pc1" by (cases pc) (auto simp: GetOp2_def)
  show ?thesis
  proof (cases "unat b \<le> OP_PUSHDATA4")
    case True
    then obtain n pc2 where "read_push_size (unat b) pc1 = Some (n, pc2)" "pc' = drop n pc2" "opcode = unat b"
      using a pc by (auto simp: GetOp2_def Let_def split: option.splits if_splits)
    moreover from this have "\<exists>k. pc2 = drop k pc1" by (auto simp: read_push_size_def split: if_splits intro: exI [of _ 0])
    ultimately obtain k where k: "pc' = drop k pc1" "opcode \<le> OP_PUSHDATA4" using True by auto
    show ?thesis by (rule exI [of _ "b # take k pc1"]) (use k pc in simp)
  next
    case False
    then show ?thesis using a pc by (auto simp: GetOp2_def Let_def)
  qed
qed

lemma GetOp_suffix:
  "GetOp pc = Some (opcode, vch, pc') \<Longrightarrow> \<exists>i. pc = i @ pc' \<and> i \<noteq> [] \<and> (opcode > OP_PUSHDATA4 \<longrightarrow> length i = 1)"
  by (auto simp: GetOp_def split: prod.splits if_splits dest: GetOp2_suffix)

lemma parses_Nil [simp]: "parses []" "strip_separators [] = []" "count_separators [] n = n"
  by (simp_all add: parses.simps strip_separators.simps count_separators.simps)

lemma parses_step:
  assumes "parses pc" "pc \<noteq> []"
  obtains opcode vch pc' where "GetOp pc = Some (opcode, vch, pc')" "GetOp2 pc = (True, opcode, vch, pc')" "parses pc'"
proof -
  obtain opcode vch pc' where g: "GetOp pc = Some (opcode, vch, pc')" "parses pc'"
    using assms by (subst (asm) parses.simps) (auto split: option.splits)
  moreover from this have "GetOp2 pc = (True, opcode, vch, pc')" by (auto simp: GetOp_def split: prod.splits if_splits)
  ultimately show thesis using that by blast
qed

lemma parses_induct [consumes 1, case_names Nil Op]:
  assumes "parses pc" "P []"
    "\<And>pc opcode vch pc' i. GetOp pc = Some (opcode, vch, pc') \<Longrightarrow> GetOp2 pc = (True, opcode, vch, pc') \<Longrightarrow> pc = i @ pc' \<Longrightarrow> i \<noteq> [] \<Longrightarrow>
       (opcode = OP_CODESEPARATOR \<Longrightarrow> length i = 1) \<Longrightarrow> parses pc' \<Longrightarrow> P pc' \<Longrightarrow> P pc"
  shows "P pc"
  using assms(1)
proof (induction pc rule: measure_induct_rule [of length])
  case (less pc)
  show ?case
  proof (cases "pc = []")
    case False
    from parses_step [OF less.prems False] obtain opcode vch pc' where
      g: "GetOp pc = Some (opcode, vch, pc')" "GetOp2 pc = (True, opcode, vch, pc')" "parses pc'" by blast
    obtain i where i: "pc = i @ pc'" "i \<noteq> []" "opcode > OP_PUSHDATA4 \<longrightarrow> length i = 1" using GetOp_suffix [OF g(1)] by blast
    show ?thesis by (rule assms(3) [OF g(1,2) i(1,2) _ g(3)]) (use i less.IH [of pc'] GetOp_shorter [OF g(1)] g(3) in auto)
  qed (simp add: assms(2))
qed

lemma write_between_strip:
  assumes "parses it"
  shows "\<exists>s' rest. write_between_separators it (pre @ it) s = (s', rest, []) \<and> s' @ rest = s @ pre @ strip_separators it"
  using assms
proof (induction it arbitrary: pre s rule: parses_induct)
  case Nil
  then show ?case by (simp add: write_between_separators.simps GetOp2_def)
next
  case (Op pc opcode vch pc' i)
  show ?case
  proof (cases "opcode = OP_CODESEPARATOR")
    case True
    have "length (pre @ pc) - length pc' - 1 = length pre" using Op(3,5) True by simp
    then have "write_between_separators pc (pre @ pc) s = write_between_separators pc' pc' (s @ pre)"
      using Op(2) True by (subst write_between_separators.simps) simp
    then show ?thesis using Op(7) [of "[]" "s @ pre"] Op(1) True by (simp add: strip_separators.simps [of pc])
  next
    case False
    have "write_between_separators pc (pre @ pc) s = write_between_separators pc' ((pre @ i) @ pc') s"
      using Op(2,3) False by (subst write_between_separators.simps) simp
    moreover have "strip_separators pc = i @ strip_separators pc'"
      using Op(1,3) False by (subst strip_separators.simps) simp
    ultimately show ?thesis using Op(7) [of "pre @ i" s] by simp
  qed
qed

lemma length_strip: "parses it \<Longrightarrow> length (strip_separators it) + count_separators it n = length it + n"
proof (induction it arbitrary: n rule: parses_induct)
  case (Op pc opcode vch pc' i)
  have "strip_separators pc = (if opcode = OP_CODESEPARATOR then [] else i) @ strip_separators pc'"
    "count_separators pc n = count_separators pc' (if opcode = OP_CODESEPARATOR then Suc n else n)"
    using Op(1,3) by (subst strip_separators.simps, simp, subst count_separators.simps, simp)
  then show ?case using Op(3,5,7) by auto
qed simp

lemma SerializeScriptCode_strip:
  assumes "parses scriptCode"
  shows "SerializeScriptCode scriptCode = Serialize_bytes (strip_separators scriptCode)"
proof -
  obtain s' rest where w: "write_between_separators scriptCode scriptCode [] = (s', rest, [])"
    "s' @ rest = strip_separators scriptCode"
    using write_between_strip [OF assms, of "[]" "[]"] by auto
  have "length scriptCode - count_separators scriptCode 0 = length (strip_separators scriptCode)"
    using length_strip [OF assms, of 0] by simp
  then show ?thesis using w by (auto simp: SerializeScriptCode_def Serialize_bytes_def)
qed

subsection \<open>The transaction that is signed\<close>

text \<open>The copy of the spending transaction that the original client hashed: the script code stands in the input that is
  signed, the other inputs have empty scripts, and the hash type removes the outputs, the sequence numbers or the other
  inputs.\<close>

definition sighash_input :: "CScript \<Rightarrow> nat \<Rightarrow> u32 \<Rightarrow> nat \<Rightarrow> CTxIn \<Rightarrow> CTxIn" where
  "sighash_input code nIn ht i inp = inp \<lparr>scriptSig := if i = nIn then code else [],
     nSequence := if i \<noteq> nIn \<and> (fHashSingle ht \<or> fHashNone ht) then 0 else nSequence inp\<rparr>"

definition sighash_tx :: "CMutableTransaction \<Rightarrow> CScript \<Rightarrow> nat \<Rightarrow> u32 \<Rightarrow> CMutableTransaction" where
  "sighash_tx tx code nIn ht = (let ins = map (\<lambda>i. sighash_input code nIn ht i (vin tx ! i)) [0..<length (vin tx)] in
     tx \<lparr>vin := if fAnyoneCanPay ht then [ins ! nIn] else ins,
        vout := if fHashNone ht then [] else if fHashSingle ht then replicate nIn CTxOut_SetNull @ [vout tx ! nIn] else vout tx\<rparr>)"

lemma map_nth_upt: "map (\<lambda>i. f (xs ! i)) [0..<length xs] = map f xs"
  using map_map [of f "(!) xs" "[0..<length xs]"] by (simp add: map_nth comp_def)

lemma SerializeInput_sighash:
  assumes "parses code" "nIn < length (vin tx)"
  shows "SerializeInput tx code nIn ht i =
    Serialize_CTxIn (sighash_input (strip_separators code) nIn ht (if fAnyoneCanPay ht then nIn else i) (vin tx ! (if fAnyoneCanPay ht then nIn else i)))"
  using assms by (simp add: SerializeInput_def Let_def sighash_input_def Serialize_CTxIn_def SerializeScriptCode_strip)

lemma hash_type_exclusive: "\<not> (fHashSingle ht \<and> fHashNone ht)"
  by (auto simp: fHashSingle_def fHashNone_def SIGHASH_SINGLE_def SIGHASH_NONE_def)

lemma concat_outputs:
  assumes "fHashSingle ht \<longrightarrow> nIn < length (vout tx)" "\<not> fHashNone ht"
  shows "map (SerializeOutput tx nIn ht) [0..<if fHashSingle ht then nIn + 1 else length (vout tx)] =
    map Serialize_CTxOut (if fHashSingle ht then replicate nIn CTxOut_SetNull @ [vout tx ! nIn] else vout tx)"
proof (cases "fHashSingle ht")
  case True
  have "map (SerializeOutput tx nIn ht) [0..<nIn] = map (\<lambda>_. Serialize_CTxOut CTxOut_SetNull) [0..<nIn]"
    using True by (intro map_cong) (auto simp: SerializeOutput_def)
  then show ?thesis using True by (simp add: SerializeOutput_def map_replicate_const)
next
  case False
  have "map (SerializeOutput tx nIn ht) [0..<length (vout tx)] = map Serialize_CTxOut (map ((!) (vout tx)) [0..<length (vout tx)])"
    using False by (simp add: SerializeOutput_def)
  then show ?thesis using False by (simp only: map_nth if_False)
qed

lemma SerializeForSignature_sighash_tx:
  assumes "parses code" "nIn < length (vin tx)" "fHashSingle ht \<longrightarrow> nIn < length (vout tx)"
  shows "SerializeForSignature tx code nIn ht = Serialize_CTransaction (sighash_tx tx (strip_separators code) nIn ht)"
proof -
  let ?t = "sighash_tx tx (strip_separators code) nIn ht"
  have ins: "WriteCompactSize (of_nat (if fAnyoneCanPay ht then 1 else length (vin tx))) @
      concat (map (SerializeInput tx code nIn ht) [0..<if fAnyoneCanPay ht then 1 else length (vin tx)]) =
    Serialize_vector Serialize_CTxIn (vin ?t)"
    unfolding ext [OF SerializeInput_sighash [OF assms(1,2)]]
    using assms(2) by (simp add: Serialize_vector_def sighash_tx_def Let_def comp_def)
  have outs: "WriteCompactSize (of_nat (if fHashNone ht then 0 else if fHashSingle ht then nIn + 1 else length (vout tx))) @
      concat (map (SerializeOutput tx nIn ht) [0..<if fHashNone ht then 0 else if fHashSingle ht then nIn + 1 else length (vout tx)]) =
    Serialize_vector Serialize_CTxOut (vout ?t)"
    using concat_outputs [OF assms(3)]
    by (cases "fHashNone ht"; cases "fHashSingle ht") (simp_all add: Serialize_vector_def sighash_tx_def Let_def)
  have rest: "n32bitVersion ?t = n32bitVersion tx" "has_payload ?t = has_payload tx" "nLockTime ?t = nLockTime tx"
    "vExtraPayload ?t = vExtraPayload tx"
    by (simp_all add: sighash_tx_def Let_def n32bitVersion_def has_payload_def)
  show ?thesis
    unfolding SerializeForSignature_def Serialize_CTransaction_def rest ins [symmetric] outs [symmetric] Let_def by simp
qed

lemma sighash_tx_ok:
  assumes "tx_ok tx" "nIn < length (vin tx)" "length code \<le> 0x02000000" "fHashSingle ht \<longrightarrow> nIn < length (vout tx)"
  shows "tx_ok (sighash_tx tx code nIn ht)"
proof -
  have i: "txin_ok (sighash_input code nIn ht i (vin tx ! i))" if "i < length (vin tx)" for i
    using assms(1,3) that by (auto simp: tx_ok_def txin_ok_def sighash_input_def list_all_length)
  have "txout_ok CTxOut_SetNull" by (simp add: txout_ok_def CTxOut_SetNull_def)
  moreover have "nIn < length (vout tx) \<Longrightarrow> txout_ok (vout tx ! nIn)" using assms(1) by (simp add: tx_ok_def list_all_length)
  ultimately show ?thesis
    using assms i by (auto simp: tx_ok_def sighash_tx_def Let_def has_payload_def list_all_length nth_append split: if_splits)
qed

subsection \<open>Properties\<close>

text \<open>Property C7. The in-place serializer of \<open>SignatureHash\<close> hashes what the original client hashed: for a script code
  that parses, the serialization of the spending transaction with the code (without its separators) in the signed
  input, blank scripts in the others and the parts its hash type excludes removed, followed by the hash type; an input
  out of range, or no matching output under \<open>SIGHASH_SINGLE\<close>, gives the constant one.\<close>

theorem SignatureHash_correct:
  assumes "parses code"
  shows "SignatureHash code tx nIn ht =
    (if nIn < length (vin tx) \<and> (fHashSingle ht \<longrightarrow> nIn < length (vout tx))
     then SerializeHash [Serialize_CTransaction (sighash_tx tx (strip_separators code) nIn ht), ser_writedata32 ht]
     else uint256_one)"
  using SerializeForSignature_sighash_tx [OF assms] by (auto simp: SignatureHash_def not_less not_le)

theorem SignatureHash_correct_witness:
  "SignatureHash [0xab, 0x51] demo_tx 0 1 =
     SerializeHash [Serialize_CTransaction (sighash_tx demo_tx (strip_separators [0xab, 0x51]) 0 1), ser_writedata32 1]"
proof -
  have "parses [0xab, 0x51]" by code_simp
  moreover have "\<not> fHashSingle 1" by (simp add: fHashSingle_def SIGHASH_SINGLE_def)
  ultimately show ?thesis using SignatureHash_correct [of "[0xab, 0x51]" demo_tx 0 1] by (simp add: demo_tx_def)
qed

text \<open>Property C8. A signature with hash type \<open>SIGHASH_ALL\<close> commits to the whole transaction: two well-formed transactions
  whose signed bytes agree have the same version, type, outputs, lock time and payload and the same outpoints and sequence
  numbers.\<close>

theorem sighash_all_commits:
  fixes tx1 tx2 :: CMutableTransaction
  assumes "parses c1" "parses c2" "length c1 \<le> 0x02000000" "length c2 \<le> 0x02000000"
    "tx_ok tx1" "tx_ok tx2" "n1 < length (vin tx1)" "n2 < length (vin tx2)"
    "\<not> fAnyoneCanPay ht" "\<not> fHashSingle ht" "\<not> fHashNone ht"
    "SerializeForSignature tx1 c1 n1 ht = SerializeForSignature tx2 c2 n2 ht"
  shows "tx_nVersion tx1 = tx_nVersion tx2 \<and> tx_nType tx1 = tx_nType tx2 \<and> vout tx1 = vout tx2 \<and>
    nLockTime tx1 = nLockTime tx2 \<and> vExtraPayload tx1 = vExtraPayload tx2 \<and>
    map prevout (vin tx1) = map prevout (vin tx2) \<and> map nSequence (vin tx1) = map nSequence (vin tx2)"
proof -
  have l: "length (strip_separators c) \<le> length c" if "parses c" for c using length_strip [OF that, of 0] by simp
  let ?t1 = "sighash_tx tx1 (strip_separators c1) n1 ht" and ?t2 = "sighash_tx tx2 (strip_separators c2) n2 ht"
  have "?t1 = ?t2"
  proof (rule mtx.enc_inj)
    show "tx_ok ?t1" "tx_ok ?t2" using assms l [of c1] l [of c2] by (auto intro!: sighash_tx_ok)
    show "Serialize_CTransaction ?t1 = Serialize_CTransaction ?t2"
      using assms SerializeForSignature_sighash_tx [of c1 n1 tx1 ht] SerializeForSignature_sighash_tx [of c2 n2 tx2 ht] by simp
  qed
  have f: "tx_nVersion (sighash_tx tx c n ht) = tx_nVersion tx" "tx_nType (sighash_tx tx c n ht) = tx_nType tx"
    "vout (sighash_tx tx c n ht) = vout tx" "nLockTime (sighash_tx tx c n ht) = nLockTime tx"
    "vExtraPayload (sighash_tx tx c n ht) = vExtraPayload tx" "map prevout (vin (sighash_tx tx c n ht)) = map prevout (vin tx)"
    "map nSequence (vin (sighash_tx tx c n ht)) = map nSequence (vin tx)" for tx c n
    using assms(9-11) by (simp_all add: sighash_tx_def Let_def sighash_input_def comp_def map_nth_upt)
  note e = arg_cong [OF \<open>?t1 = ?t2\<close>]
  show ?thesis
    using e [of tx_nVersion] e [of tx_nType] e [of vout] e [of nLockTime] e [of vExtraPayload]
      e [of "\<lambda>t. map prevout (vin t)"] e [of "\<lambda>t. map nSequence (vin t)"]
    unfolding f by blast
qed

theorem sighash_all_commits_witness:
  "let tx2 = demo_tx \<lparr>vin := [CTxIn_default \<lparr>scriptSig := [9]\<rparr>]\<rparr> in
     SerializeForSignature demo_tx [] 0 1 = SerializeForSignature tx2 [] 0 1 \<and>
     map prevout (vin demo_tx) = map prevout (vin tx2) \<and> vout demo_tx = vout tx2"
proof -
  let ?t = "demo_tx \<lparr>vin := [CTxIn_default \<lparr>scriptSig := [9]\<rparr>]\<rparr>"
  have ht: "\<not> fAnyoneCanPay 1" "\<not> fHashSingle 1" "\<not> fHashNone 1"
    by (simp_all add: fAnyoneCanPay_def fHashSingle_def fHashNone_def SIGHASH_SINGLE_def SIGHASH_NONE_def SIGHASH_ANYONECANPAY_def)
  have v: "length (vin demo_tx) = 1" by (simp add: demo_tx_def)
  have ok: "tx_ok ?t"
    by (simp add: demo_tx_def tx_ok_def has_payload_def CMutableTransaction_default_def CURRENT_VERSION_def txin_ok_def
        CTxIn_default_def COutPoint_SetNull_def is_uint256_def txout_ok_def CTxOut_SetNull_def)
  have "sighash_tx ?t [] 0 1 = sighash_tx demo_tx [] 0 1"
    using ht by (simp add: sighash_tx_def sighash_input_def demo_tx_def CTxIn_default_def)
  then have eq: "SerializeForSignature demo_tx [] 0 1 = SerializeForSignature ?t [] 0 1"
    using SerializeForSignature_sighash_tx [of "[]" 0 demo_tx 1] SerializeForSignature_sighash_tx [of "[]" 0 ?t 1] ht v by simp
  then show ?thesis
    using sighash_all_commits [of "[]" "[]" demo_tx ?t 0 0 1] demo_tx_ok(1) ok ht v by (simp add: Let_def)
qed

end
