(* ===== verification/Coins.thy ===== *)
theory Coins
  imports Transaction "HOL-Library.AList"
begin

text \<open>
  The set of unspent outputs, \<^verbatim>\<open>src/src/coins.h\<close> and \<^verbatim>\<open>src/src/coins.cpp\<close>, with the database view of \<^verbatim>\<open>src/src/txdb.cpp\<close>: coins, the
  interface \<open>CCoinsView\<close> as a record of its methods, the write-back cache \<open>CCoinsViewCache\<close> over any such view and the
  stacks of caches built from it. A method that is \<open>const\<close> but fills a cache returns the changed view. The hash table of a
  cache is an association list in the order of iteration; its entries' flags are two booleans. The memory accounting is
  left out, since the capacity of a script's buffer depends on its history. The locale \<open>coins_view_laws\<close> states what a
  view promises; the database satisfies it, and a cache over a view that satisfies it satisfies it again.
\<close>

subsection \<open>Coins\<close>

record Coin =
  coin_out :: CTxOut
  fCoinBase :: bool
  coin_nHeight :: nat

text \<open>The height is a bit field of 31 bits.\<close>

definition Coin_of :: "CTxOut \<Rightarrow> int \<Rightarrow> bool \<Rightarrow> Coin" where
  "Coin_of outIn nHeightIn fCoinBaseIn = \<lparr>coin_out = outIn, fCoinBase = fCoinBaseIn, coin_nHeight = nat (nHeightIn mod 2 ^ 31)\<rparr>"

definition Coin_Clear :: Coin where
  "Coin_Clear = \<lparr>coin_out = CTxOut_SetNull, fCoinBase = False, coin_nHeight = 0\<rparr>"

definition Coin_IsCoinBase :: "Coin \<Rightarrow> bool" where
  "Coin_IsCoinBase c = fCoinBase c"

definition Coin_IsSpent :: "Coin \<Rightarrow> bool" where
  "Coin_IsSpent c = CTxOut_IsNull (coin_out c)"

record CCoinsCacheEntry =
  entry_coin :: Coin
  DIRTY :: bool
  FRESH :: bool

type_synonym CCoinsMap = "(COutPoint \<times> CCoinsCacheEntry) list"

definition CCoinsCacheEntry_of :: "Coin \<Rightarrow> CCoinsCacheEntry" where
  "CCoinsCacheEntry_of c = \<lparr>entry_coin = c, DIRTY = False, FRESH = False\<rparr>"

subsection \<open>Views\<close>

datatype coins_error = Coin_assert | Coin_logic_error

record 'b coins_view =
  view_GetCoin :: "'b \<Rightarrow> COutPoint \<Rightarrow> Coin option \<times> 'b"
  view_GetBestBlock :: "'b \<Rightarrow> uint256 \<times> 'b"
  view_BatchWrite :: "'b \<Rightarrow> CCoinsMap \<Rightarrow> uint256 \<Rightarrow> coins_error + bool \<times> 'b"

definition view_HaveCoin :: "'b coins_view \<Rightarrow> 'b \<Rightarrow> COutPoint \<Rightarrow> bool \<times> 'b" where
  "view_HaveCoin view v outpoint = (case view_GetCoin view v outpoint of (c, v') \<Rightarrow> (c \<noteq> None, v'))"

text \<open>The abstract class itself, which has no coin.\<close>

definition CCoinsView :: "unit coins_view" where
  "CCoinsView = \<lparr>view_GetCoin = (\<lambda>v outpoint. (None, v)), view_GetBestBlock = (\<lambda>v. (replicate 32 0, v)),
     view_BatchWrite = (\<lambda>v mapCoins hashBlock. Inr (False, v))\<rparr>"

text \<open>The database maps the keys to the coins and holds the best block. Its batch writes all its changes: a write that LevelDB
  refuses is not modelled, so \<open>CCoinsViewDB_BatchWrite\<close> returns true.\<close>

record coins_db =
  db_coins :: "COutPoint \<rightharpoonup> Coin"
  db_best :: "uint256 option"

definition CCoinsViewDB_GetCoin :: "coins_db \<Rightarrow> COutPoint \<Rightarrow> Coin option \<times> coins_db" where
  "CCoinsViewDB_GetCoin db outpoint = (db_coins db outpoint, db)"

definition CCoinsViewDB_GetBestBlock :: "coins_db \<Rightarrow> uint256 \<times> coins_db" where
  "CCoinsViewDB_GetBestBlock db = (case db_best db of None \<Rightarrow> (replicate 32 0, db) | Some h \<Rightarrow> (h, db))"

fun CCoinsViewDB_batch :: "CCoinsMap \<Rightarrow> (COutPoint \<rightharpoonup> Coin) \<Rightarrow> COutPoint \<rightharpoonup> Coin" where
  "CCoinsViewDB_batch [] db = db"
| "CCoinsViewDB_batch ((outpoint, e) # it) db = CCoinsViewDB_batch it
     (if DIRTY e then if Coin_IsSpent (entry_coin e) then db(outpoint := None) else db(outpoint \<mapsto> entry_coin e) else db)"

definition CCoinsViewDB_BatchWrite :: "coins_db \<Rightarrow> CCoinsMap \<Rightarrow> uint256 \<Rightarrow> coins_error + bool \<times> coins_db" where
  "CCoinsViewDB_BatchWrite db mapCoins hashBlock =
     Inr (True, \<lparr>db_coins = CCoinsViewDB_batch mapCoins (db_coins db),
       db_best = if blob_IsNull hashBlock then db_best db else Some hashBlock\<rparr>)"

definition CCoinsViewDB :: "coins_db coins_view" where
  "CCoinsViewDB = \<lparr>view_GetCoin = CCoinsViewDB_GetCoin, view_GetBestBlock = CCoinsViewDB_GetBestBlock,
     view_BatchWrite = CCoinsViewDB_BatchWrite\<rparr>"

subsection \<open>The cache\<close>

record 'b CCoinsViewCache =
  cache_base :: 'b
  cache_hashBlock :: uint256
  cacheCoins :: CCoinsMap

definition CCoinsViewCache_of :: "'b \<Rightarrow> 'b CCoinsViewCache" where
  "CCoinsViewCache_of baseIn = \<lparr>cache_base = baseIn, cache_hashBlock = replicate 32 0, cacheCoins = []\<rparr>"

text \<open>The entry the returned iterator points at; \<open>None\<close> is \<open>end()\<close>.\<close>

definition FetchCoin :: "'b coins_view \<Rightarrow> 'b CCoinsViewCache \<Rightarrow> COutPoint \<Rightarrow> CCoinsCacheEntry option \<times> 'b CCoinsViewCache" where
  "FetchCoin view c outpoint = (case map_of (cacheCoins c) outpoint of
     Some e \<Rightarrow> (Some e, c)
   | None \<Rightarrow> (case view_GetCoin view (cache_base c) outpoint of
       (None, b) \<Rightarrow> (None, c \<lparr>cache_base := b\<rparr>)
     | (Some tmp, b) \<Rightarrow> let e = (CCoinsCacheEntry_of tmp) \<lparr>FRESH := Coin_IsSpent tmp\<rparr> in
         (Some e, c \<lparr>cache_base := b, cacheCoins := (outpoint, e) # cacheCoins c\<rparr>)))"

definition GetCoin :: "'b coins_view \<Rightarrow> 'b CCoinsViewCache \<Rightarrow> COutPoint \<Rightarrow> Coin option \<times> 'b CCoinsViewCache" where
  "GetCoin view c outpoint = (case FetchCoin view c outpoint of
     (Some e, c') \<Rightarrow> (if Coin_IsSpent (entry_coin e) then None else Some (entry_coin e), c')
   | (None, c') \<Rightarrow> (None, c'))"

definition AddCoin :: "'b CCoinsViewCache \<Rightarrow> COutPoint \<Rightarrow> Coin \<Rightarrow> bool \<Rightarrow> coins_error + 'b CCoinsViewCache" where
  "AddCoin c outpoint coin possible_overwrite =
     (if Coin_IsSpent coin then Inl Coin_assert
      else if IsUnspendable (scriptPubKey (coin_out coin)) then Inr c
      else let e = (case map_of (cacheCoins c) outpoint of Some e \<Rightarrow> e | None \<Rightarrow> CCoinsCacheEntry_of Coin_Clear) in
      if \<not> possible_overwrite \<and> \<not> Coin_IsSpent (entry_coin e) then Inl Coin_logic_error
      else let fresh = (\<not> possible_overwrite \<and> \<not> DIRTY e) in
      Inr (c \<lparr>cacheCoins := AList.update outpoint
        \<lparr>entry_coin = coin, DIRTY = True, FRESH = FRESH e \<or> fresh\<rparr> (cacheCoins c)\<rparr>))"

text \<open>The moved-out coin, or \<open>None\<close> when \<open>SpendCoin\<close> returns false.\<close>

definition SpendCoin :: "'b coins_view \<Rightarrow> 'b CCoinsViewCache \<Rightarrow> COutPoint \<Rightarrow> Coin option \<times> 'b CCoinsViewCache" where
  "SpendCoin view c outpoint = (case FetchCoin view c outpoint of
     (None, c') \<Rightarrow> (None, c')
   | (Some e, c') \<Rightarrow> (Some (entry_coin e), c' \<lparr>cacheCoins :=
       if FRESH e then AList.delete outpoint (cacheCoins c')
       else AList.update outpoint (e \<lparr>DIRTY := True, entry_coin := Coin_Clear\<rparr>) (cacheCoins c')\<rparr>))"

definition AccessCoin :: "'b coins_view \<Rightarrow> 'b CCoinsViewCache \<Rightarrow> COutPoint \<Rightarrow> Coin \<times> 'b CCoinsViewCache" where
  "AccessCoin view c outpoint = (case FetchCoin view c outpoint of
     (None, c') \<Rightarrow> (Coin_Clear, c') | (Some e, c') \<Rightarrow> (entry_coin e, c'))"

definition HaveCoin :: "'b coins_view \<Rightarrow> 'b CCoinsViewCache \<Rightarrow> COutPoint \<Rightarrow> bool \<times> 'b CCoinsViewCache" where
  "HaveCoin view c outpoint = (case FetchCoin view c outpoint of
     (None, c') \<Rightarrow> (False, c') | (Some e, c') \<Rightarrow> (\<not> Coin_IsSpent (entry_coin e), c'))"

definition HaveCoinInCache :: "'b CCoinsViewCache \<Rightarrow> COutPoint \<Rightarrow> bool" where
  "HaveCoinInCache c outpoint = (case map_of (cacheCoins c) outpoint of
     None \<Rightarrow> False | Some e \<Rightarrow> \<not> Coin_IsSpent (entry_coin e))"

definition Cache_GetBestBlock :: "'b coins_view \<Rightarrow> 'b CCoinsViewCache \<Rightarrow> uint256 \<times> 'b CCoinsViewCache" where
  "Cache_GetBestBlock view c = (if blob_IsNull (cache_hashBlock c)
     then case view_GetBestBlock view (cache_base c) of (h, b) \<Rightarrow> (h, c \<lparr>cache_base := b, cache_hashBlock := h\<rparr>)
     else (cache_hashBlock c, c))"

definition SetBestBlock :: "'b CCoinsViewCache \<Rightarrow> uint256 \<Rightarrow> 'b CCoinsViewCache" where
  "SetBestBlock c hashBlockIn = c \<lparr>cache_hashBlock := hashBlockIn\<rparr>"

definition batch_entry :: "CCoinsMap \<Rightarrow> COutPoint \<Rightarrow> CCoinsCacheEntry \<Rightarrow> coins_error + CCoinsMap" where
  "batch_entry cache outpoint it = (if DIRTY it then
     case map_of cache outpoint of
       None \<Rightarrow> if FRESH it \<and> Coin_IsSpent (entry_coin it) then Inr cache
         else Inr ((outpoint, \<lparr>entry_coin = entry_coin it, DIRTY = True, FRESH = FRESH it\<rparr>) # cache)
     | Some itUs \<Rightarrow>
         if FRESH it \<and> \<not> Coin_IsSpent (entry_coin itUs) then Inl Coin_logic_error
         else if FRESH itUs \<and> Coin_IsSpent (entry_coin it) then Inr (AList.delete outpoint cache)
         else Inr (AList.update outpoint (itUs \<lparr>entry_coin := entry_coin it, DIRTY := True\<rparr>) cache)
     else Inr cache)"

fun batch_loop :: "CCoinsMap \<Rightarrow> CCoinsMap \<Rightarrow> coins_error + CCoinsMap" where
  "batch_loop [] cache = Inr cache"
| "batch_loop ((outpoint, e) # it) cache = bindE (batch_entry cache outpoint e) (batch_loop it)"

definition BatchWrite :: "'b CCoinsViewCache \<Rightarrow> CCoinsMap \<Rightarrow> uint256 \<Rightarrow> coins_error + bool \<times> 'b CCoinsViewCache" where
  "BatchWrite c mapCoins hashBlockIn = bindE (batch_loop mapCoins (cacheCoins c)) (\<lambda>cache.
     Inr (True, c \<lparr>cacheCoins := cache, cache_hashBlock := hashBlockIn\<rparr>))"

definition Flush :: "'b coins_view \<Rightarrow> 'b CCoinsViewCache \<Rightarrow> coins_error + bool \<times> 'b CCoinsViewCache" where
  "Flush view c = bindE (view_BatchWrite view (cache_base c) (cacheCoins c) (cache_hashBlock c)) (\<lambda>(fOk, b).
     Inr (fOk, c \<lparr>cache_base := b, cacheCoins := []\<rparr>))"

definition Uncache :: "'b CCoinsViewCache \<Rightarrow> COutPoint \<Rightarrow> 'b CCoinsViewCache" where
  "Uncache c outpoint = (case map_of (cacheCoins c) outpoint of
     Some e \<Rightarrow> if \<not> DIRTY e \<and> \<not> FRESH e then c \<lparr>cacheCoins := AList.delete outpoint (cacheCoins c)\<rparr> else c
   | None \<Rightarrow> c)"

definition GetCacheSize :: "'b CCoinsViewCache \<Rightarrow> nat" where
  "GetCacheSize c = length (cacheCoins c)"

text \<open>The methods a cache offers to a cache above it.\<close>

definition cache_view :: "'b coins_view \<Rightarrow> 'b CCoinsViewCache coins_view" where
  "cache_view view = \<lparr>view_GetCoin = GetCoin view, view_GetBestBlock = Cache_GetBestBlock view, view_BatchWrite = BatchWrite\<rparr>"

subsection \<open>Transactions\<close>

fun AddCoins_loop :: "uint256 \<Rightarrow> int \<Rightarrow> bool \<Rightarrow> nat \<Rightarrow> CTxOut list \<Rightarrow> 'b CCoinsViewCache \<Rightarrow> coins_error + 'b CCoinsViewCache" where
  "AddCoins_loop txid nHeight fCoinbase i [] c = Inr c"
| "AddCoins_loop txid nHeight fCoinbase i (out # outs) c =
     bindE (AddCoin c \<lparr>op_hash = txid, op_n = of_nat i\<rparr> (Coin_of out nHeight fCoinbase) fCoinbase)
       (AddCoins_loop txid nHeight fCoinbase (Suc i) outs)"

definition AddCoins :: "'b CCoinsViewCache \<Rightarrow> CTransaction \<Rightarrow> int \<Rightarrow> coins_error + 'b CCoinsViewCache" where
  "AddCoins c tx nHeight = AddCoins_loop (tx_hash tx) nHeight (IsCoinBase tx) 0 (vout tx) c"

fun value_in_loop :: "'b coins_view \<Rightarrow> CTxIn list \<Rightarrow> CAmount \<Rightarrow> 'b CCoinsViewCache \<Rightarrow> CAmount \<times> 'b CCoinsViewCache" where
  "value_in_loop view [] nResult c = (nResult, c)"
| "value_in_loop view (txin # ins) nResult c = (case AccessCoin view c (prevout txin) of
     (coin, c') \<Rightarrow> value_in_loop view ins (int64 (nResult + nValue (coin_out coin))) c')"

definition GetValueIn :: "'b coins_view \<Rightarrow> 'b CCoinsViewCache \<Rightarrow> 'a CMutableTransaction_scheme \<Rightarrow> CAmount \<times> 'b CCoinsViewCache" where
  "GetValueIn view c tx = (if IsCoinBase tx then (0, c) else value_in_loop view (vin tx) 0 c)"

fun have_inputs_loop :: "'b coins_view \<Rightarrow> CTxIn list \<Rightarrow> 'b CCoinsViewCache \<Rightarrow> bool \<times> 'b CCoinsViewCache" where
  "have_inputs_loop view [] c = (True, c)"
| "have_inputs_loop view (txin # ins) c = (case HaveCoin view c (prevout txin) of
     (have, c') \<Rightarrow> if have then have_inputs_loop view ins c' else (False, c'))"

definition HaveInputs :: "'b coins_view \<Rightarrow> 'b CCoinsViewCache \<Rightarrow> 'a CMutableTransaction_scheme \<Rightarrow> bool \<times> 'b CCoinsViewCache" where
  "HaveInputs view c tx = (if IsCoinBase tx then (True, c) else have_inputs_loop view (vin tx) c)"

definition MAX_OUTPUTS_PER_BLOCK :: nat where
  "MAX_OUTPUTS_PER_BLOCK = MaxBlockSize True div length (Serialize_CTxOut CTxOut_SetNull)"

text \<open>The loop over the output numbers from \<open>n\<close> on, of which \<open>k\<close> are left.\<close>

fun by_txid_loop :: "'b coins_view \<Rightarrow> uint256 \<Rightarrow> nat \<Rightarrow> nat \<Rightarrow> 'b CCoinsViewCache \<Rightarrow> Coin \<times> 'b CCoinsViewCache" where
  "by_txid_loop view txid n 0 c = (Coin_Clear, c)"
| "by_txid_loop view txid n (Suc k) c = (case AccessCoin view c \<lparr>op_hash = txid, op_n = of_nat n\<rparr> of
     (alternate, c') \<Rightarrow> if \<not> Coin_IsSpent alternate then (alternate, c') else by_txid_loop view txid (Suc n) k c')"

definition AccessByTxid :: "'b coins_view \<Rightarrow> 'b CCoinsViewCache \<Rightarrow> uint256 \<Rightarrow> Coin \<times> 'b CCoinsViewCache" where
  "AccessByTxid view c txid = by_txid_loop view txid 0 MAX_OUTPUTS_PER_BLOCK c"

subsection \<open>What a view promises\<close>

definition coin_value :: "Coin \<Rightarrow> Coin option" where
  "coin_value c = (if Coin_IsSpent c then None else Some c)"

text \<open>The set of coins after the dirty entries of a map are written over it.\<close>

definition overlay :: "(COutPoint \<rightharpoonup> Coin) \<Rightarrow> CCoinsMap \<Rightarrow> COutPoint \<rightharpoonup> Coin" where
  "overlay u m p = (case map_of m p of Some e \<Rightarrow> if DIRTY e then coin_value (entry_coin e) else u p | None \<Rightarrow> u p)"

definition entry_ok :: "(COutPoint \<rightharpoonup> Coin) \<Rightarrow> COutPoint \<Rightarrow> CCoinsCacheEntry \<Rightarrow> bool" where
  "entry_ok u p e \<longleftrightarrow> (FRESH e \<longrightarrow> u p = None) \<and> (\<not> DIRTY e \<longrightarrow> coin_value (entry_coin e) = u p)"

definition entries_ok :: "(COutPoint \<rightharpoonup> Coin) \<Rightarrow> CCoinsMap \<Rightarrow> bool" where
  "entries_ok u m \<longleftrightarrow> distinct (map fst m) \<and> (\<forall>p e. map_of m p = Some e \<longrightarrow> entry_ok u p e)"

locale coins_view_laws =
  fixes view :: "'b coins_view" and view_ok :: "'b \<Rightarrow> bool" and utxo :: "'b \<Rightarrow> COutPoint \<rightharpoonup> Coin" and best :: "'b \<Rightarrow> uint256"
  assumes get_coin: "view_ok v \<Longrightarrow> \<exists>v'. view_GetCoin view v p = (utxo v p, v') \<and> view_ok v' \<and> utxo v' = utxo v \<and> best v' = best v"
    and get_best: "view_ok v \<Longrightarrow> \<exists>v'. view_GetBestBlock view v = (best v, v') \<and> view_ok v' \<and> utxo v' = utxo v \<and> best v' = best v"
    and unspent: "view_ok v \<Longrightarrow> utxo v p = Some c \<Longrightarrow> \<not> Coin_IsSpent c"
    and batch_write: "view_ok v \<Longrightarrow> entries_ok (utxo v) m \<Longrightarrow>
      \<exists>v'. view_BatchWrite view v m h = Inr (True, v') \<and> view_ok v' \<and> utxo v' = overlay (utxo v) m \<and> (\<not> blob_IsNull h \<longrightarrow> best v' = h)"

subsection \<open>The abstraction of a cache\<close>

text \<open>The coins that a cache with the entries \<open>m\<close> over the coins \<open>u\<close> shows.\<close>

definition shown :: "(COutPoint \<rightharpoonup> Coin) \<Rightarrow> CCoinsMap \<Rightarrow> COutPoint \<rightharpoonup> Coin" where
  "shown u m p = (case map_of m p of Some e \<Rightarrow> coin_value (entry_coin e) | None \<Rightarrow> u p)"

definition cache_utxo :: "('b \<Rightarrow> COutPoint \<rightharpoonup> Coin) \<Rightarrow> 'b CCoinsViewCache \<Rightarrow> COutPoint \<rightharpoonup> Coin" where
  "cache_utxo utxo c = shown (utxo (cache_base c)) (cacheCoins c)"

definition cache_inv :: "('b \<Rightarrow> bool) \<Rightarrow> ('b \<Rightarrow> COutPoint \<rightharpoonup> Coin) \<Rightarrow> 'b CCoinsViewCache \<Rightarrow> bool" where
  "cache_inv view_ok utxo c \<longleftrightarrow> view_ok (cache_base c) \<and> entries_ok (utxo (cache_base c)) (cacheCoins c)"

definition cache_best :: "('b \<Rightarrow> uint256) \<Rightarrow> 'b CCoinsViewCache \<Rightarrow> uint256" where
  "cache_best best c = (if blob_IsNull (cache_hashBlock c) then best (cache_base c) else cache_hashBlock c)"

text \<open>A well-formed cache that shows the coins \<open>u\<close> and the best block \<open>h\<close>.\<close>

definition cache_shows :: "('b \<Rightarrow> bool) \<Rightarrow> ('b \<Rightarrow> COutPoint \<rightharpoonup> Coin) \<Rightarrow> ('b \<Rightarrow> uint256) \<Rightarrow> (COutPoint \<rightharpoonup> Coin) \<Rightarrow> uint256 \<Rightarrow> 'b CCoinsViewCache \<Rightarrow> bool" where
  "cache_shows view_ok utxo best u h c \<longleftrightarrow> cache_inv view_ok utxo c \<and> cache_utxo utxo c = u \<and> cache_best best c = h"

lemma coin_value_simps [simp]:
  "Coin_IsSpent c \<Longrightarrow> coin_value c = None" "\<not> Coin_IsSpent c \<Longrightarrow> coin_value c = Some c" "coin_value Coin_Clear = None"
  by (simp_all add: coin_value_def Coin_Clear_def Coin_IsSpent_def CTxOut_IsNull_def CTxOut_SetNull_def)

lemma Coin_Clear_spent [simp]: "Coin_IsSpent Coin_Clear"
  by (simp add: Coin_Clear_def Coin_IsSpent_def CTxOut_IsNull_def CTxOut_SetNull_def)

lemma coin_value_None [simp]: "coin_value c = None \<longleftrightarrow> Coin_IsSpent c"
  by (simp add: coin_value_def)

lemma coin_value_Some: "coin_value c = Some d \<longleftrightarrow> d = c \<and> \<not> Coin_IsSpent c"
  by (auto simp: coin_value_def)

lemma shown_update [simp]: "shown u (AList.update p e m) = (shown u m)(p := coin_value (entry_coin e))"
  by (auto simp: shown_def update_conv' fun_eq_iff)

lemma shown_delete [simp]: "shown u (AList.delete p m) = (shown u m)(p := u p)"
  by (auto simp: shown_def delete_conv' fun_eq_iff)

lemma shown_Cons [simp]: "shown u ((p, e) # m) = (shown u m)(p := coin_value (entry_coin e))"
  by (auto simp: shown_def fun_eq_iff)

lemma shown_fetch: "map_of m p = None \<Longrightarrow> (shown u m)(p := u p) = shown u m"
  by (auto simp: shown_def fun_eq_iff)

lemma entries_ok_update: "entries_ok u m \<Longrightarrow> entry_ok u p e \<Longrightarrow> entries_ok u (AList.update p e m)"
  by (auto simp: entries_ok_def update_conv' distinct_update split: if_splits)

lemma entries_ok_delete: "entries_ok u m \<Longrightarrow> entries_ok u (AList.delete p m)"
  by (auto simp: entries_ok_def delete_conv' distinct_delete split: if_splits)

lemma entries_ok_Cons: "entries_ok u m \<Longrightarrow> map_of m p = None \<Longrightarrow> entry_ok u p e \<Longrightarrow> entries_ok u ((p, e) # m)"
  by (auto simp: entries_ok_def map_of_eq_None_iff)

lemma entries_okD: "entries_ok u m \<Longrightarrow> map_of m p = Some e \<Longrightarrow> entry_ok u p e"
  by (simp add: entries_ok_def)

text \<open>An entry that is not in the map, and one that is not dirty, show what is below.\<close>

lemma shown_clean: "entries_ok u m \<Longrightarrow> map_of m p = None \<or> (\<exists>e. map_of m p = Some e \<and> \<not> DIRTY e) \<Longrightarrow> shown u m p = u p"
  by (auto simp: shown_def entries_ok_def entry_ok_def)

lemma shown_overlay: "entries_ok u m \<Longrightarrow> shown u m = overlay u m"
  by (auto simp: shown_def overlay_def entries_ok_def entry_ok_def fun_eq_iff split: option.splits)

lemma batch_entry_ok:
  assumes "entries_ok u m" "entry_ok (shown u m) p e"
  shows "\<exists>m'. batch_entry m p e = Inr m' \<and> entries_ok u m' \<and>
    shown u m' = (if DIRTY e then (shown u m)(p := coin_value (entry_coin e)) else shown u m)"
proof (cases "DIRTY e")
  case True
  show ?thesis
  proof (cases "map_of m p")
    case None
    then have up: "shown u m p = u p" by (simp add: shown_def)
    then have "FRESH e \<longrightarrow> u p = None" using assms(2) by (simp add: entry_ok_def)
    then show ?thesis using True None assms(1) up
      by (auto simp: batch_entry_def entry_ok_def fun_eq_iff intro!: entries_ok_Cons)
  next
    case (Some us)
    have us: "entry_ok u p us" using entries_okD [OF assms(1) Some] .
    have "\<not> (FRESH e \<and> \<not> Coin_IsSpent (entry_coin us))"
      using assms(2) Some by (auto simp: entry_ok_def shown_def)
    then show ?thesis using True Some assms(1) us
      by (auto simp: batch_entry_def entry_ok_def fun_eq_iff intro!: entries_ok_update entries_ok_delete)
  qed
qed (simp add: batch_entry_def assms)

lemma overlay_Cons:
  "map_of m p = None \<Longrightarrow> overlay u ((p, e) # m) = overlay (if DIRTY e then u(p := coin_value (entry_coin e)) else u) m"
  by (auto simp: overlay_def fun_eq_iff split: option.splits)

lemma entries_ok_rest:
  "entries_ok u ((p, e) # m) \<Longrightarrow> entries_ok (if DIRTY e then u(p := v) else u) m \<and> map_of m p = None \<and> entry_ok u p e"
  by (auto simp: entries_ok_def entry_ok_def map_of_eq_None_iff dest: map_of_SomeD split: if_splits) (metis fst_conv image_eqI map_of_SomeD)+

lemma batch_loop_ok:
  assumes "entries_ok u m" "entries_ok (shown u m) n"
  shows "\<exists>m'. batch_loop n m = Inr m' \<and> entries_ok u m' \<and> shown u m' = overlay (shown u m) n"
  using assms
proof (induction n arbitrary: m)
  case Nil
  then show ?case by (auto simp: overlay_def)
next
  case (Cons pe n)
  obtain p e where pe: "pe = (p, e)" by (cases pe)
  from Cons.prems(2) have r: "entries_ok (if DIRTY e then (shown u m)(p := coin_value (entry_coin e)) else shown u m) n"
    "map_of n p = None" "entry_ok (shown u m) p e"
    using entries_ok_rest unfolding pe by blast+
  from batch_entry_ok [OF Cons.prems(1) r(3)] obtain m1 where m1: "batch_entry m p e = Inr m1" "entries_ok u m1"
    "shown u m1 = (if DIRTY e then (shown u m)(p := coin_value (entry_coin e)) else shown u m)" by blast
  from Cons.IH [OF m1(2)] r(1) m1(3) show ?case
    using m1 r(2) by (simp add: pe overlay_Cons)
qed

context coins_view_laws
begin

lemma FetchCoin_ok:
  assumes "cache_inv view_ok utxo c"
  shows "\<exists>c'. FetchCoin view c p = (map_of (cacheCoins c') p, c') \<and> cache_inv view_ok utxo c' \<and>
    cache_utxo utxo c' = cache_utxo utxo c \<and> cache_best best c' = cache_best best c \<and>
    (map_of (cacheCoins c') p = None \<longrightarrow> utxo (cache_base c') p = None)"
proof (cases "map_of (cacheCoins c) p")
  case (Some e)
  then show ?thesis using assms by (auto simp: FetchCoin_def)
next
  case None
  have ok: "view_ok (cache_base c)" "entries_ok (utxo (cache_base c)) (cacheCoins c)"
    using assms by (simp_all add: cache_inv_def)
  from get_coin [OF ok(1), of p] obtain b where b: "view_GetCoin view (cache_base c) p = (utxo (cache_base c) p, b)"
    "view_ok b" "utxo b = utxo (cache_base c)" "best b = best (cache_base c)" by blast
  show ?thesis
  proof (cases "utxo (cache_base c) p")
    case None
    then show ?thesis using b ok \<open>map_of (cacheCoins c) p = None\<close>
      by (auto simp: FetchCoin_def cache_inv_def cache_utxo_def cache_best_def)
  next
    case (Some tmp)
    then have "\<not> Coin_IsSpent tmp" using unspent [OF ok(1)] by blast
    then show ?thesis using b ok Some \<open>map_of (cacheCoins c) p = None\<close> shown_fetch [of "cacheCoins c" p "utxo (cache_base c)"]
      by (auto simp: FetchCoin_def cache_inv_def cache_utxo_def cache_best_def CCoinsCacheEntry_of_def entry_ok_def
          Let_def intro!: entries_ok_Cons)
  qed
qed

lemma FetchCoinE:
  assumes "cache_inv view_ok utxo c"
  obtains c' where "FetchCoin view c p = (map_of (cacheCoins c') p, c')" "cache_inv view_ok utxo c'"
    "cache_utxo utxo c' = cache_utxo utxo c" "cache_best best c' = cache_best best c"
    "map_of (cacheCoins c') p = None \<longrightarrow> utxo (cache_base c') p = None"
  using FetchCoin_ok [OF assms, of p] by (elim exE conjE) (rule that)

lemma GetCoin_ok:
  assumes "cache_inv view_ok utxo c"
  shows "\<exists>c'. GetCoin view c p = (cache_utxo utxo c p, c') \<and> cache_inv view_ok utxo c' \<and>
    cache_utxo utxo c' = cache_utxo utxo c \<and> cache_best best c' = cache_best best c"
proof -
  obtain c' where c': "FetchCoin view c p = (map_of (cacheCoins c') p, c')"
    "cache_inv view_ok utxo c'" "cache_utxo utxo c' = cache_utxo utxo c" "cache_best best c' = cache_best best c"
    "map_of (cacheCoins c') p = None \<longrightarrow> utxo (cache_base c') p = None" by (rule FetchCoinE [OF assms])
  have "cache_utxo utxo c p = cache_utxo utxo c' p" using c'(3) by simp
  then have "GetCoin view c p = (cache_utxo utxo c p, c')" using c'(1,5)
    by (auto simp: GetCoin_def cache_utxo_def shown_def coin_value_def split: option.splits)
  then show ?thesis using c' by blast
qed

lemma HaveCoin_ok:
  assumes "cache_inv view_ok utxo c"
  shows "\<exists>c'. HaveCoin view c p = (cache_utxo utxo c p \<noteq> None, c') \<and> cache_inv view_ok utxo c' \<and>
    cache_utxo utxo c' = cache_utxo utxo c \<and> cache_best best c' = cache_best best c"
proof -
  have "HaveCoin view c p = (case GetCoin view c p of (r, c') \<Rightarrow> (r \<noteq> None, c'))"
    by (simp add: HaveCoin_def GetCoin_def split: prod.splits option.splits)
  then show ?thesis using GetCoin_ok [OF assms, of p] by force
qed

lemma AccessCoin_ok:
  assumes "cache_inv view_ok utxo c"
  shows "\<exists>c' coin. AccessCoin view c p = (coin, c') \<and> coin_value coin = cache_utxo utxo c p \<and> cache_inv view_ok utxo c' \<and>
    cache_utxo utxo c' = cache_utxo utxo c \<and> cache_best best c' = cache_best best c"
proof -
  obtain c' where c': "FetchCoin view c p = (map_of (cacheCoins c') p, c')"
    "cache_inv view_ok utxo c'" "cache_utxo utxo c' = cache_utxo utxo c" "cache_best best c' = cache_best best c"
    "map_of (cacheCoins c') p = None \<longrightarrow> utxo (cache_base c') p = None" by (rule FetchCoinE [OF assms])
  have "cache_utxo utxo c p = cache_utxo utxo c' p" using c'(3) by simp
  then show ?thesis using c'
    by (cases "map_of (cacheCoins c') p") (auto simp: AccessCoin_def cache_utxo_def shown_def)
qed

lemma SpendCoin_ok:
  assumes "cache_inv view_ok utxo c"
  shows "\<exists>r c'. SpendCoin view c p = (r, c') \<and> (cache_utxo utxo c p = None \<or> r = cache_utxo utxo c p) \<and> cache_inv view_ok utxo c' \<and>
    cache_utxo utxo c' = (cache_utxo utxo c)(p := None) \<and> cache_best best c' = cache_best best c"
proof -
  obtain c' where c': "FetchCoin view c p = (map_of (cacheCoins c') p, c')"
    "cache_inv view_ok utxo c'" "cache_utxo utxo c' = cache_utxo utxo c" "cache_best best c' = cache_best best c"
    "map_of (cacheCoins c') p = None \<longrightarrow> utxo (cache_base c') p = None" by (rule FetchCoinE [OF assms])
  have eq: "cache_utxo utxo c = cache_utxo utxo c'" using c'(3) by simp
  show ?thesis
  proof (cases "map_of (cacheCoins c') p")
    case None
    then have "cache_utxo utxo c' p = None" using c'(5) by (simp add: cache_utxo_def shown_def)
    then show ?thesis using c' None by (simp add: SpendCoin_def fun_upd_idem)
  next
    case (Some e)
    define c2 where "c2 = c' \<lparr>cacheCoins := if FRESH e then AList.delete p (cacheCoins c')
       else AList.update p (e \<lparr>DIRTY := True, entry_coin := Coin_Clear\<rparr>) (cacheCoins c')\<rparr>"
    have e: "entry_ok (utxo (cache_base c')) p e" using c'(2) Some by (auto simp: cache_inv_def dest: entries_okD)
    have "SpendCoin view c p = (Some (entry_coin e), c2)" using c'(1) Some by (simp add: SpendCoin_def c2_def)
    moreover have "cache_utxo utxo c p = None \<or> Some (entry_coin e) = cache_utxo utxo c p"
    proof -
      have "cache_utxo utxo c' p = coin_value (entry_coin e)" using Some by (simp add: cache_utxo_def shown_def)
      then show ?thesis by (simp add: eq coin_value_def)
    qed
    moreover have "cache_inv view_ok utxo c2"
      using c'(2) e by (auto simp: c2_def cache_inv_def entry_ok_def intro!: entries_ok_update entries_ok_delete)
    moreover have "cache_utxo utxo c2 = (cache_utxo utxo c)(p := None)"
      unfolding eq using e by (simp add: c2_def cache_utxo_def entry_ok_def)
    moreover have "cache_best best c2 = cache_best best c'" by (simp add: c2_def cache_best_def)
    ultimately show ?thesis using c'(4) by metis
  qed
qed

lemma SpendCoin_value:
  assumes "cache_inv view_ok utxo c" "SpendCoin view c p = (r, c')"
  shows "case r of None \<Rightarrow> cache_utxo utxo c p = None | Some coin \<Rightarrow> coin_value coin = cache_utxo utxo c p"
proof -
  obtain c1 where c1: "FetchCoin view c p = (map_of (cacheCoins c1) p, c1)" "cache_utxo utxo c1 = cache_utxo utxo c"
    "map_of (cacheCoins c1) p = None \<longrightarrow> utxo (cache_base c1) p = None" by (rule FetchCoinE [OF assms(1)])
  have "cache_utxo utxo c p = cache_utxo utxo c1 p" using c1(2) by simp
  then show ?thesis using assms(2) c1(1,3)
    by (cases "map_of (cacheCoins c1) p") (auto simp: SpendCoin_def cache_utxo_def shown_def)
qed

lemma AddCoin_ok:
  assumes "cache_inv view_ok utxo c" "\<not> Coin_IsSpent coin" "overwrite \<or> cache_utxo utxo c p = None"
  shows "\<exists>c'. AddCoin c p coin overwrite = Inr c' \<and> cache_inv view_ok utxo c' \<and> cache_best best c' = cache_best best c \<and>
    cache_utxo utxo c' = (if IsUnspendable (scriptPubKey (coin_out coin)) then cache_utxo utxo c else (cache_utxo utxo c)(p \<mapsto> coin))"
proof (cases "IsUnspendable (scriptPubKey (coin_out coin))")
  case False
  have ok: "entries_ok (utxo (cache_base c)) (cacheCoins c)" using assms(1) by (simp add: cache_inv_def)
  show ?thesis
  proof (cases "map_of (cacheCoins c) p")
    case None
    then have "cache_utxo utxo c p = utxo (cache_base c) p" by (simp add: cache_utxo_def shown_def)
    then show ?thesis using assms False None ok
      by (auto simp: AddCoin_def cache_inv_def cache_utxo_def cache_best_def CCoinsCacheEntry_of_def entry_ok_def Let_def
          intro!: entries_ok_update)
  next
    case (Some e)
    then have e: "entry_ok (utxo (cache_base c)) p e" using entries_okD [OF ok] by blast
    moreover have "cache_utxo utxo c p = coin_value (entry_coin e)" using Some by (simp add: cache_utxo_def shown_def)
    ultimately show ?thesis using assms False Some ok
      by (auto simp: AddCoin_def cache_inv_def cache_utxo_def cache_best_def entry_ok_def Let_def coin_value_def
          intro!: entries_ok_update split: if_splits)
  qed
qed (use assms in \<open>simp add: AddCoin_def\<close>)

lemma Uncache_ok:
  assumes "cache_inv view_ok utxo c"
  shows "cache_inv view_ok utxo (Uncache c p) \<and> cache_utxo utxo (Uncache c p) = cache_utxo utxo c"
proof (cases "map_of (cacheCoins c) p")
  case (Some e)
  then have "entry_ok (utxo (cache_base c)) p e" using assms by (auto simp: cache_inv_def dest: entries_okD)
  then show ?thesis using assms Some
    by (auto simp: Uncache_def cache_inv_def cache_utxo_def entry_ok_def shown_def [of _ _ p] fun_eq_iff intro!: entries_ok_delete)
qed (use assms in \<open>simp add: Uncache_def\<close>)

lemma cache_best_ok:
  assumes "cache_inv view_ok utxo c"
  shows "cache_best best (Uncache c p) = cache_best best c"
    "\<exists>c'. Cache_GetBestBlock view c = (cache_best best c, c') \<and> cache_inv view_ok utxo c' \<and>
      cache_utxo utxo c' = cache_utxo utxo c \<and> cache_best best c' = cache_best best c"
proof -
  show "cache_best best (Uncache c p) = cache_best best c" by (simp add: Uncache_def cache_best_def split: option.split)
  show "\<exists>c'. Cache_GetBestBlock view c = (cache_best best c, c') \<and> cache_inv view_ok utxo c' \<and>
      cache_utxo utxo c' = cache_utxo utxo c \<and> cache_best best c' = cache_best best c"
    using get_best [of "cache_base c"] assms
    by (auto simp: Cache_GetBestBlock_def cache_best_def cache_inv_def cache_utxo_def)
qed

lemma Flush_ok:
  assumes "cache_inv view_ok utxo c"
  shows "\<exists>c'. Flush view c = Inr (True, c') \<and> cache_inv view_ok utxo c' \<and> cacheCoins c' = [] \<and>
    utxo (cache_base c') = cache_utxo utxo c \<and> cache_utxo utxo c' = cache_utxo utxo c \<and>
    (\<not> blob_IsNull (cache_hashBlock c) \<longrightarrow> best (cache_base c') = cache_hashBlock c)"
proof -
  have ok: "view_ok (cache_base c)" "entries_ok (utxo (cache_base c)) (cacheCoins c)"
    using assms by (simp_all add: cache_inv_def)
  from batch_write [OF ok, of "cache_hashBlock c"] obtain b where
    "view_BatchWrite view (cache_base c) (cacheCoins c) (cache_hashBlock c) = Inr (True, b)" "view_ok b"
    "utxo b = overlay (utxo (cache_base c)) (cacheCoins c)" "\<not> blob_IsNull (cache_hashBlock c) \<longrightarrow> best b = cache_hashBlock c" by blast
  then show ?thesis using shown_overlay [OF ok(2)]
    by (auto simp: Flush_def cache_inv_def cache_utxo_def entries_ok_def shown_def [of _ "[]"])
qed

lemma cache_refines:
  assumes "cache_inv view_ok utxo c"
  shows "(\<exists>c'. GetCoin view c p = (cache_utxo utxo c p, c') \<and> cache_shows view_ok utxo best (cache_utxo utxo c) (cache_best best c) c')"
    "(\<exists>c'. HaveCoin view c p = (cache_utxo utxo c p \<noteq> None, c') \<and> cache_shows view_ok utxo best (cache_utxo utxo c) (cache_best best c) c')"
    "(\<exists>coin' c'. AccessCoin view c p = (coin', c') \<and> coin_value coin' = cache_utxo utxo c p \<and>
      cache_shows view_ok utxo best (cache_utxo utxo c) (cache_best best c) c')"
    "(\<exists>c'. Cache_GetBestBlock view c = (cache_best best c, c') \<and> cache_shows view_ok utxo best (cache_utxo utxo c) (cache_best best c) c')"
    "cache_shows view_ok utxo best (cache_utxo utxo c) (cache_best best c) (Uncache c p)"
    "(\<exists>r c'. SpendCoin view c p = (r, c') \<and> (case r of None \<Rightarrow> cache_utxo utxo c p = None | Some coin' \<Rightarrow> coin_value coin' = cache_utxo utxo c p) \<and>
      cache_shows view_ok utxo best ((cache_utxo utxo c)(p := None)) (cache_best best c) c')"
    "Coin_IsSpent coin \<longrightarrow> AddCoin c p coin overwrite = Inl Coin_assert"
    "\<not> Coin_IsSpent coin \<and> (overwrite \<or> cache_utxo utxo c p = None) \<longrightarrow> (\<exists>c'. AddCoin c p coin overwrite = Inr c' \<and>
      cache_shows view_ok utxo best (if IsUnspendable (scriptPubKey (coin_out coin)) then cache_utxo utxo c else (cache_utxo utxo c)(p \<mapsto> coin)) (cache_best best c) c')"
    "\<not> blob_IsNull hash \<longrightarrow> cache_shows view_ok utxo best (cache_utxo utxo c) hash (SetBestBlock c hash)"
    "\<exists>c'. Flush view c = Inr (True, c') \<and> cacheCoins c' = [] \<and> cache_inv view_ok utxo c' \<and> utxo (cache_base c') = cache_utxo utxo c \<and>
      cache_utxo utxo c' = cache_utxo utxo c"
  unfolding cache_shows_def
  subgoal using GetCoin_ok [OF assms, of p] by blast
  subgoal using HaveCoin_ok [OF assms, of p] by blast
  subgoal using AccessCoin_ok [OF assms, of p] by blast
  subgoal using cache_best_ok(2) [OF assms] by blast
  subgoal using Uncache_ok [OF assms, of p] cache_best_ok(1) [OF assms] by blast
  subgoal using SpendCoin_ok [OF assms, of p] SpendCoin_value [OF assms, of p] by metis
  subgoal by (simp add: AddCoin_def)
  subgoal using AddCoin_ok [OF assms, of coin overwrite p] by meson
  subgoal using assms by (simp add: SetBestBlock_def cache_inv_def cache_utxo_def cache_best_def)
  subgoal using Flush_ok [OF assms] by blast
  done

lemma cache_is_view: "coins_view_laws (cache_view view) (cache_inv view_ok utxo) (cache_utxo utxo) (cache_best best)"
proof
  fix c p
  assume inv: "cache_inv view_ok utxo c"
  show "\<exists>c'. view_GetCoin (cache_view view) c p = (cache_utxo utxo c p, c') \<and> cache_inv view_ok utxo c' \<and>
      cache_utxo utxo c' = cache_utxo utxo c \<and> cache_best best c' = cache_best best c"
    using GetCoin_ok [OF inv] by (simp add: cache_view_def)
  show "\<exists>c'. view_GetBestBlock (cache_view view) c = (cache_best best c, c') \<and> cache_inv view_ok utxo c' \<and>
      cache_utxo utxo c' = cache_utxo utxo c \<and> cache_best best c' = cache_best best c"
    using get_best [of "cache_base c"] inv
    by (auto simp: cache_view_def Cache_GetBestBlock_def cache_best_def cache_inv_def cache_utxo_def)
  show "\<not> Coin_IsSpent coin" if "cache_utxo utxo c p = Some coin" for coin
    using that inv unspent [of "cache_base c" p]
    by (auto simp: cache_utxo_def shown_def cache_inv_def coin_value_Some split: option.splits)
  fix m h
  assume m: "entries_ok (cache_utxo utxo c) m"
  then obtain m' where "batch_loop m (cacheCoins c) = Inr m'" "entries_ok (utxo (cache_base c)) m'"
    "shown (utxo (cache_base c)) m' = overlay (cache_utxo utxo c) m"
    using batch_loop_ok [of "utxo (cache_base c)" "cacheCoins c" m] inv by (auto simp: cache_utxo_def cache_inv_def)
  then show "\<exists>c'. view_BatchWrite (cache_view view) c m h = Inr (True, c') \<and> cache_inv view_ok utxo c' \<and>
      cache_utxo utxo c' = overlay (cache_utxo utxo c) m \<and> (\<not> blob_IsNull h \<longrightarrow> cache_best best c' = h)"
    using inv by (auto simp: cache_view_def BatchWrite_def cache_inv_def cache_utxo_def cache_best_def)
qed

end

subsection \<open>The database and the caches over it\<close>

definition db_ok :: "coins_db \<Rightarrow> bool" where
  "db_ok db \<longleftrightarrow> (\<forall>p c. db_coins db p = Some c \<longrightarrow> \<not> Coin_IsSpent c)"

definition db_best_block :: "coins_db \<Rightarrow> uint256" where
  "db_best_block db = (case db_best db of None \<Rightarrow> replicate 32 0 | Some h \<Rightarrow> h)"

lemma CCoinsViewDB_batch_overlay: "distinct (map fst m) \<Longrightarrow> CCoinsViewDB_batch m u = overlay u m"
proof (induction m arbitrary: u)
  case Nil
  then show ?case by (auto simp: overlay_def)
next
  case (Cons pe m)
  obtain p e where pe: "pe = (p, e)" by (cases pe)
  then have "map_of m p = None" using Cons.prems by (simp add: map_of_eq_None_iff)
  moreover have "(if DIRTY e then if Coin_IsSpent (entry_coin e) then u(p := None) else u(p \<mapsto> entry_coin e) else u) =
      (if DIRTY e then u(p := coin_value (entry_coin e)) else u)" by simp
  ultimately show ?case using Cons pe by (simp add: overlay_Cons)
qed

interpretation db: coins_view_laws CCoinsViewDB db_ok db_coins db_best_block
proof
  show "\<exists>v'. view_GetCoin CCoinsViewDB v p = (db_coins v p, v') \<and> db_ok v' \<and> db_coins v' = db_coins v \<and> db_best_block v' = db_best_block v"
    if "db_ok v" for v p
    using that by (simp add: CCoinsViewDB_def CCoinsViewDB_GetCoin_def)
  show "\<exists>v'. view_GetBestBlock CCoinsViewDB v = (db_best_block v, v') \<and> db_ok v' \<and> db_coins v' = db_coins v \<and> db_best_block v' = db_best_block v"
    if "db_ok v" for v
    using that by (simp add: CCoinsViewDB_def CCoinsViewDB_GetBestBlock_def db_best_block_def split: option.splits)
  show "\<not> Coin_IsSpent c" if "db_ok v" "db_coins v p = Some c" for v p c
    using that by (simp add: db_ok_def)
  show "\<exists>v'. view_BatchWrite CCoinsViewDB v m h = Inr (True, v') \<and> db_ok v' \<and> db_coins v' = overlay (db_coins v) m \<and>
      (\<not> blob_IsNull h \<longrightarrow> db_best_block v' = h)"
    if "db_ok v" "entries_ok (db_coins v) m" for v m h
    using that by (auto simp: CCoinsViewDB_def CCoinsViewDB_BatchWrite_def CCoinsViewDB_batch_overlay entries_ok_def db_best_block_def
        db_ok_def overlay_def coin_value_Some split: option.splits if_splits)
qed

text \<open>The cache of the tip over the database, \<open>pcoinsTip\<close> over \<open>pcoinsdbview\<close>, as a view of its own.\<close>

definition tip_view :: "coins_db CCoinsViewCache coins_view" where
  "tip_view = cache_view CCoinsViewDB"

definition tip_ok :: "coins_db CCoinsViewCache \<Rightarrow> bool" where
  "tip_ok = cache_inv db_ok db_coins"

definition tip_coins :: "coins_db CCoinsViewCache \<Rightarrow> COutPoint \<rightharpoonup> Coin" where
  "tip_coins = cache_utxo db_coins"

definition tip_best :: "coins_db CCoinsViewCache \<Rightarrow> uint256" where
  "tip_best = cache_best db_best_block"

interpretation tip: coins_view_laws tip_view tip_ok tip_coins tip_best
  unfolding tip_view_def tip_ok_def tip_coins_def tip_best_def by (rule db.cache_is_view)

text \<open>The cache \<open>ConnectTip\<close> and \<open>DisconnectTip\<close> put over the cache of the tip.\<close>

type_synonym block_cache = "coins_db CCoinsViewCache CCoinsViewCache"

definition block_ok :: "block_cache \<Rightarrow> bool" where
  "block_ok = cache_inv tip_ok tip_coins"

definition block_coins :: "block_cache \<Rightarrow> COutPoint \<rightharpoonup> Coin" where
  "block_coins = cache_utxo tip_coins"

definition block_best :: "block_cache \<Rightarrow> uint256" where
  "block_best = cache_best tip_best"

lemma SetBestBlock_inv:
  "cache_inv ok utxo (SetBestBlock c h) = cache_inv ok utxo c" "cache_utxo utxo (SetBestBlock c h) = cache_utxo utxo c"
  "cache_hashBlock (SetBestBlock c h) = h" "cache_base (SetBestBlock c h) = cache_base c"
  by (simp_all add: SetBestBlock_def cache_inv_def cache_utxo_def)

lemma cache_of_inv: "ok b \<Longrightarrow> cache_inv ok utxo (CCoinsViewCache_of b)" "cache_utxo utxo (CCoinsViewCache_of b) = utxo b"
  by (simp_all add: cache_inv_def cache_utxo_def CCoinsViewCache_of_def entries_ok_def shown_def fun_eq_iff)

lemma cache_inv_base: "cache_inv ok utxo c \<Longrightarrow> ok (cache_base c)"
  by (simp add: cache_inv_def)

lemma block_invI: "db_ok db \<Longrightarrow> block_ok (CCoinsViewCache_of (CCoinsViewCache_of db))"
  unfolding block_ok_def tip_ok_def by (intro cache_of_inv)

lemma SetBestBlock_block: "block_ok (SetBestBlock c h) = block_ok c" "block_coins (SetBestBlock c h) = block_coins c"
  unfolding block_ok_def block_coins_def by (rule SetBestBlock_inv)+

lemma cache_base_update: "cache_base (c \<lparr>cache_base := b, cacheCoins := m\<rparr>) = b"
  by simp

lemma Flush_cache_view_hash: "Flush (cache_view view) c = Inr (True, c') \<Longrightarrow> cache_hashBlock (cache_base c') = cache_hashBlock c"
proof -
  assume "Flush (cache_view view) c = Inr (True, c')"
  then obtain x b where "c' = c \<lparr>cache_base := b, cacheCoins := []\<rparr>" "b = cache_base c \<lparr>cacheCoins := x, cache_hashBlock := cache_hashBlock c\<rparr>"
    by (auto simp: Flush_def cache_view_def BatchWrite_def bindE_eq_Inr)
  then show ?thesis by (simp add: cache_base_update)
qed

lemma Flush_both:
  assumes "block_ok c" "\<not> blob_IsNull (cache_hashBlock c)"
  shows "\<exists>c1 c2. Flush tip_view c = Inr (True, c1) \<and> Flush CCoinsViewDB (cache_base c1) = Inr (True, c2) \<and>
    db_coins (cache_base c2) = block_coins c \<and> db_best_block (cache_base c2) = cache_hashBlock c \<and> db_ok (cache_base c2)"
proof -
  obtain c1 where c1: "Flush tip_view c = Inr (True, c1)" "cache_inv tip_ok tip_coins c1" "tip_coins (cache_base c1) = block_coins c"
    using tip.Flush_ok [of c] assms(1) unfolding block_ok_def block_coins_def by blast
  have b: "cache_inv db_ok db_coins (cache_base c1)" using c1(2) unfolding tip_ok_def by (rule cache_inv_base)
  have h: "cache_hashBlock (cache_base c1) = cache_hashBlock c"
    using Flush_cache_view_hash c1(1) unfolding tip_view_def .
  from db.Flush_ok [OF b] obtain c2 where "Flush CCoinsViewDB (cache_base c1) = Inr (True, c2)" "cache_inv db_ok db_coins c2"
    "db_coins (cache_base c2) = cache_utxo db_coins (cache_base c1)"
    "\<not> blob_IsNull (cache_hashBlock (cache_base c1)) \<longrightarrow> db_best_block (cache_base c2) = cache_hashBlock (cache_base c1)" by blast
  then show ?thesis using c1 h assms(2) by (auto simp: tip_coins_def cache_inv_def)
qed

text \<open>Example: a database with one coin and the stack of caches over it.\<close>

definition demo_point :: COutPoint where
  "demo_point = \<lparr>op_hash = replicate 32 7, op_n = 5\<rparr>"

definition demo_coin :: Coin where
  "demo_coin = Coin_of \<lparr>nValue = 50 * COIN, scriptPubKey = [81], nRounds = - 10\<rparr> 1 False"

definition demo_cache :: block_cache where
  "demo_cache = SetBestBlock (CCoinsViewCache_of (CCoinsViewCache_of \<lparr>db_coins = [demo_point \<mapsto> demo_coin], db_best = None\<rparr>)) (replicate 32 1)"

lemma demo_coin_unspent: "\<not> Coin_IsSpent demo_coin"
  by (simp add: demo_coin_def Coin_IsSpent_def Coin_of_def CTxOut_IsNull_def COIN_def)

lemma demo_cache_ok: "block_ok demo_cache" "block_coins demo_cache = [demo_point \<mapsto> demo_coin]" "\<not> blob_IsNull (cache_hashBlock demo_cache)"
proof -
  show "block_ok demo_cache"
    unfolding demo_cache_def SetBestBlock_block by (rule block_invI) (simp add: db_ok_def demo_coin_unspent)
  show "block_coins demo_cache = [demo_point \<mapsto> demo_coin]"
    by (simp add: demo_cache_def SetBestBlock_inv block_coins_def tip_coins_def cache_of_inv fun_eq_iff)
  show "\<not> blob_IsNull (cache_hashBlock demo_cache)"
    by (simp add: demo_cache_def SetBestBlock_inv blob_IsNull_def list_all_iff)
qed

text \<open>Property C10. The write-back cache over any view that keeps the laws of \<open>coins_view_laws\<close> is the map of unspent coins and the best block it
  shows: reading and uncaching change neither, and return the coin of the map or report that there is none; spending
  removes the coin and hands it out; adding inserts it unless its script is unspendable, and refuses a spent coin; setting the best
  block changes only that; flushing succeeds and leaves the map in the view below.\<close>
theorem coins_cache_refines_map:
  assumes "coins_view_laws view view_ok utxo best" "cache_inv view_ok utxo c"
  defines "u \<equiv> cache_utxo utxo c" and "h \<equiv> cache_best best c"
  shows "(\<exists>c'. GetCoin view c p = (u p, c') \<and> cache_shows view_ok utxo best u h c') \<and>
    (\<exists>c'. HaveCoin view c p = (u p \<noteq> None, c') \<and> cache_shows view_ok utxo best u h c') \<and>
    (\<exists>coin' c'. AccessCoin view c p = (coin', c') \<and> coin_value coin' = u p \<and> cache_shows view_ok utxo best u h c') \<and>
    (\<exists>c'. Cache_GetBestBlock view c = (h, c') \<and> cache_shows view_ok utxo best u h c') \<and>
    cache_shows view_ok utxo best u h (Uncache c p) \<and>
    (\<exists>r c'. SpendCoin view c p = (r, c') \<and> (case r of None \<Rightarrow> u p = None | Some coin' \<Rightarrow> coin_value coin' = u p) \<and>
      cache_shows view_ok utxo best (u(p := None)) h c') \<and>
    (Coin_IsSpent coin \<longrightarrow> AddCoin c p coin overwrite = Inl Coin_assert) \<and>
    (\<not> Coin_IsSpent coin \<and> (overwrite \<or> u p = None) \<longrightarrow> (\<exists>c'. AddCoin c p coin overwrite = Inr c' \<and>
      cache_shows view_ok utxo best (if IsUnspendable (scriptPubKey (coin_out coin)) then u else u(p \<mapsto> coin)) h c')) \<and>
    (\<not> blob_IsNull hash \<longrightarrow> cache_shows view_ok utxo best u hash (SetBestBlock c hash)) \<and>
    (\<exists>c'. Flush view c = Inr (True, c') \<and> cacheCoins c' = [] \<and> cache_inv view_ok utxo c' \<and> utxo (cache_base c') = u \<and> cache_utxo utxo c' = u)"
  using coins_view_laws.cache_refines [OF assms(1,2)] unfolding u_def h_def by blast

theorem coins_cache_refines_map_witness:
  "\<exists>c1 c2. SpendCoin tip_view demo_cache demo_point = (Some demo_coin, c1) \<and> block_coins c1 = Map.empty \<and>
     AddCoin demo_cache demo_point demo_coin True = Inr c2 \<and> block_coins c2 = [demo_point \<mapsto> demo_coin]"
proof -
  note r = coins_cache_refines_map [OF tip.coins_view_laws_axioms demo_cache_ok(1) [unfolded block_ok_def], folded block_coins_def, of demo_point demo_coin True "[]"]
  obtain r c1 where c1: "SpendCoin tip_view demo_cache demo_point = (r, c1)"
    "case r of None \<Rightarrow> block_coins demo_cache demo_point = None | Some coin' \<Rightarrow> coin_value coin' = block_coins demo_cache demo_point"
    "block_coins c1 = (block_coins demo_cache)(demo_point := None)"
    using r unfolding cache_shows_def block_coins_def by blast
  have "r = Some demo_coin" using c1(2) unfolding demo_cache_ok(2) by (cases r) (auto simp: coin_value_Some)
  moreover have "block_coins c1 = Map.empty" using c1(3) unfolding demo_cache_ok(2) by simp
  moreover obtain c2 where "AddCoin demo_cache demo_point demo_coin True = Inr c2"
    "block_coins c2 = (if IsUnspendable (scriptPubKey (coin_out demo_coin)) then block_coins demo_cache else (block_coins demo_cache)(demo_point \<mapsto> demo_coin))"
    using r demo_coin_unspent unfolding cache_shows_def block_coins_def by blast
  ultimately show ?thesis using c1(1) unfolding demo_cache_ok(2) by auto
qed

text \<open>Property C11. Flushing the cache of a block and then the cache of the tip succeeds, without the error for misapplied fresh flags,
  and leaves in the database exactly the coins the cache of the block showed and its best block.\<close>
theorem Flush_reaches_database:
  assumes "block_ok c" "\<not> blob_IsNull (cache_hashBlock c)"
  shows "\<exists>c1 c2. Flush tip_view c = Inr (True, c1) \<and> Flush CCoinsViewDB (cache_base c1) = Inr (True, c2) \<and>
    db_coins (cache_base c2) = block_coins c \<and> db_best_block (cache_base c2) = cache_hashBlock c \<and> db_ok (cache_base c2)"
  using assms by (rule Flush_both)

theorem Flush_reaches_database_witness:
  "\<exists>c1 c2. Flush tip_view demo_cache = Inr (True, c1) \<and> Flush CCoinsViewDB (cache_base c1) = Inr (True, c2) \<and>
    db_coins (cache_base c2) = [demo_point \<mapsto> demo_coin]"
  using Flush_reaches_database [OF demo_cache_ok(1,3)] by (metis demo_cache_ok(2))

end
