(* ===== verification/Hex.thy ===== *)
theory Hex
  imports Serialize
begin

text \<open>
  Hexadecimal text, \<^verbatim>\<open>src/src/utilstrencodings.cpp\<close>, \<^verbatim>\<open>src/src/utilstrencodings.h\<close> and the conversions of hash blobs in
  \<^verbatim>\<open>src/src/uint256.cpp\<close>. A C string is the list of its characters before the terminating NUL, which ends every scan
  because it is neither a space nor a digit; a pointer into it is a suffix.
\<close>

unbundle bit_operations_syntax

definition p_util_hexdigit :: "int list" where
  "p_util_hexdigit = replicate 48 (- 1) @ [0, 1, 2, 3, 4, 5, 6, 7, 8, 9] @ replicate 7 (- 1) @ [0xa, 0xb, 0xc, 0xd, 0xe, 0xf] @
     replicate 26 (- 1) @ [0xa, 0xb, 0xc, 0xd, 0xe, 0xf] @ replicate 153 (- 1)"

definition HexDigit :: "char \<Rightarrow> int" where
  "HexDigit c = p_util_hexdigit ! of_char c"

definition IsHex :: "string \<Rightarrow> bool" where
  "IsHex str \<longleftrightarrow> list_all (\<lambda>c. \<not> HexDigit c < 0) str \<and> length str > 0 \<and> length str mod 2 = 0"

text \<open>\<open>isspace\<close> in the C locale.\<close>

definition isspace :: "char \<Rightarrow> bool" where
  "isspace c \<longleftrightarrow> (of_char c :: nat) \<in> {9, 10, 11, 12, 13, 32}"

function ParseHex :: "string \<Rightarrow> bytes" where
  "ParseHex psz = (case dropWhile isspace psz of
     c1 # c2 # rest \<Rightarrow> if HexDigit c1 = - 1 \<or> HexDigit c2 = - 1 then []
       else (push_bit 4 (of_int (HexDigit c1)) OR of_int (HexDigit c2)) # ParseHex rest
   | _ \<Rightarrow> [])"
  by pat_completeness auto
termination
proof (relation "measure length")
  fix psz :: string and c1 x rest c2 r
  assume a: "dropWhile isspace psz = c1 # x" "x = c2 # r"
  have "length (dropWhile isspace psz) \<le> length psz" by (rule length_dropWhile_le)
  then show "(r, psz) \<in> measure length" using a by simp
qed simp

declare ParseHex.simps [simp del]

definition hexmap :: string where
  "hexmap = ''0123456789abcdef''"

definition HexStr :: "bytes \<Rightarrow> string" where
  "HexStr = concat \<circ> map (\<lambda>val. [hexmap ! unat (drop_bit 4 val), hexmap ! unat (val AND 15)])"

definition GetHex :: "bytes \<Rightarrow> string" where
  "GetHex data = HexStr (rev data)"

text \<open>The loop of \<open>SetHex\<close>: the bytes still to be set, and the digits from the last one backwards.\<close>

fun SetHex_loop :: "nat \<Rightarrow> int list \<Rightarrow> bytes" where
  "SetHex_loop 0 ds = []"
| "SetHex_loop (Suc n) [] = 0 # SetHex_loop n []"
| "SetHex_loop (Suc n) [d] = of_int d # SetHex_loop n []"
| "SetHex_loop (Suc n) (d1 # d2 # ds) = (of_int d1 OR push_bit 4 (of_int d2)) # SetHex_loop n ds"

definition skip_0x :: "string \<Rightarrow> string" where
  "skip_0x psz = (case psz of a # b # rest \<Rightarrow> if a = CHR ''0'' \<and> (b = CHR ''x'' \<or> b = CHR ''X'') then rest else psz | _ \<Rightarrow> psz)"

definition SetHex :: "nat \<Rightarrow> string \<Rightarrow> bytes" where
  "SetHex width psz = SetHex_loop width (rev (map HexDigit (takeWhile (\<lambda>c. HexDigit c \<noteq> - 1) (skip_0x (dropWhile isspace psz)))))"

definition uint256S :: "string \<Rightarrow> uint256" where
  "uint256S str = SetHex 32 str"

subsection \<open>Round trips\<close>

lemma nibble_less: "unat (drop_bit 4 (b :: u8)) < 16" "unat (b AND 15) < 16"
proof -
  have "unat b < 16 * 16" using unsigned_less [of b, where ?'a = nat] by simp
  then show "unat (drop_bit 4 b) < 16" by (simp add: unat_drop_bit less_mult_imp_div_less)
  have "b AND 15 = take_bit 4 b" by (simp add: take_bit_eq_mask mask_eq_exp_minus_1)
  then show "unat (b AND 15) < 16" by (simp add: unat_take_bit)
qed

lemma hexmap_digit: "n < 16 \<Longrightarrow> HexDigit (hexmap ! n) = int n \<and> HexDigit (hexmap ! n) \<noteq> - 1 \<and> \<not> isspace (hexmap ! n) \<and> hexmap ! n \<noteq> CHR ''x'' \<and> hexmap ! n \<noteq> CHR ''X''"
proof -
  have "\<forall>n \<in> set [0..<16]. HexDigit (hexmap ! n) = int n \<and> HexDigit (hexmap ! n) \<noteq> - 1 \<and> \<not> isspace (hexmap ! n) \<and> hexmap ! n \<noteq> CHR ''x'' \<and> hexmap ! n \<noteq> CHR ''X''"
    by code_simp
  then show "n < 16 \<Longrightarrow> ?thesis" by simp
qed

lemmas hex_nibble = hexmap_digit [OF nibble_less(1)] hexmap_digit [OF nibble_less(2)]

lemma nibbles_join: "of_int (int (unat (b AND 15))) OR push_bit 4 (of_int (int (unat (drop_bit 4 (b :: u8))))) = b"
proof -
  have a: "b AND 15 = take_bit 4 b" by (simp add: take_bit_eq_mask mask_eq_exp_minus_1)
  show ?thesis by (simp add: a bit_eq_iff bit_or_iff bit_push_bit_iff bit_take_bit_iff bit_drop_bit_eq) (metis le_add_diff_inverse not_le)
qed

lemma HexStr_simps [simp]:
  "HexStr [] = []" "HexStr (b # bs) = hexmap ! unat (drop_bit 4 b) # hexmap ! unat (b AND 15) # HexStr bs"
  "HexStr (as @ bs) = HexStr as @ HexStr bs"
  by (simp_all add: HexStr_def)

lemma ParseHex_HexStr: "ParseHex (HexStr bs) = bs"
proof (induction bs)
  case Nil
  then show ?case by (simp add: ParseHex.simps)
next
  case (Cons b bs)
  show ?case using hex_nibble [of b] nibbles_join [of b] Cons by (subst ParseHex.simps) (simp add: or.commute)
qed

lemma IsHex_HexStr: "IsHex (HexStr bs) \<longleftrightarrow> bs \<noteq> []"
proof -
  have "list_all (\<lambda>c. \<not> HexDigit c < 0) (HexStr bs) \<and> length (HexStr bs) = 2 * length bs"
    by (induction bs) (simp_all add: hex_nibble)
  then show ?thesis by (simp add: IsHex_def)
qed

lemma SetHex_loop_digits:
  "SetHex_loop (length bs) (rev (map HexDigit (HexStr (rev bs)))) = bs"
  using nibbles_join by (induction bs) (simp_all add: hex_nibble)

lemma HexStr_digits: "c \<in> set (HexStr bs) \<Longrightarrow> HexDigit c \<noteq> - 1 \<and> \<not> isspace c \<and> c \<noteq> CHR ''x'' \<and> c \<noteq> CHR ''X''"
proof (induction bs)
  case (Cons b bs)
  then show ?case using hex_nibble [of b] by auto
qed simp

lemma SetHex_GetHex: "SetHex (length bs) (GetHex bs) = bs"
proof -
  define s where "s = HexStr (rev bs)"
  have d: "c \<in> set s \<Longrightarrow> HexDigit c \<noteq> - 1 \<and> \<not> isspace c \<and> c \<noteq> CHR ''x'' \<and> c \<noteq> CHR ''X''" for c
    using HexStr_digits s_def by blast
  then have "dropWhile isspace s = s" by (cases s) auto
  moreover have "skip_0x s = s" using d by (auto simp: skip_0x_def split: list.splits)
  moreover have "takeWhile (\<lambda>c. HexDigit c \<noteq> - 1) s = s" using d by (simp add: takeWhile_eq_all_conv)
  ultimately show ?thesis using SetHex_loop_digits [of bs]
    unfolding SetHex_def GetHex_def s_def [symmetric] by (simp del: takeWhile_eq_all_conv)
qed

text \<open>Hexadecimal text gives bytes and hash blobs back: parsing what \<open>HexStr\<close> prints returns the bytes, \<open>IsHex\<close> accepts
  it unless it is empty, and \<open>SetHex\<close> reads what \<open>GetHex\<close> prints, whose digits run from the last byte to the first.\<close>
theorem hex_roundtrip: "ParseHex (HexStr bs) = bs \<and> IsHex (HexStr bs) = (bs \<noteq> []) \<and> SetHex (length bs) (GetHex bs) = bs"
  by (simp add: ParseHex_HexStr IsHex_HexStr SetHex_GetHex)

end
