(* ===== verification/Tx_Verify.thy ===== *)
theory Tx_Verify
  imports Sighash Versionbits Coins Hex
begin

text \<open>
  The checks of a transaction: \<^verbatim>\<open>src/src/consensus/validation.h\<close> and, from \<^verbatim>\<open>src/src/validation.cpp\<close>, \<open>IsFinalTx\<close>, the sequence locks
  of BIP68, the counts of signature operations, \<open>CheckTransaction\<close>, \<open>ContextualCheckTransaction\<close>, \<open>CheckTxInputs\<close>
  and \<open>CheckInputs\<close>. A check that returns false gives \<open>Inl\<close> of \<open>Rejected\<close> with the changed \<open>CValidationState\<close>; failed
  assertions, exceptions and bad pointers are the other errors. The debug message of a state, which only reaches the log,
  is left out. A check that reads a cache of coins returns the cache with what it fetched when it succeeds; a caller drops
  the cache otherwise. The scripts are checked one after the other, as without check threads, and without the
  signature cache, which only remembers signatures that verified. Heights and counts of signature
  operations are far from the bounds of their C++ types and are plain integers; amounts wrap at 64 bits.
\<close>

unbundle bit_operations_syntax

subsection \<open>The validation state\<close>

definition REJECT_INVALID :: nat where "REJECT_INVALID = 0x10"

definition REJECT_NONSTANDARD :: nat where "REJECT_NONSTANDARD = 0x40"

datatype mode_state = MODE_VALID | MODE_INVALID | MODE_ERROR

record CValidationState =
  state_mode :: mode_state
  state_nDoS :: int
  strRejectReason :: string
  chRejectCode :: nat
  corruptionPossible :: bool

definition CValidationState_default :: CValidationState where
  "CValidationState_default = \<lparr>state_mode = MODE_VALID, state_nDoS = 0, strRejectReason = [], chRejectCode = 0, corruptionPossible = False\<rparr>"

definition DoS :: "CValidationState \<Rightarrow> int \<Rightarrow> nat \<Rightarrow> string \<Rightarrow> bool \<Rightarrow> CValidationState" where
  "DoS state level chRejectCodeIn strRejectReasonIn corruptionIn =
     (let state' = state \<lparr>chRejectCode := chRejectCodeIn, strRejectReason := strRejectReasonIn, corruptionPossible := corruptionIn\<rparr> in
      if state_mode state = MODE_ERROR then state'
      else state' \<lparr>state_nDoS := state_nDoS state + level, state_mode := MODE_INVALID\<rparr>)"

definition Invalid :: "CValidationState \<Rightarrow> nat \<Rightarrow> string \<Rightarrow> CValidationState" where
  "Invalid state code reason = DoS state 0 code reason False"

definition state_Error :: "CValidationState \<Rightarrow> string \<Rightarrow> CValidationState" where
  "state_Error state reason =
     (if state_mode state = MODE_VALID then state \<lparr>strRejectReason := reason\<rparr> else state) \<lparr>state_mode := MODE_ERROR\<rparr>"

definition state_IsValid :: "CValidationState \<Rightarrow> bool" where
  "state_IsValid state \<longleftrightarrow> state_mode state = MODE_VALID"

definition state_IsInvalid :: "CValidationState \<Rightarrow> int option" where
  "state_IsInvalid state = (if state_mode state = MODE_INVALID then Some (state_nDoS state) else None)"

datatype tx_failure =
  Rejected CValidationState | Failed_assert | Uncaught_exception | Coins_failure coins_error | Index_failure chain_error

abbreviation reject :: "CValidationState \<Rightarrow> int \<Rightarrow> string \<Rightarrow> tx_failure + 'a" where
  "reject state level reason \<equiv> Inl (Rejected (DoS state level REJECT_INVALID reason False))"

subsection \<open>Lock times\<close>

definition IsFinalTx :: "'a CMutableTransaction_scheme \<Rightarrow> int \<Rightarrow> int \<Rightarrow> bool" where
  "IsFinalTx tx nBlockHeight nBlockTime = (let t = uint (nLockTime tx) in
     if t = 0 then True
     else if t < (if t < LOCKTIME_THRESHOLD then nBlockHeight else nBlockTime) then True
     else list_all (\<lambda>txin. nSequence txin = SEQUENCE_FINAL) (vin tx))"

text \<open>The loop over the inputs and the heights of their coins; it sets the heights that do not matter to zero.\<close>

fun sequence_lock_loop :: "index_store \<Rightarrow> addr \<Rightarrow> CTxIn list \<Rightarrow> int list \<Rightarrow> int \<Rightarrow> int \<Rightarrow> chain_error + int list \<times> int \<times> int" where
  "sequence_lock_loop h block (txin # ins) (nCoinHeight # prevHeights) nMinHeight nMinTime =
     (if nSequence txin AND SEQUENCE_LOCKTIME_DISABLE_FLAG \<noteq> 0 then
        bindE (sequence_lock_loop h block ins prevHeights nMinHeight nMinTime) (\<lambda>(hs, r). Inr (0 # hs, r))
      else if nSequence txin AND SEQUENCE_LOCKTIME_TYPE_FLAG \<noteq> 0 then
        bindE (GetAncestor h block (max (nCoinHeight - 1) 0)) (\<lambda>a. case a of None \<Rightarrow> Inl BadPointer | Some p \<Rightarrow>
        bindE (GetMedianTimePast h p) (\<lambda>nCoinTime.
        bindE (sequence_lock_loop h block ins prevHeights nMinHeight
          (max nMinTime (nCoinTime + uint (push_bit SEQUENCE_LOCKTIME_GRANULARITY (nSequence txin AND SEQUENCE_LOCKTIME_MASK)) - 1)))
          (\<lambda>(hs, r). Inr (nCoinHeight # hs, r))))
      else
        bindE (sequence_lock_loop h block ins prevHeights
          (max nMinHeight (nCoinHeight + uint (nSequence txin AND SEQUENCE_LOCKTIME_MASK) - 1)) nMinTime)
          (\<lambda>(hs, r). Inr (nCoinHeight # hs, r)))"
| "sequence_lock_loop h block ins prevHeights nMinHeight nMinTime = Inr (prevHeights, nMinHeight, nMinTime)"

definition CalculateSequenceLocks ::
  "index_store \<Rightarrow> 'a CMutableTransaction_scheme \<Rightarrow> nat \<Rightarrow> int list \<Rightarrow> addr \<Rightarrow> chain_error + int list \<times> int \<times> int" where
  "CalculateSequenceLocks h tx lock_flags prevHeights block =
     (if length prevHeights \<noteq> length (vin tx) then Inl AssertFailed
      else if \<not> ((scast (tx_nVersion tx) :: u32) \<ge> 2 \<and> lock_flags AND LOCKTIME_VERIFY_SEQUENCE \<noteq> 0) then Inr (prevHeights, - 1, - 1)
      else sequence_lock_loop h block (vin tx) prevHeights (- 1) (- 1))"

definition EvaluateSequenceLocks :: "index_store \<Rightarrow> addr \<Rightarrow> int \<times> int \<Rightarrow> chain_error + bool" where
  "EvaluateSequenceLocks h block lockPair =
     bindE (deref BadPointer h block) (\<lambda>b. case pprev b of None \<Rightarrow> Inl AssertFailed | Some q \<Rightarrow>
     bindE (GetMedianTimePast h q) (\<lambda>nBlockTime.
       Inr (\<not> (fst lockPair \<ge> nHeight b \<or> snd lockPair \<ge> nBlockTime))))"

definition SequenceLocks :: "index_store \<Rightarrow> 'a CMutableTransaction_scheme \<Rightarrow> nat \<Rightarrow> int list \<Rightarrow> addr \<Rightarrow> chain_error + bool" where
  "SequenceLocks h tx lock_flags prevHeights block =
     bindE (CalculateSequenceLocks h tx lock_flags prevHeights block) (\<lambda>(hs, lockPair). EvaluateSequenceLocks h block lockPair)"

subsection \<open>Signature operations\<close>

definition GetLegacySigOpCount :: "'a CMutableTransaction_scheme \<Rightarrow> nat" where
  "GetLegacySigOpCount tx = sum_list (map (\<lambda>txin. GetSigOpCount (scriptSig txin) False) (vin tx)) +
     sum_list (map (\<lambda>txout. GetSigOpCount (scriptPubKey txout) False) (vout tx))"

fun p2sh_sigop_loop :: "'b coins_view \<Rightarrow> CTxIn list \<Rightarrow> nat \<Rightarrow> 'b CCoinsViewCache \<Rightarrow> tx_failure + nat \<times> 'b CCoinsViewCache" where
  "p2sh_sigop_loop view [] nSigOps c = Inr (nSigOps, c)"
| "p2sh_sigop_loop view (txin # ins) nSigOps c = (case AccessCoin view c (prevout txin) of (coin, c') \<Rightarrow>
     if Coin_IsSpent coin then Inl Failed_assert
     else p2sh_sigop_loop view ins (nSigOps + (if IsPayToScriptHash (scriptPubKey (coin_out coin))
       then GetSigOpCount_P2SH (scriptPubKey (coin_out coin)) (scriptSig txin) else 0)) c')"

definition GetP2SHSigOpCount ::
  "'b coins_view \<Rightarrow> 'a CMutableTransaction_scheme \<Rightarrow> 'b CCoinsViewCache \<Rightarrow> tx_failure + nat \<times> 'b CCoinsViewCache" where
  "GetP2SHSigOpCount view tx c = (if IsCoinBase tx then Inr (0, c) else p2sh_sigop_loop view (vin tx) 0 c)"

subsection \<open>Checks without context\<close>

fun check_outputs :: "CValidationState \<Rightarrow> CTxOut list \<Rightarrow> CAmount \<Rightarrow> tx_failure + unit" where
  "check_outputs state [] nValueOut = Inr ()"
| "check_outputs state (txout # outs) nValueOut =
     (if nValue txout < 0 then reject state 100 ''bad-txns-vout-negative''
      else if nValue txout > MAX_MONEY then reject state 100 ''bad-txns-vout-toolarge''
      else let nValueOut' = int64 (nValueOut + nValue txout) in
      if \<not> MoneyRange nValueOut' then reject state 100 ''bad-txns-txouttotal-toolarge''
      else check_outputs state outs nValueOut')"

fun check_duplicates :: "CValidationState \<Rightarrow> CTxIn list \<Rightarrow> COutPoint set \<Rightarrow> tx_failure + unit" where
  "check_duplicates state [] vInOutPoints = Inr ()"
| "check_duplicates state (txin # ins) vInOutPoints =
     (if prevout txin \<in> vInOutPoints then reject state 100 ''bad-txns-inputs-duplicate''
      else check_duplicates state ins (insert (prevout txin) vInOutPoints))"

definition burnt_inputs :: "(uint256 \<times> u32) list" where
  "burnt_inputs =
    [(uint256S ''248fd4a153c47f091a127855508d20c889da72ce6ac6ac2e84bc907fd15b7678'', 0),
     (uint256S ''0919f1bcdc1def894e889409e9d986615687a90bdfc465becb4b6eb735938abe'', 1),
     (uint256S ''a3ae0e5a7471234a2aec16f9de2bc9519a7d95b68f463345f4e9ccb9c64e591c'', 0),
     (uint256S ''a211bccf4c8a0b15efbd564b74b5f1cab4bdd122311a7d2cbd7bc880d2617bf5'', 1),
     (uint256S ''dd8a3db292db3c5b052e701f4847826ca32315cd7758c1046f085f8b1044d18e'', 1),
     (uint256S ''4ed3ef0df77f145734b2e02c0f8f531b0202da65954ca95a80cadae79a198296'', 1),
     (uint256S ''8ddd05a709cc6d78250280c9fe1f306920161352700f829894044bf4acdd5e83'', 0),
     (uint256S ''646f7f0b1d6a2607a19b6000e0584da1e4970583c81ad9634ce245900d073daa'', 1),
     (uint256S ''e219be3d8106bdd156d5309000e875b4ec0ffd965a41b91ff94daa67e41e1a20'', 1),
     (uint256S ''0436065b8fe9cf9e2e9f25c74030ff7393a524e1c51b2da976a55988cb2c917f'', 1),
     (uint256S ''721bb6e6feeac78116d4be05533ca0efc3d6808c9325572a03f1dd045a34a59b'', 0)]"

fun check_burnt :: "CValidationState \<Rightarrow> CTxIn list \<Rightarrow> tx_failure + unit" where
  "check_burnt state [] = Inr ()"
| "check_burnt state (txin # ins) = (if (op_hash (prevout txin), op_n (prevout txin)) \<in> set burnt_inputs
     then reject state 100 ''bad-txns-input-burnt'' else check_burnt state ins)"

definition CheckTransaction :: "'a CMutableTransaction_scheme \<Rightarrow> CValidationState \<Rightarrow> tx_failure + unit" where
  "CheckTransaction tx state = (let allowEmptyTxInOut = (tx_nType tx = TRANSACTION_QUORUM_COMMITMENT) in
     if \<not> allowEmptyTxInOut \<and> vin tx = [] then reject state 10 ''bad-txns-vin-empty''
     else if \<not> allowEmptyTxInOut \<and> vout tx = [] then reject state 10 ''bad-txns-vout-empty''
     else if length (Serialize_CTransaction tx) > MAX_LEGACY_BLOCK_SIZE then reject state 100 ''bad-txns-oversize''
     else if length (vExtraPayload tx) > MAX_TX_EXTRA_PAYLOAD then reject state 100 ''bad-txns-payload-oversize''
     else bindE (check_outputs state (vout tx) 0) (\<lambda>_.
     bindE (check_duplicates state (vin tx) {}) (\<lambda>_.
     bindE (check_burnt state (vin tx)) (\<lambda>_.
     if IsCoinBase tx then let minCbSize = (if tx_nType tx = TRANSACTION_COINBASE then 1 else 2) in
       if length (scriptSig (vin tx ! 0)) < minCbSize \<or> length (scriptSig (vin tx ! 0)) > 100 then reject state 100 ''bad-cb-length''
       else Inr ()
     else if list_ex (\<lambda>txin. COutPoint_IsNull (prevout txin)) (vin tx) then reject state 10 ''bad-txns-prevout-null''
     else Inr ()))))"

definition MAX_STANDARD_TX_SIZE :: nat where "MAX_STANDARD_TX_SIZE = 100000"

text \<open>The height of the previous block is \<open>None\<close> for the genesis block.\<close>

definition ContextualCheckTransaction ::
  "'a CMutableTransaction_scheme \<Rightarrow> CValidationState \<Rightarrow> Params \<Rightarrow> int option \<Rightarrow> tx_failure + unit" where
  "ContextualCheckTransaction tx state params prevHeight =
     (let height = (case prevHeight of None \<Rightarrow> 0 | Some n \<Rightarrow> n + 1) in
      if height \<ge> DIP0003Height params \<and> sint (tx_nVersion tx) \<ge> 3 \<and>
         tx_nType tx \<notin> {TRANSACTION_NORMAL, TRANSACTION_PROVIDER_REGISTER, TRANSACTION_PROVIDER_UPDATE_SERVICE,
           TRANSACTION_PROVIDER_UPDATE_REGISTRAR, TRANSACTION_PROVIDER_UPDATE_REVOKE, TRANSACTION_COINBASE, TRANSACTION_QUORUM_COMMITMENT}
      then reject state 100 ''bad-txns-type''
      else if height \<ge> DIP0003Height params \<and> sint (tx_nVersion tx) \<ge> 3 \<and> IsCoinBase tx \<and> tx_nType tx \<noteq> TRANSACTION_COINBASE
      then reject state 100 ''bad-txns-cb-type''
      else if height \<ge> DIP0003Height params \<and> \<not> sint (tx_nVersion tx) \<ge> 3 \<and> tx_nType tx \<noteq> TRANSACTION_NORMAL
      then reject state 100 ''bad-txns-type''
      else if height \<ge> DIP0001Height params \<and> length (Serialize_CTransaction tx) > MAX_STANDARD_TX_SIZE
      then reject state 100 ''bad-txns-oversize''
      else Inr ())"

subsection \<open>Checks against the coins\<close>

text \<open>The code dereferences the result of \<open>find\<close> unchecked: a best block that is not in the map is a bad pointer.\<close>

definition GetSpendHeight :: "block_tree \<Rightarrow> 'b coins_view \<Rightarrow> 'b CCoinsViewCache \<Rightarrow> tx_failure + int \<times> 'b CCoinsViewCache" where
  "GetSpendHeight t view c = (case Cache_GetBestBlock view c of (best, c') \<Rightarrow>
     case mapBlockIndex t best of None \<Rightarrow> Inl (Index_failure BadPointer)
     | Some p \<Rightarrow> (case index t p of None \<Rightarrow> Inl (Index_failure BadPointer) | Some b \<Rightarrow> Inr (nHeight b + 1, c')))"

definition premature :: "Coin \<Rightarrow> int \<Rightarrow> bool" where
  "premature coin nSpendHeight \<longleftrightarrow> Coin_IsCoinBase coin \<and>
     ((nSpendHeight \<ge> 450000 \<and> nSpendHeight - int (coin_nHeight coin) < COINBASE_MATURITY) \<or> nSpendHeight - int (coin_nHeight coin) < 5)"

fun tx_inputs_loop ::
  "'b coins_view \<Rightarrow> CValidationState \<Rightarrow> int \<Rightarrow> CTxIn list \<Rightarrow> CAmount \<Rightarrow> 'b CCoinsViewCache \<Rightarrow> tx_failure + CAmount \<times> 'b CCoinsViewCache" where
  "tx_inputs_loop view state nSpendHeight [] nValueIn c = Inr (nValueIn, c)"
| "tx_inputs_loop view state nSpendHeight (txin # ins) nValueIn c = (case AccessCoin view c (prevout txin) of (coin, c') \<Rightarrow>
     if Coin_IsSpent coin then Inl Failed_assert
     else if premature coin nSpendHeight
     then Inl (Rejected (Invalid state REJECT_INVALID ''bad-txns-premature-spend-of-coinbase''))
     else let nValueIn' = int64 (nValueIn + nValue (coin_out coin)) in
     if \<not> MoneyRange (nValue (coin_out coin)) \<or> \<not> MoneyRange nValueIn' then reject state 100 ''bad-txns-inputvalues-outofrange''
     else tx_inputs_loop view state nSpendHeight ins nValueIn' c')"

text \<open>\<open>GetValueOut\<close> throws where its result is \<open>None\<close>. The fee, which the code drops, is returned.\<close>

definition CheckTxInputs ::
  "'b coins_view \<Rightarrow> 'a CMutableTransaction_scheme \<Rightarrow> CValidationState \<Rightarrow> 'b CCoinsViewCache \<Rightarrow> int \<Rightarrow> tx_failure + CAmount \<times> 'b CCoinsViewCache" where
  "CheckTxInputs view tx state c nSpendHeight = (case HaveInputs view c tx of (have, c1) \<Rightarrow>
     if \<not> have then Inl (Rejected (Invalid state 0 []))
     else bindE (tx_inputs_loop view state nSpendHeight (vin tx) 0 c1) (\<lambda>(nValueIn, c2).
     case GetValueOut tx of None \<Rightarrow> Inl Uncaught_exception | Some valueOut \<Rightarrow>
     if nValueIn < valueOut then reject state 100 ''bad-txns-in-belowout''
     else let nTxFee = nValueIn - valueOut in
     if nTxFee < 0 then reject state 100 ''bad-txns-fee-negative''
     else if \<not> MoneyRange nTxFee then reject state 100 ''bad-txns-fee-outofrange''
     else Inr (nTxFee, c2)))"

fun ScriptErrorString :: "ScriptError \<Rightarrow> string" where
  "ScriptErrorString SCRIPT_ERR_EVAL_FALSE = ''Script evaluated without error but finished with a false/empty top stack element''"
| "ScriptErrorString SCRIPT_ERR_VERIFY = ''Script failed an OP_VERIFY operation''"
| "ScriptErrorString SCRIPT_ERR_EQUALVERIFY = ''Script failed an OP_EQUALVERIFY operation''"
| "ScriptErrorString SCRIPT_ERR_CHECKMULTISIGVERIFY = ''Script failed an OP_CHECKMULTISIGVERIFY operation''"
| "ScriptErrorString SCRIPT_ERR_CHECKSIGVERIFY = ''Script failed an OP_CHECKSIGVERIFY operation''"
| "ScriptErrorString SCRIPT_ERR_NUMEQUALVERIFY = ''Script failed an OP_NUMEQUALVERIFY operation''"
| "ScriptErrorString SCRIPT_ERR_SCRIPT_SIZE = ''Script is too big''"
| "ScriptErrorString SCRIPT_ERR_PUSH_SIZE = ''Push value size limit exceeded''"
| "ScriptErrorString SCRIPT_ERR_OP_COUNT = ''Operation limit exceeded''"
| "ScriptErrorString SCRIPT_ERR_STACK_SIZE = ''Stack size limit exceeded''"
| "ScriptErrorString SCRIPT_ERR_SIG_COUNT = ''Signature count negative or greater than pubkey count''"
| "ScriptErrorString SCRIPT_ERR_PUBKEY_COUNT = ''Pubkey count negative or limit exceeded''"
| "ScriptErrorString SCRIPT_ERR_BAD_OPCODE = ''Opcode missing or not understood''"
| "ScriptErrorString SCRIPT_ERR_DISABLED_OPCODE = ''Attempted to use a disabled opcode''"
| "ScriptErrorString SCRIPT_ERR_INVALID_STACK_OPERATION = ''Operation not valid with the current stack size''"
| "ScriptErrorString SCRIPT_ERR_INVALID_ALTSTACK_OPERATION = ''Operation not valid with the current altstack size''"
| "ScriptErrorString SCRIPT_ERR_OP_RETURN = ''OP_RETURN was encountered''"
| "ScriptErrorString SCRIPT_ERR_UNBALANCED_CONDITIONAL = ''Invalid OP_IF construction''"
| "ScriptErrorString SCRIPT_ERR_NEGATIVE_LOCKTIME = ''Negative locktime''"
| "ScriptErrorString SCRIPT_ERR_UNSATISFIED_LOCKTIME = ''Locktime requirement not satisfied''"
| "ScriptErrorString SCRIPT_ERR_SIG_HASHTYPE = ''Signature hash type missing or not understood''"
| "ScriptErrorString SCRIPT_ERR_SIG_DER = ''Non-canonical DER signature''"
| "ScriptErrorString SCRIPT_ERR_MINIMALDATA = ''Data push larger than necessary''"
| "ScriptErrorString SCRIPT_ERR_SIG_PUSHONLY = ''Only non-push operators allowed in signatures''"
| "ScriptErrorString SCRIPT_ERR_SIG_HIGH_S = ''Non-canonical signature: S value is unnecessarily high''"
| "ScriptErrorString SCRIPT_ERR_SIG_NULLDUMMY = ''Dummy CHECKMULTISIG argument must be zero''"
| "ScriptErrorString SCRIPT_ERR_SIG_NULLFAIL = ''Signature must be zero for failed CHECK(MULTI)SIG operation''"
| "ScriptErrorString SCRIPT_ERR_DISCOURAGE_UPGRADABLE_NOPS = ''NOPx reserved for soft-fork upgrades''"
| "ScriptErrorString SCRIPT_ERR_PUBKEYTYPE = ''Public key is neither compressed or uncompressed''"
| "ScriptErrorString _ = ''unknown error''"

definition MANDATORY_SCRIPT_VERIFY_FLAGS :: u32 where
  "MANDATORY_SCRIPT_VERIFY_FLAGS = push_bit (flag_bit SCRIPT_VERIFY_P2SH) 1"

definition STANDARD_SCRIPT_VERIFY_FLAGS :: u32 where
  "STANDARD_SCRIPT_VERIFY_FLAGS = fold (\<lambda>f w. w OR push_bit (flag_bit f) 1)
     [SCRIPT_VERIFY_DERSIG, SCRIPT_VERIFY_STRICTENC, SCRIPT_VERIFY_MINIMALDATA, SCRIPT_VERIFY_NULLDUMMY,
      SCRIPT_VERIFY_DISCOURAGE_UPGRADABLE_NOPS, SCRIPT_VERIFY_CLEANSTACK, SCRIPT_VERIFY_NULLFAIL,
      SCRIPT_VERIFY_CHECKLOCKTIMEVERIFY, SCRIPT_VERIFY_CHECKSEQUENCEVERIFY, SCRIPT_VERIFY_LOW_S] MANDATORY_SCRIPT_VERIFY_FLAGS"

definition STANDARD_NOT_MANDATORY_VERIFY_FLAGS :: u32 where
  "STANDARD_NOT_MANDATORY_VERIFY_FLAGS = STANDARD_SCRIPT_VERIFY_FLAGS AND NOT MANDATORY_SCRIPT_VERIFY_FLAGS"

text \<open>The curve operations: the verification of a signature and the test for a low S value.\<close>

record curve =
  curve_Verify :: "CPubKey \<Rightarrow> uint256 \<Rightarrow> bytes \<Rightarrow> bool"
  curve_CheckLowS :: "bytes \<Rightarrow> bool"

definition CScriptCheck :: "curve \<Rightarrow> CScript \<Rightarrow> 'a CMutableTransaction_scheme \<Rightarrow> nat \<Rightarrow> u32 \<Rightarrow> verify_error + unit" where
  "CScriptCheck cv script_pubkey tx nIn nFlags =
     VerifyScript \<lparr>flags = nFlags, checker = TransactionSignatureChecker (curve_Verify cv) tx nIn, CheckLowS = curve_CheckLowS cv\<rparr>
       (scriptSig (vin tx ! nIn)) script_pubkey"

definition script_failure :: "curve \<Rightarrow> CValidationState \<Rightarrow> CScript \<Rightarrow> 'a CMutableTransaction_scheme \<Rightarrow> nat \<Rightarrow> u32 \<Rightarrow> ScriptError \<Rightarrow> tx_failure" where
  "script_failure cv state script_pubkey tx i nFlags e =
     (let mandatory = Rejected (DoS state 100 REJECT_INVALID
            (''mandatory-script-verify-flag-failed ('' @ ScriptErrorString e @ '')'') False) in
      if nFlags AND STANDARD_NOT_MANDATORY_VERIFY_FLAGS \<noteq> 0 then
        case CScriptCheck cv script_pubkey tx i (nFlags AND NOT STANDARD_NOT_MANDATORY_VERIFY_FLAGS) of
          Inr _ \<Rightarrow> Rejected (Invalid state REJECT_NONSTANDARD (''non-mandatory-script-verify-flag ('' @ ScriptErrorString e @ '')''))
        | Inl Verify_assert \<Rightarrow> Failed_assert
        | Inl (Script_error _) \<Rightarrow> mandatory
      else mandatory)"

text \<open>The loop over the inputs from the \<open>i\<close>th on.\<close>

fun check_scripts ::
  "curve \<Rightarrow> 'b coins_view \<Rightarrow> CValidationState \<Rightarrow> 'a CMutableTransaction_scheme \<Rightarrow> u32 \<Rightarrow> nat \<Rightarrow> CTxIn list \<Rightarrow> 'b CCoinsViewCache \<Rightarrow>
     tx_failure + 'b CCoinsViewCache" where
  "check_scripts cv view state tx nFlags i [] c = Inr c"
| "check_scripts cv view state tx nFlags i (txin # ins) c = (case AccessCoin view c (prevout txin) of (coin, c') \<Rightarrow>
     if Coin_IsSpent coin then Inl Failed_assert
     else case CScriptCheck cv (scriptPubKey (coin_out coin)) tx i nFlags of
       Inl Verify_assert \<Rightarrow> Inl Failed_assert
     | Inl (Script_error e) \<Rightarrow> Inl (script_failure cv state (scriptPubKey (coin_out coin)) tx i nFlags e)
     | Inr _ \<Rightarrow> check_scripts cv view state tx nFlags (Suc i) ins c')"

definition CheckInputs ::
  "curve \<Rightarrow> block_tree \<Rightarrow> 'b coins_view \<Rightarrow> 'a CMutableTransaction_scheme \<Rightarrow> CValidationState \<Rightarrow> 'b CCoinsViewCache \<Rightarrow> bool \<Rightarrow> u32 \<Rightarrow>
     tx_failure + 'b CCoinsViewCache" where
  "CheckInputs cv t view tx state c fScriptChecks nFlags = (if IsCoinBase tx then Inr c else
     bindE (GetSpendHeight t view c) (\<lambda>(spendHeight, c1).
     bindE (CheckTxInputs view tx state c1 spendHeight) (\<lambda>(fee, c2).
     if fScriptChecks then check_scripts cv view state tx nFlags 0 (vin tx) c2 else Inr c2)))"

subsection \<open>Checks without context\<close>

lemma check_outputs_iff:
  "MoneyRange a \<Longrightarrow> check_outputs state outs a = Inr () \<longleftrightarrow>
     list_all (\<lambda>out. 0 \<le> nValue out) outs \<and> a + sum_list (map nValue outs) \<le> MAX_MONEY"
proof (induction outs arbitrary: a)
  case Nil
  then show ?case by (simp add: MoneyRange_def)
next
  case (Cons out outs)
  show ?case
  proof (cases "0 \<le> nValue out \<and> nValue out \<le> MAX_MONEY")
    case True
    then have i: "int64 (a + nValue out) = a + nValue out"
      using Cons.prems by (intro int64_id) (simp_all add: MoneyRange_def MAX_MONEY_val)
    show ?thesis
    proof (cases "MoneyRange (a + nValue out)")
      case mr: True
      then show ?thesis using Cons.IH [OF mr] True i by (simp add: Let_def algebra_simps)
    next
      case False
      have "0 \<le> sum_list (map nValue outs)" if "list_all (\<lambda>out. 0 \<le> nValue out) outs"
        using that by (intro sum_list_nonneg) (auto simp: list_all_iff)
      then show ?thesis using False True i Cons.prems by (auto simp: MoneyRange_def)
    qed
  next
    case False
    have "0 \<le> sum_list (map nValue outs)" if "list_all (\<lambda>out. 0 \<le> nValue out) outs"
      using that by (intro sum_list_nonneg) (auto simp: list_all_iff)
    then show ?thesis using False Cons.prems by (auto simp: MoneyRange_def)
  qed
qed

lemma check_duplicates_iff:
  "check_duplicates state ins S = Inr () \<longleftrightarrow> distinct (map prevout ins) \<and> S \<inter> set (map prevout ins) = {}"
  by (induction ins arbitrary: S) auto

lemma check_burnt_iff:
  "check_burnt state ins = Inr () \<longleftrightarrow> list_all (\<lambda>txin. (op_hash (prevout txin), op_n (prevout txin)) \<notin> set burnt_inputs) ins"
  by (induction ins) auto

definition tx_well_formed :: "'a CMutableTransaction_scheme \<Rightarrow> bool" where
  "tx_well_formed tx \<longleftrightarrow>
     (tx_nType tx = TRANSACTION_QUORUM_COMMITMENT \<or> vin tx \<noteq> [] \<and> vout tx \<noteq> []) \<and>
     GetTotalSize tx \<le> 1000000 \<and> length (vExtraPayload tx) \<le> 10000 \<and>
     list_all (\<lambda>out. 0 \<le> nValue out) (vout tx) \<and> sum_list (map nValue (vout tx)) \<le> MAX_MONEY \<and>
     distinct (map prevout (vin tx)) \<and>
     list_all (\<lambda>txin. (op_hash (prevout txin), op_n (prevout txin)) \<notin> set burnt_inputs) (vin tx) \<and>
     (if IsCoinBase tx then (if tx_nType tx = TRANSACTION_COINBASE then 1 else 2) \<le> length (scriptSig (hd (vin tx))) \<and> length (scriptSig (hd (vin tx))) \<le> 100
      else list_all (\<lambda>txin. \<not> COutPoint_IsNull (prevout txin)) (vin tx))"

lemma CheckTransaction_Inr: "CheckTransaction tx state = Inr () \<longleftrightarrow> tx_well_formed tx"
proof -
  have hd: "IsCoinBase tx \<Longrightarrow> vin tx ! 0 = hd (vin tx)" by (cases "vin tx") (simp_all add: IsCoinBase_def)
  have o: "check_outputs state (vout tx) 0 = Inr () \<longleftrightarrow> list_all (\<lambda>out. 0 \<le> nValue out) (vout tx) \<and> sum_list (map nValue (vout tx)) \<le> MAX_MONEY"
    using check_outputs_iff [of 0] by (simp add: MoneyRange_def MAX_MONEY_val)
  show ?thesis
    unfolding CheckTransaction_def tx_well_formed_def Let_def GetTotalSize_def MAX_LEGACY_BLOCK_SIZE_def MAX_TX_EXTRA_PAYLOAD_def
    by (auto simp: bindE_eq_Inr o check_duplicates_iff check_burnt_iff hd list_ex_iff list_all_iff not_less Suc_le_eq split: if_splits)
qed

lemma tx_well_formed_GetValueOut: "tx_well_formed tx \<Longrightarrow> GetValueOut tx = Some (sum_list (map nValue (vout tx)))"
proof -
  assume wf: "tx_well_formed tx"
  have "nValue out \<le> MAX_MONEY" if "out \<in> set (vout tx)" for out
  proof -
    have "nValue out \<le> sum_list (map nValue (vout tx))"
      using that wf by (intro member_le_sum_list) (auto simp: tx_well_formed_def list_all_iff)
    then show ?thesis using wf by (simp add: tx_well_formed_def)
  qed
  then show ?thesis using wf by (auto simp: GetValueOut_sum tx_well_formed_def list_all_iff MoneyRange_def)
qed

lemma DoS_not_valid: "state_mode (DoS state level code reason corr) \<noteq> MODE_VALID"
  by (simp add: DoS_def Let_def)

subsection \<open>Lock times\<close>

lemma CheckLockTime_final:
  assumes "Tx_CheckLockTime tx nIn n" "nIn < length (vin tx)" "0 \<le> n" "IsFinalTx tx height time" "0 < height"
  shows "n < (if n < LOCKTIME_THRESHOLD then height else time)"
proof -
  let ?t = "uint (nLockTime tx)"
  have n: "n \<le> ?t" "n < LOCKTIME_THRESHOLD \<longleftrightarrow> ?t < LOCKTIME_THRESHOLD" "nSequence (vin tx ! nIn) \<noteq> SEQUENCE_FINAL"
    using assms(1) by (auto simp: Tx_CheckLockTime_def Let_def split: if_splits)
  then have "\<not> list_all (\<lambda>txin. nSequence txin = SEQUENCE_FINAL) (vin tx)"
    using assms(2) by (auto simp: list_all_length)
  then have "?t = 0 \<or> ?t < (if ?t < LOCKTIME_THRESHOLD then height else time)"
    using assms(4) by (auto simp: IsFinalTx_def Let_def split: if_splits)
  then show ?thesis using n assms(3,5) by (auto simp: LOCKTIME_THRESHOLD_def split: if_splits)
qed

text \<open>The block whose median time starts a time-based lock of a coin at the given height.\<close>

definition lock_start :: "index_store \<Rightarrow> addr \<Rightarrow> int \<Rightarrow> addr" where
  "lock_start h p nCoinHeight = (case GetAncestor h p (max (nCoinHeight - 1) 0) of Inr (Some q) \<Rightarrow> q | _ \<Rightarrow> p)"

text \<open>An input may be spent in a block of the given height whose predecessor has the given median time: the number of
  blocks, or of 512-second units, that its sequence number asks for has passed since its coin was confirmed.\<close>

definition input_unlocked :: "index_store \<Rightarrow> addr \<Rightarrow> int \<Rightarrow> int \<Rightarrow> CTxIn \<times> int \<Rightarrow> bool" where
  "input_unlocked h p height time = (\<lambda>(txin, nCoinHeight). let n = uint (nSequence txin AND SEQUENCE_LOCKTIME_MASK) in
     nSequence txin AND SEQUENCE_LOCKTIME_DISABLE_FLAG \<noteq> 0 \<or>
     (if nSequence txin AND SEQUENCE_LOCKTIME_TYPE_FLAG \<noteq> 0 then mtp h (lock_start h p nCoinHeight) + 512 * n \<le> time
      else nCoinHeight + n \<le> height))"

lemma mtp_nonneg: "0 \<le> mtp h p"
proof -
  have "past_times h p \<noteq> []" by (simp add: past_times_def nMedianTimeSpan_def)
  then have "length (past_times h p) div 2 < length (sort (past_times h p))" by (cases "past_times h p") simp_all
  then have "mtp h p \<in> set (past_times h p)" unfolding mtp_def by (metis nth_mem set_sort)
  then show ?thesis by (auto simp: past_times_def time_at_def GetBlockTime_def)
qed

lemma sequence_time: "uint (push_bit SEQUENCE_LOCKTIME_GRANULARITY (x AND SEQUENCE_LOCKTIME_MASK) :: u32) = 512 * uint (x AND SEQUENCE_LOCKTIME_MASK)"
proof -
  have m: "x AND SEQUENCE_LOCKTIME_MASK = take_bit 16 x"
    by (simp add: SEQUENCE_LOCKTIME_MASK_def take_bit_eq_mask mask_eq_exp_minus_1)
  have u: "uint (take_bit 16 x) < 65536" using take_bit_int_less_exp [of 16 "uint x"] by (simp only: unsigned_take_bit_eq) simp
  have "uint (push_bit 9 y) = 512 * uint y" if "uint y < 65536" for y :: u32
    using that by (simp only: unsigned_push_bit_eq) (simp add: push_bit_eq_mult take_bit_eq_mod)
  then show ?thesis using u unfolding m SEQUENCE_LOCKTIME_GRANULARITY_def by blast
qed

lemma lock_start_ok:
  assumes "wf_index h" "h p = Some b" "n \<le> nHeight b"
  shows "GetAncestor h p (max (n - 1) 0) = Inr (Some (lock_start h p n)) \<and> GetMedianTimePast h (lock_start h p n) = Inr (mtp h (lock_start h p n))"
proof -
  have 0: "0 \<le> nHeight b" using wf_index_height assms(1,2) .
  obtain q qb where q: "nth_prev h (nat (nHeight b - max (n - 1) 0)) p = Some q" "h q = Some qb"
    by (rule nth_prev_Some [OF assms(1,2), of "nat (nHeight b - max (n - 1) 0)"]) (use 0 assms(3) in auto)
  have "GetAncestor h p (max (n - 1) 0) = Inr (Some q)"
    using q(1) 0 assms(3) by (simp add: GetAncestor_nth_prev [OF assms(1,2)])
  then show ?thesis using GetMedianTimePast_mtp [OF assms(1) q(2)] by (simp add: lock_start_def)
qed

lemma input_unlocked_simps:
  "nSequence txin AND SEQUENCE_LOCKTIME_DISABLE_FLAG \<noteq> 0 \<Longrightarrow> input_unlocked h p height time (txin, n)"
  "nSequence txin AND SEQUENCE_LOCKTIME_DISABLE_FLAG = 0 \<Longrightarrow> nSequence txin AND SEQUENCE_LOCKTIME_TYPE_FLAG \<noteq> 0 \<Longrightarrow>
     input_unlocked h p height time (txin, n) \<longleftrightarrow> mtp h (lock_start h p n) + 512 * uint (nSequence txin AND SEQUENCE_LOCKTIME_MASK) \<le> time"
  "nSequence txin AND SEQUENCE_LOCKTIME_DISABLE_FLAG = 0 \<Longrightarrow> nSequence txin AND SEQUENCE_LOCKTIME_TYPE_FLAG = 0 \<Longrightarrow>
     input_unlocked h p height time (txin, n) \<longleftrightarrow> n + uint (nSequence txin AND SEQUENCE_LOCKTIME_MASK) \<le> height"
  by (simp_all add: input_unlocked_def)

lemma sequence_lock_loop_ok:
  assumes "wf_index h" "h p = Some b" "length ins = length hs" "list_all (\<lambda>n. n \<le> nHeight b) hs"
  shows "\<exists>hs' mh' mt'. sequence_lock_loop h p ins hs mh mt = Inr (hs', mh', mt') \<and>
    (\<forall>height time. mh' < height \<and> mt' < time \<longleftrightarrow> mh < height \<and> mt < time \<and> list_all (input_unlocked h p height time) (zip ins hs))"
  using assms(3,4)
proof (induction ins hs arbitrary: mh mt rule: list_induct2)
  case Nil
  then show ?case by simp
next
  case (Cons txin ins n hs)
  have n: "n \<le> nHeight b" "list_all (\<lambda>n. n \<le> nHeight b) hs" using Cons.prems by simp_all
  note l = lock_start_ok [OF assms(1,2) n(1)]
  consider "nSequence txin AND SEQUENCE_LOCKTIME_DISABLE_FLAG \<noteq> 0"
    | "nSequence txin AND SEQUENCE_LOCKTIME_DISABLE_FLAG = 0" "nSequence txin AND SEQUENCE_LOCKTIME_TYPE_FLAG \<noteq> 0"
    | "nSequence txin AND SEQUENCE_LOCKTIME_DISABLE_FLAG = 0" "nSequence txin AND SEQUENCE_LOCKTIME_TYPE_FLAG = 0" by blast
  then show ?case
  proof cases
    case 1
    from Cons.IH [OF n(2), of mh mt] obtain r where "sequence_lock_loop h p ins hs mh mt = Inr r"
      "\<forall>height time. fst (snd r) < height \<and> snd (snd r) < time \<longleftrightarrow> mh < height \<and> mt < time \<and> list_all (input_unlocked h p height time) (zip ins hs)"
      by force
    then show ?thesis using 1 by (cases r) (simp add: input_unlocked_simps)
  next
    case 2
    let ?t = "max mt (mtp h (lock_start h p n) + 512 * uint (nSequence txin AND SEQUENCE_LOCKTIME_MASK) - 1)"
    from Cons.IH [OF n(2), of mh ?t] obtain r where "sequence_lock_loop h p ins hs mh ?t = Inr r"
      "\<forall>height time. fst (snd r) < height \<and> snd (snd r) < time \<longleftrightarrow> mh < height \<and> ?t < time \<and> list_all (input_unlocked h p height time) (zip ins hs)"
      by force
    then show ?thesis using 2 l by (cases r) (auto simp: input_unlocked_simps sequence_time simp del: push_bit_and)
  next
    case 3
    let ?t = "max mh (n + uint (nSequence txin AND SEQUENCE_LOCKTIME_MASK) - 1)"
    from Cons.IH [OF n(2), of ?t mt] obtain r where "sequence_lock_loop h p ins hs ?t mt = Inr r"
      "\<forall>height time. fst (snd r) < height \<and> snd (snd r) < time \<longleftrightarrow> ?t < height \<and> mt < time \<and> list_all (input_unlocked h p height time) (zip ins hs)"
      by force
    then show ?thesis using 3 by (cases r) (auto simp: input_unlocked_simps)
  qed
qed

lemma SequenceLocks_val:
  assumes "wf_index h" "h p = Some b" "pprev b = Some q" "length prevHeights = length (vin tx)"
    "list_all (\<lambda>n. n \<le> nHeight b) prevHeights"
  shows "SequenceLocks h tx lock_flags prevHeights p = Inr
    (\<not> ((scast (tx_nVersion tx) :: u32) \<ge> 2 \<and> lock_flags AND LOCKTIME_VERIFY_SEQUENCE \<noteq> 0) \<or>
     list_all (input_unlocked h p (nHeight b) (mtp h q)) (zip (vin tx) prevHeights))"
proof -
  obtain qb where qb: "h q = Some qb" "nHeight b = nHeight qb + 1" using wf_index_prev assms(1-3) by metis
  have h0: "0 < nHeight b" using wf_index_height [OF assms(1) qb(1)] qb(2) by simp
  have e: "EvaluateSequenceLocks h p (a, t) = Inr (a < nHeight b \<and> t < mtp h q)" for a t
    using GetMedianTimePast_mtp [OF assms(1) qb(1)] assms(2,3) by (auto simp: EvaluateSequenceLocks_def deref_def)
  from sequence_lock_loop_ok [OF assms(1,2) assms(4) [symmetric] assms(5), of "- 1" "- 1"] obtain hs' a t where
    "sequence_lock_loop h p (vin tx) prevHeights (- 1) (- 1) = Inr (hs', a, t)"
    "a < nHeight b \<and> t < mtp h q \<longleftrightarrow> list_all (input_unlocked h p (nHeight b) (mtp h q)) (zip (vin tx) prevHeights)"
    using h0 mtp_nonneg [of h q] by force
  then show ?thesis using e assms(4) h0 mtp_nonneg [of h q]
    by (auto simp: SequenceLocks_def CalculateSequenceLocks_def)
qed

subsection \<open>Checks against the coins\<close>

text \<open>A cache that differs only in what it has fetched.\<close>

definition fetched :: "('b \<Rightarrow> bool) \<Rightarrow> ('b \<Rightarrow> COutPoint \<rightharpoonup> Coin) \<Rightarrow> ('b \<Rightarrow> uint256) \<Rightarrow> 'b CCoinsViewCache \<Rightarrow> 'b CCoinsViewCache \<Rightarrow> bool" where
  "fetched view_ok utxo best c c' \<longleftrightarrow>
     cache_inv view_ok utxo c' \<and> cache_utxo utxo c' = cache_utxo utxo c \<and> cache_best best c' = cache_best best c"

lemma fetched_inv: "fetched view_ok utxo best c c' \<Longrightarrow> cache_inv view_ok utxo c'"
  by (simp add: fetched_def)

lemma fetched_trans: "fetched ok utxo best c c' \<Longrightarrow> fetched ok utxo best c' c'' \<Longrightarrow> fetched ok utxo best c c''"
  by (simp add: fetched_def)

lemma fetched_utxo: "fetched ok utxo best c c' \<Longrightarrow> cache_utxo utxo c' = cache_utxo utxo c"
  by (simp add: fetched_def)

lemma fetched_refl: "cache_inv ok utxo c \<Longrightarrow> fetched ok utxo best c c"
  by (simp add: fetched_def)

text \<open>The sum of the inputs' values, and what \<open>CheckTxInputs\<close> asks of a coin: a coinbase has at least 100 confirmations, or 5 below height
  450000, and the value is in range.\<close>

definition value_in :: "(COutPoint \<rightharpoonup> Coin) \<Rightarrow> CTxIn list \<Rightarrow> int" where
  "value_in u ins = sum_list (map (\<lambda>txin. nValue (coin_out (the (u (prevout txin))))) ins)"

definition spendable :: "(COutPoint \<rightharpoonup> Coin) \<Rightarrow> int \<Rightarrow> CTxIn \<Rightarrow> bool" where
  "spendable u nSpendHeight txin = (case u (prevout txin) of None \<Rightarrow> False
     | Some coin \<Rightarrow> (fCoinBase coin \<longrightarrow> int (coin_nHeight coin) + (if 450000 \<le> nSpendHeight then 100 else 5) \<le> nSpendHeight) \<and>
         0 \<le> nValue (coin_out coin) \<and> nValue (coin_out coin) \<le> MAX_MONEY)"

lemma not_premature:
  "\<not> premature coin n \<longleftrightarrow> (fCoinBase coin \<longrightarrow> int (coin_nHeight coin) + (if 450000 \<le> n then 100 else 5) \<le> n)"
  by (auto simp: premature_def Coin_IsCoinBase_def COINBASE_MATURITY_def)

lemma value_in_simps [simp]:
  "value_in u [] = 0" "value_in u (txin # ins) = nValue (coin_out (the (u (prevout txin)))) + value_in u ins"
  by (simp_all add: value_in_def)

lemma value_in_nonneg: "list_all (spendable u n) ins \<Longrightarrow> 0 \<le> value_in u ins"
  by (induction ins) (auto simp: spendable_def MoneyRange_def split: option.splits)

lemma spendable_present: "spendable u n txin \<Longrightarrow> u (prevout txin) \<noteq> None"
  by (auto simp: spendable_def split: option.splits)

context coins_view_laws
begin

lemma access_coin:
  assumes "cache_inv view_ok utxo c"
  obtains c' coin where "AccessCoin view c p = (coin, c')" "coin_value coin = cache_utxo utxo c p" "fetched view_ok utxo best c c'"
  using AccessCoin_ok [OF assms, of p] unfolding fetched_def by blast

lemma access_unspent:
  assumes "cache_inv view_ok utxo c" "cache_utxo utxo c p = Some coin"
  obtains c' where "AccessCoin view c p = (coin, c')" "\<not> Coin_IsSpent coin" "fetched view_ok utxo best c c'"
  using access_coin [OF assms(1), of p] assms(2) by (metis coin_value_Some)

lemma have_inputs_loop_ok:
  assumes "cache_inv view_ok utxo c"
  shows "\<exists>c'. have_inputs_loop view ins c = (list_all (\<lambda>txin. cache_utxo utxo c (prevout txin) \<noteq> None) ins, c') \<and> fetched view_ok utxo best c c'"
  using assms
proof (induction ins arbitrary: c)
  case Nil
  then show ?case by (simp add: fetched_refl)
next
  case (Cons txin ins)
  from HaveCoin_ok [OF Cons.prems, of "prevout txin"] obtain c1 where
    c1: "HaveCoin view c (prevout txin) = (cache_utxo utxo c (prevout txin) \<noteq> None, c1)" "fetched view_ok utxo best c c1"
    unfolding fetched_def by blast
  from Cons.IH [OF fetched_inv [OF c1(2)]] obtain c2 where
    "have_inputs_loop view ins c1 = (list_all (\<lambda>txin. cache_utxo utxo c (prevout txin) \<noteq> None) ins, c2)" "fetched view_ok utxo best c c2"
    using fetched_utxo [OF c1(2)] fetched_trans [OF c1(2)] by auto
  then show ?case using c1 by (cases "cache_utxo utxo c (prevout txin) = None") auto
qed

lemma HaveInputs_ok:
  assumes "cache_inv view_ok utxo c"
  shows "\<exists>c'. HaveInputs view c tx = (IsCoinBase tx \<or> list_all (\<lambda>txin. cache_utxo utxo c (prevout txin) \<noteq> None) (vin tx), c') \<and>
    fetched view_ok utxo best c c'"
  using have_inputs_loop_ok [OF assms, of "vin tx"] fetched_refl [OF assms] by (simp add: HaveInputs_def)

lemma tx_inputs_loop_ok:
  assumes "cache_inv view_ok utxo c" "list_all (\<lambda>txin. cache_utxo utxo c (prevout txin) \<noteq> None) ins" "MoneyRange a"
  shows "if list_all (spendable (cache_utxo utxo c) nSpendHeight) ins \<and> a + value_in (cache_utxo utxo c) ins \<le> MAX_MONEY
    then \<exists>c'. tx_inputs_loop view state nSpendHeight ins a c = Inr (a + value_in (cache_utxo utxo c) ins, c') \<and> fetched view_ok utxo best c c'
    else \<exists>st. tx_inputs_loop view state nSpendHeight ins a c = Inl (Rejected st)"
  using assms
proof (induction ins arbitrary: a c)
  case Nil
  then show ?case by (simp add: fetched_refl MoneyRange_def)
next
  case (Cons txin ins)
  let ?u = "cache_utxo utxo c"
  obtain coin where coin: "?u (prevout txin) = Some coin" using Cons.prems(2) by auto
  obtain c1 where c1: "AccessCoin view c (prevout txin) = (coin, c1)" "\<not> Coin_IsSpent coin" "fetched view_ok utxo best c c1"
    by (rule access_unspent [OF Cons.prems(1) coin])
  have u1: "cache_utxo utxo c1 = ?u" using fetched_utxo [OF c1(3)] .
  let ?v = "nValue (coin_out coin)"
  have sp: "spendable ?u nSpendHeight txin \<longleftrightarrow> \<not> premature coin nSpendHeight \<and> MoneyRange ?v" using coin by (simp add: spendable_def not_premature MoneyRange_def)
  show ?case
  proof (cases "spendable ?u nSpendHeight txin \<and> a + ?v \<le> MAX_MONEY")
    case True
    then have r: "MoneyRange ?v" "\<not> premature coin nSpendHeight" "a + ?v \<le> MAX_MONEY" using sp by auto
    have i: "int64 (a + ?v) = a + ?v" using r Cons.prems(3) by (intro int64_add) (simp_all add: MoneyRange_def)
    have mr: "MoneyRange (a + ?v)" using r Cons.prems(3) by (simp add: MoneyRange_def)
    have step: "tx_inputs_loop view state nSpendHeight (txin # ins) a c = tx_inputs_loop view state nSpendHeight ins (a + ?v) c1"
      using c1 r i mr by simp
    have "list_all (\<lambda>txin. cache_utxo utxo c1 (prevout txin) \<noteq> None) ins" using Cons.prems(2) u1 by simp
    from Cons.IH [OF fetched_inv [OF c1(3)] this mr] show ?thesis
      unfolding step u1 using True coin fetched_trans [OF c1(3)] by (auto simp: algebra_simps split: if_splits)
  next
    case False
    have "\<not> (list_all (spendable ?u nSpendHeight) (txin # ins) \<and> a + value_in ?u (txin # ins) \<le> MAX_MONEY)"
      using False coin value_in_nonneg [of ?u nSpendHeight ins] by auto
    moreover have "\<exists>st. tx_inputs_loop view state nSpendHeight (txin # ins) a c = Inl (Rejected st)"
    proof (cases "spendable ?u nSpendHeight txin")
      case True
      then have "MoneyRange ?v" "\<not> a + ?v \<le> MAX_MONEY" using sp False by auto
      moreover from this have "int64 (a + ?v) = a + ?v" using Cons.prems(3) by (intro int64_add) (simp_all add: MoneyRange_def)
      ultimately show ?thesis using c1 True sp by (simp add: MoneyRange_def)
    next
      case False
      then show ?thesis using c1 sp by auto
    qed
    ultimately show ?thesis by (simp only: if_False)
  qed
qed

lemma CheckTxInputs_ok:
  assumes "cache_inv view_ok utxo c" "\<not> IsCoinBase tx" "GetValueOut tx = Some v"
  shows "if list_all (spendable (cache_utxo utxo c) nSpendHeight) (vin tx) \<and> value_in (cache_utxo utxo c) (vin tx) \<le> MAX_MONEY \<and>
      v \<le> value_in (cache_utxo utxo c) (vin tx)
    then \<exists>c'. CheckTxInputs view tx state c nSpendHeight = Inr (value_in (cache_utxo utxo c) (vin tx) - v, c') \<and> fetched view_ok utxo best c c'
    else \<exists>st. CheckTxInputs view tx state c nSpendHeight = Inl (Rejected st)"
proof -
  let ?u = "cache_utxo utxo c"
  obtain c1 where c1: "HaveInputs view c tx = (list_all (\<lambda>txin. ?u (prevout txin) \<noteq> None) (vin tx), c1)" "fetched view_ok utxo best c c1"
    using HaveInputs_ok [OF assms(1), of tx] assms(2) by auto
  have u1: "cache_utxo utxo c1 = ?u" using fetched_utxo [OF c1(2)] .
  have v: "0 \<le> v" "v \<le> MAX_MONEY"
    using assms(3) by (auto simp: GetValueOut_sum list_all_iff MoneyRange_def intro!: sum_list_nonneg)
  show ?thesis
  proof (cases "list_all (\<lambda>txin. ?u (prevout txin) \<noteq> None) (vin tx)")
    case True
    note l = tx_inputs_loop_ok [OF fetched_inv [OF c1(2)], unfolded u1, OF True, of 0 nSpendHeight state, simplified]
    show ?thesis
    proof (cases "list_all (spendable ?u nSpendHeight) (vin tx) \<and> value_in ?u (vin tx) \<le> MAX_MONEY")
      case ok: True
      then obtain c2 where "tx_inputs_loop view state nSpendHeight (vin tx) 0 c1 = Inr (value_in ?u (vin tx), c2)" "fetched view_ok utxo best c c2"
        using l fetched_trans [OF c1(2)] by (auto simp: MoneyRange_def MAX_MONEY_val)
      then show ?thesis using ok c1 True assms(3) v value_in_nonneg [of ?u nSpendHeight "vin tx"]
        by (auto simp: CheckTxInputs_def Let_def MoneyRange_def)
    next
      case False
      then obtain st where "tx_inputs_loop view state nSpendHeight (vin tx) 0 c1 = Inl (Rejected st)"
        using l by (auto simp: MoneyRange_def MAX_MONEY_val split: if_splits)
      then show ?thesis using False c1 True by (auto simp: CheckTxInputs_def)
    qed
  next
    case False
    then have "\<not> list_all (spendable ?u nSpendHeight) (vin tx)"
      using spendable_present unfolding list_all_iff by blast
    then show ?thesis using False c1 by (auto simp: CheckTxInputs_def)
  qed
qed

lemma check_scripts_fetched:
  "check_scripts cv view state tx nFlags i ins c = Inr c' \<Longrightarrow> cache_inv view_ok utxo c \<Longrightarrow> fetched view_ok utxo best c c'"
proof (induction ins arbitrary: i c)
  case (Cons txin ins)
  obtain c1 coin where c1: "AccessCoin view c (prevout txin) = (coin, c1)" "fetched view_ok utxo best c c1"
    using access_coin [OF Cons.prems(2)] by metis
  then have "check_scripts cv view state tx nFlags (Suc i) ins c1 = Inr c'"
    using Cons.prems(1) by (auto split: if_splits sum.splits verify_error.splits)
  then show ?case using Cons.IH fetched_inv [OF c1(2)] fetched_trans [OF c1(2)] by blast
qed (simp add: fetched_refl)

text \<open>Accepted scripts: every input's script was verified against the script of the coin it spends.\<close>

lemma check_scripts_verified:
  "check_scripts cv view state tx nFlags i ins c = Inr c' \<Longrightarrow> cache_inv view_ok utxo c \<Longrightarrow> k < length ins \<Longrightarrow>
   \<exists>coin. cache_utxo utxo c (prevout (ins ! k)) = Some coin \<and> CScriptCheck cv (scriptPubKey (coin_out coin)) tx (i + k) nFlags = Inr ()"
proof (induction ins arbitrary: i c k)
  case (Cons txin ins)
  obtain c1 coin where c1: "AccessCoin view c (prevout txin) = (coin, c1)" "coin_value coin = cache_utxo utxo c (prevout txin)"
    "fetched view_ok utxo best c c1"
    using access_coin [OF Cons.prems(2)] by metis
  then have r: "check_scripts cv view state tx nFlags (Suc i) ins c1 = Inr c'" "\<not> Coin_IsSpent coin"
    "CScriptCheck cv (scriptPubKey (coin_out coin)) tx i nFlags = Inr ()"
    using Cons.prems(1) by (auto split: if_splits sum.splits verify_error.splits)
  show ?case
  proof (cases k)
    case 0
    then show ?thesis using r c1(2) [symmetric] by simp
  next
    case (Suc j)
    then show ?thesis using Cons.IH [OF r(1) fetched_inv [OF c1(3)], of j] Cons.prems(3) fetched_utxo [OF c1(3)] by auto
  qed
qed simp

end

context coins_view_laws
begin

lemma best_block:
  assumes "cache_inv view_ok utxo c"
  obtains c' where "Cache_GetBestBlock view c = (cache_best best c, c')" "fetched view_ok utxo best c c'"
  using coins_view_laws.get_best [OF cache_is_view assms] unfolding fetched_def by (auto simp: cache_view_def)

lemma check_scripts_complete:
  assumes "cache_inv view_ok utxo c"
    "\<And>k. k < length ins \<Longrightarrow> \<exists>coin. cache_utxo utxo c (prevout (ins ! k)) = Some coin \<and> CScriptCheck cv (scriptPubKey (coin_out coin)) tx (i + k) nFlags = Inr ()"
  shows "\<exists>c'. check_scripts cv view state tx nFlags i ins c = Inr c'"
  using assms
proof (induction ins arbitrary: i c)
  case (Cons txin ins)
  from Cons.prems(2) [of 0] obtain coin where coin: "cache_utxo utxo c (prevout txin) = Some coin"
    "CScriptCheck cv (scriptPubKey (coin_out coin)) tx i nFlags = Inr ()" by auto
  obtain c1 where c1: "AccessCoin view c (prevout txin) = (coin, c1)" "\<not> Coin_IsSpent coin" "fetched view_ok utxo best c c1"
    by (rule access_unspent [OF Cons.prems(1) coin(1)])
  have "\<exists>c'. check_scripts cv view state tx nFlags (Suc i) ins c1 = Inr c'"
    by (rule Cons.IH [OF fetched_inv [OF c1(3)]])
      (use Cons.prems(2) [of "Suc k" for k] fetched_utxo [OF c1(3)] in auto)
  then show ?case using c1 coin by simp
qed simp

lemma CheckInputs_fetched:
  assumes "CheckInputs cv t view tx state c scripts nFlags = Inr c'" "cache_inv view_ok utxo c" "GetValueOut tx = Some v"
  shows "fetched view_ok utxo best c c'"
proof (cases "IsCoinBase tx")
  case False
  then obtain n c1 fee c2 where g: "GetSpendHeight t view c = Inr (n, c1)" "CheckTxInputs view tx state c1 n = Inr (fee, c2)"
    "(if scripts then check_scripts cv view state tx nFlags 0 (vin tx) c2 else Inr c2) = Inr c'"
    using assms(1) by (auto simp: CheckInputs_def bindE_eq_Inr split: prod.splits)
  obtain c1' where "Cache_GetBestBlock view c = (cache_best best c, c1')" "fetched view_ok utxo best c c1'"
    by (rule best_block [OF assms(2)])
  then have f1: "fetched view_ok utxo best c c1" using g(1) by (auto simp: GetSpendHeight_def split: option.splits)
  from CheckTxInputs_ok [OF fetched_inv [OF f1] False assms(3), of n state] g(2) have f2: "fetched view_ok utxo best c1 c2"
    by (auto split: if_splits)
  have "fetched view_ok utxo best c2 c'"
    using g(3) check_scripts_fetched fetched_inv [OF f2] fetched_refl by (auto split: if_splits)
  then show ?thesis using f1 f2 fetched_trans by blast
qed (use assms in \<open>simp add: CheckInputs_def fetched_refl\<close>)

lemma CheckInputs_iff:
  assumes "cache_inv view_ok utxo c" "\<not> IsCoinBase tx" "GetValueOut tx = Some v"
    "mapBlockIndex t (cache_best best c) = Some p" "index t p = Some b"
  shows "(\<exists>c'. CheckInputs cv t view tx state c True nFlags = Inr c') \<longleftrightarrow>
    list_all (spendable (cache_utxo utxo c) (nHeight b + 1)) (vin tx) \<and> value_in (cache_utxo utxo c) (vin tx) \<le> MAX_MONEY \<and>
    v \<le> value_in (cache_utxo utxo c) (vin tx) \<and>
    (\<forall>k < length (vin tx). \<exists>coin. cache_utxo utxo c (prevout (vin tx ! k)) = Some coin \<and>
       CScriptCheck cv (scriptPubKey (coin_out coin)) tx k nFlags = Inr ())"
    (is "?L \<longleftrightarrow> ?I \<and> ?M \<and> ?V \<and> ?S")
proof -
  obtain c1 where c1: "Cache_GetBestBlock view c = (cache_best best c, c1)" "fetched view_ok utxo best c c1"
    by (rule best_block [OF assms(1)])
  have g: "GetSpendHeight t view c = Inr (nHeight b + 1, c1)" using c1(1) assms(4,5) by (simp add: GetSpendHeight_def)
  note ti = CheckTxInputs_ok [OF fetched_inv [OF c1(2)] assms(2,3), of "nHeight b + 1" state, unfolded fetched_utxo [OF c1(2)]]
  show ?thesis
  proof (cases "?I \<and> ?M \<and> ?V")
    case True
    then obtain fee c2 where c2: "CheckTxInputs view tx state c1 (nHeight b + 1) = Inr (fee, c2)" "fetched view_ok utxo best c1 c2"
      using ti by auto
    have u2: "cache_inv view_ok utxo c2" "cache_utxo utxo c2 = cache_utxo utxo c"
      using fetched_inv [OF c2(2)] fetched_utxo [OF c2(2)] fetched_utxo [OF c1(2)] by simp_all
    have "?L \<longleftrightarrow> (\<exists>c'. check_scripts cv view state tx nFlags 0 (vin tx) c2 = Inr c')"
      using g c2(1) assms(2) by (simp add: CheckInputs_def)
    also have "\<dots> \<longleftrightarrow> ?S"
      using check_scripts_complete [OF u2(1), of "vin tx" cv tx 0 nFlags state]
        check_scripts_verified [of cv state tx nFlags 0 "vin tx" c2] u2 by (metis add_0)
    finally show ?thesis using True by blast
  next
    case False
    then obtain st where "CheckTxInputs view tx state c1 (nHeight b + 1) = Inl (Rejected st)" using ti by (auto split: if_splits)
    then have "\<not> ?L" using g assms(2) by (simp add: CheckInputs_def)
    then show ?thesis using False by blast
  qed
qed

end

lemma serialize_num_length: "128 \<le> n \<Longrightarrow> n < 2 ^ 32 \<Longrightarrow> 2 \<le> length (serialize_num n) \<and> length (serialize_num n) \<le> 5"
proof -
  assume n: "128 \<le> n" "n < 2 ^ 32"
  have "\<not> length (serialize_num n) \<le> 1"
  proof
    assume "length (serialize_num n) \<le> 1"
    from CScriptNum_bound [OF serialize_num_roundtrip [OF this, of True]] show False using n(1) by simp
  qed
  then show ?thesis using length_serialize_num [of n 4] n by simp
qed

lemma CLTV_eval:
  assumes "EvalScript env stack (push_data (serialize_num n) @ of_nat OP_CHECKLOCKTIMEVERIFY # rest) = Inr s"
    "flagged env SCRIPT_VERIFY_CHECKLOCKTIMEVERIFY" "128 \<le> n" "n < 2 ^ 32"
  shows "CheckLockTime (checker env) n"
proof -
  define st where "st = \<lparr>es_stack = stack, es_altstack = [], es_vfExec = [], es_nOpCount = 0,
    es_pbegincodehash = push_data (serialize_num n) @ of_nat OP_CHECKLOCKTIMEVERIFY # rest\<rparr>"
  define st1 where "st1 = st \<lparr>es_stack := serialize_num n # stack\<rparr>"
  note len = serialize_num_length [OF assms(3,4)]
  have sm: "small (serialize_num n)" using len by (simp add: MAX_SCRIPT_ELEMENT_SIZE_def)
  have st: "running st" "running st1" "es_nOpCount st1 = 0" "es_stack st1 = serialize_num n # stack" "es_stack st = stack"
    by (simp_all add: st_def st1_def running_def)
  obtain st' where "eval_loop env (push_data (serialize_num n) @ of_nat OP_CHECKLOCKTIMEVERIFY # rest) st = Inr st'"
    using assms(1) unfolding EvalScript_def st_def by (auto simp: bindE_eq_Inr split: if_splits)
  then have "eval_loop env (of_nat OP_CHECKLOCKTIMEVERIFY # rest) st1 = Inr st'"
    using eval_loop_push [OF sm conjunct1 [OF len] st(1), of env] st(5) unfolding st1_def by (simp split: if_splits)
  then have "bindE (exec_opcode env rest OP_CHECKLOCKTIMEVERIFY True (st1 \<lparr>es_nOpCount := 1\<rparr>)) (\<lambda>st'.
       if length (es_stack st') + length (es_altstack st') > 1000 then Inl SCRIPT_ERR_STACK_SIZE else eval_loop env rest st') = Inr st'"
    using eval_loop_op [of OP_CHECKLOCKTIMEVERIFY st1 env rest] st(2,3)
    by (simp add: disabled_opcodes_def MAX_OPS_PER_SCRIPT_def)
  then obtain st2 where "op_checklocktimeverify env (st1 \<lparr>es_nOpCount := 1\<rparr>) = Inr st2"
    by (auto simp: exec_opcode_def bindE_eq_Inr)
  then obtain m where "script_num env (serialize_num n) 5 = Inr m" "CheckLockTime (checker env) m"
    using assms(2) st(4) by (auto simp: op_checklocktimeverify_def bindE_eq_Inr split: if_splits)
  moreover have "script_num env (serialize_num n) 5 = Inr n"
    using len by (simp add: script_num_def serialize_num_roundtrip)
  ultimately show ?thesis by simp
qed

lemma CScriptCheck_pubkey_eval:
  "CScriptCheck cv script tx i nFlags = Inr () \<Longrightarrow> \<exists>stack s. EvalScript
     \<lparr>flags = nFlags, checker = TransactionSignatureChecker (curve_Verify cv) tx i, CheckLowS = curve_CheckLowS cv\<rparr> stack script = Inr s"
  by (auto simp: CScriptCheck_def VerifyScript_def bindE_eq_Inr eval_for_verify_Inr split: if_splits)

lemma CheckTransaction_Inl:
  "CheckTransaction tx state = Inl e \<Longrightarrow> \<exists>state'. e = Rejected state' \<and> \<not> state_IsValid state'"
proof -
  have o: "check_outputs state outs a = Inl e \<Longrightarrow> \<exists>state'. e = Rejected state' \<and> \<not> state_IsValid state'" for outs a e
    by (induction outs arbitrary: a) (auto simp: Let_def state_IsValid_def DoS_not_valid split: if_splits)
  have d: "check_duplicates state ins S = Inl e \<Longrightarrow> \<exists>state'. e = Rejected state' \<and> \<not> state_IsValid state'" for ins S e
    by (induction ins arbitrary: S) (auto simp: state_IsValid_def DoS_not_valid split: if_splits)
  have b: "check_burnt state ins = Inl e \<Longrightarrow> \<exists>state'. e = Rejected state' \<and> \<not> state_IsValid state'" for ins e
    by (induction ins) (auto simp: state_IsValid_def DoS_not_valid split: if_splits)
  assume "CheckTransaction tx state = Inl e"
  then show ?thesis unfolding CheckTransaction_def Let_def
    by (auto simp: bindE_eq_Inl state_IsValid_def DoS_not_valid split: if_splits dest!: o d b)
qed

subsection \<open>Examples\<close>

definition demo_spend :: CMutableTransaction where
  "demo_spend = \<lparr>tx_nVersion = 2, tx_nType = TRANSACTION_NORMAL, vin = [\<lparr>prevout = demo_point, scriptSig = [], nSequence = 0\<rparr>],
     vout = [\<lparr>nValue = 49 * COIN, scriptPubKey = [81], nRounds = - 10\<rparr>], nLockTime = 1000, vExtraPayload = []\<rparr>"

definition demo_curve :: curve where
  "demo_curve = \<lparr>curve_Verify = (\<lambda>_ _ _. False), curve_CheckLowS = (\<lambda>_. False)\<rparr>"

lemma demo_spend_size: "GetTotalSize demo_spend = 61"
  by (simp add: GetTotalSize_def Serialize_CTransaction_def Serialize_vector_def Serialize_CTxIn_def Serialize_CTxOut_def
      Serialize_COutPoint_def Serialize_bytes_def WriteCompactSize_def has_payload_def demo_spend_def demo_point_def
      ser_writedata8_def ser_writedata32_def ser_writedata64_def)

lemma demo_spend_ok: "tx_well_formed demo_spend" "\<not> IsCoinBase demo_spend"
proof -
  show cb: "\<not> IsCoinBase demo_spend" by (simp add: IsCoinBase_def demo_spend_def COutPoint_IsNull_def demo_point_def)
  have "(op_hash demo_point, op_n demo_point) \<notin> set burnt_inputs" by (simp add: demo_point_def burnt_inputs_def)
  moreover have "\<not> COutPoint_IsNull demo_point" by (simp add: COutPoint_IsNull_def demo_point_def)
  ultimately show "tx_well_formed demo_spend"
    using cb demo_spend_size by (simp add: tx_well_formed_def demo_spend_def COIN_def MAX_MONEY_val)
qed

lemma demo_lock: "CScriptCheck demo_curve (push_data (serialize_num 1000) @ [of_nat OP_CHECKLOCKTIMEVERIFY]) demo_spend 0 512 = Inr ()"
  by code_simp

lemma demo_true: "CScriptCheck demo_curve [81] demo_spend 0 0 = Inr ()"
  by code_simp

definition demo_tree :: block_tree where
  "demo_tree = \<lparr>index = demo_index, mapBlockIndex = [replicate 32 1 \<mapsto> 1], pindexBestHeader = Some 1, setDirtyBlockIndex = {}, mapPrevBlockIndex = []\<rparr>"

lemma demo_tree_best: "mapBlockIndex demo_tree (block_best demo_cache) = Some 1" "index demo_tree 1 = Some (demo_entry 1 (Some 0) (Some 0) 1 5 10)"
proof -
  have "block_best demo_cache = cache_hashBlock demo_cache"
    using demo_cache_ok(3) by (simp add: block_best_def cache_best_def)
  also have "\<dots> = replicate 32 1" by (simp add: demo_cache_def SetBestBlock_inv)
  finally show "mapBlockIndex demo_tree (block_best demo_cache) = Some 1" by (simp add: demo_tree_def)
qed (simp add: demo_tree_def demo_index_def)

subsection \<open>Properties\<close>

text \<open>Property C29. \<open>CheckTransaction\<close> accepts exactly the well-formed transactions: non-empty unless they are quorum commitments, within
  the size limits, with non-negative outputs whose exact sum is within the money range, without repeated, burnt or (outside a
  coinbase) null inputs and with a coinbase script of the allowed size; for these \<open>GetValueOut\<close> returns the sum and cannot
  throw. Every other transaction is rejected with a state that is no longer valid.\<close>
theorem CheckTransaction_correct:
  "if tx_well_formed tx then CheckTransaction tx state = Inr () \<and> GetValueOut tx = Some (sum_list (map nValue (vout tx)))
   else \<exists>state'. CheckTransaction tx state = Inl (Rejected state') \<and> \<not> state_IsValid state'"
proof (cases "tx_well_formed tx")
  case False
  then have "CheckTransaction tx state \<noteq> Inr ()" by (simp add: CheckTransaction_Inr)
  then show ?thesis using CheckTransaction_Inl [of tx state] False by (cases "CheckTransaction tx state") auto
qed (simp add: CheckTransaction_Inr tx_well_formed_GetValueOut)

text \<open>Property C19. \<open>OP_CHECKLOCKTIMEVERIFY\<close> locks a coin: when the script of a coin begins with a lock time and that opcode and the input
  that spends it verifies, the spending transaction is final only in blocks whose height, or time for lock times
  from 500000000 on, is above the lock time. This joins the interpreter, the signature checker and \<open>IsFinalTx\<close>.\<close>
theorem CLTV_locks_coin:
  assumes "CScriptCheck cv (push_data (serialize_num n) @ of_nat OP_CHECKLOCKTIMEVERIFY # rest) tx i nFlags = Inr ()"
    "has_flag nFlags SCRIPT_VERIFY_CHECKLOCKTIMEVERIFY" "128 \<le> n" "n < 2 ^ 32" "i < length (vin tx)"
    "IsFinalTx tx height time" "0 < height"
  shows "n < (if n < LOCKTIME_THRESHOLD then height else time)"
proof -
  obtain stack s where "EvalScript \<lparr>flags = nFlags, checker = TransactionSignatureChecker (curve_Verify cv) tx i,
      CheckLowS = curve_CheckLowS cv\<rparr> stack (push_data (serialize_num n) @ of_nat OP_CHECKLOCKTIMEVERIFY # rest) = Inr s"
    using CScriptCheck_pubkey_eval [OF assms(1)] by blast
  from CLTV_eval [OF this] have "Tx_CheckLockTime tx i n"
    using assms(2-4) by (simp add: TransactionSignatureChecker_def)
  then show ?thesis using CheckLockTime_final assms(3,5-7) by fastforce
qed

theorem CLTV_locks_coin_witness:
  "CScriptCheck demo_curve (push_data (serialize_num 1000) @ of_nat OP_CHECKLOCKTIMEVERIFY # []) demo_spend 0 512 = Inr () \<and>
   has_flag 512 SCRIPT_VERIFY_CHECKLOCKTIMEVERIFY \<and> IsFinalTx demo_spend 1001 0 \<and> 1000 < (1001 :: int) \<and> \<not> IsFinalTx demo_spend 1000 0"
proof -
  have f: "has_flag 512 SCRIPT_VERIFY_CHECKLOCKTIMEVERIFY" by (simp add: has_flag_def)
  note lock = CLTV_locks_coin [OF demo_lock f]
  have "IsFinalTx demo_spend 1001 0" by (simp add: demo_spend_def IsFinalTx_def LOCKTIME_THRESHOLD_def)
  moreover from lock this have "1000 < (1001 :: int)" by (simp add: demo_spend_def LOCKTIME_THRESHOLD_def)
  moreover have "\<not> IsFinalTx demo_spend 1000 0" using lock [of 1000 0] by (auto simp: demo_spend_def LOCKTIME_THRESHOLD_def)
  ultimately show ?thesis using demo_lock f by simp
qed

text \<open>Property C20. The sequence locks of BIP68: in a well-formed block tree \<open>SequenceLocks\<close> never fails, and it returns true exactly when the
  rule is not enforced or every input without the disable flag has aged enough, counted in blocks from the height of its coin
  or in units of 512 seconds from the median time of the block before that coin, up to the median time of the
  block's predecessor.\<close>
theorem SequenceLocks_correct:
  assumes "wf_index h" "h p = Some b" "pprev b = Some q" "length prevHeights = length (vin tx)"
    "list_all (\<lambda>n. n \<le> nHeight b) prevHeights"
  shows "SequenceLocks h tx lock_flags prevHeights p = Inr
    (\<not> ((scast (tx_nVersion tx) :: u32) \<ge> 2 \<and> lock_flags AND LOCKTIME_VERIFY_SEQUENCE \<noteq> 0) \<or>
     list_all (input_unlocked h p (nHeight b) (mtp h q)) (zip (vin tx) prevHeights))"
  using assms by (rule SequenceLocks_val)

theorem SequenceLocks_correct_witness:
  "SequenceLocks demo_index demo_spend 1 [1] 2 = Inr (list_all (input_unlocked demo_index 2 2 (mtp demo_index 1)) [(hd (vin demo_spend), 1)])"
proof -
  have "demo_index 2 = Some (demo_entry 2 (Some 1) (Some 0) 2 20 20)" by (simp add: demo_index_def)
  from SequenceLocks_correct [OF demo_index_wf this, of 1 "[1]" demo_spend 1] show ?thesis
    by (simp add: demo_entry_def demo_spend_def LOCKTIME_VERIFY_SEQUENCE_def)
qed



end
