(* ===== verification/Connect.thy ===== *)
theory Connect
  imports Tx_Verify
begin

text \<open>
  The effect of a block on the set of coins, \<^verbatim>\<open>src/src/validation.cpp\<close> and the undo data of \<^verbatim>\<open>src/src/undo.h\<close>: \<open>UpdateCoins\<close>, the loop
  of \<open>ConnectBlock\<close> over the transactions with the BIP30 check before it, \<open>ApplyTxInUndo\<close> and \<open>DisconnectBlock\<close>.
  The entries of the optional address index that the two write and erase are in \<open>Address_Index\<close>. The undo data of a block is the list of the lists of
  coins its transactions spent, without the coinbase. What the rest of the node contributes is an argument: the
  undo data read from disk, the outcome of the check of the EvoDB and of undoing the special transactions, the
  flags that hold for the block. Checks of \<open>ConnectBlock\<close> outside the loop (subsidy, masternode payments, locks of
  the quorums) are not modelled.
\<close>

unbundle bit_operations_syntax

subsection \<open>Transactions\<close>

type_synonym CTxUndo = "Coin list"

fun spend_inputs :: "'b coins_view \<Rightarrow> CTxIn list \<Rightarrow> 'b CCoinsViewCache \<Rightarrow> coins_error + CTxUndo \<times> 'b CCoinsViewCache" where
  "spend_inputs view [] c = Inr ([], c)"
| "spend_inputs view (txin # ins) c = (case SpendCoin view c (prevout txin) of
     (None, c') \<Rightarrow> Inl Coin_assert
   | (Some coin, c') \<Rightarrow> bindE (spend_inputs view ins c') (\<lambda>(vprevout, c''). Inr (coin # vprevout, c'')))"

definition UpdateCoins :: "'b coins_view \<Rightarrow> CTransaction \<Rightarrow> 'b CCoinsViewCache \<Rightarrow> int \<Rightarrow> coins_error + CTxUndo \<times> 'b CCoinsViewCache" where
  "UpdateCoins view tx inputs height =
     bindE (if \<not> IsCoinBase tx then spend_inputs view (vin tx) inputs else Inr ([], inputs)) (\<lambda>(txundo, c).
     bindE (AddCoins c tx height) (\<lambda>c'. Inr (txundo, c')))"

datatype DisconnectResult = DISCONNECT_OK | DISCONNECT_UNCLEAN | DISCONNECT_FAILED

text \<open>The missing height and coinbase flag of a coin from an old undo record are those of another output of its transaction.\<close>

definition undo_metadata :: "'b coins_view \<Rightarrow> Coin \<Rightarrow> 'b CCoinsViewCache \<Rightarrow> COutPoint \<Rightarrow> Coin option \<times> 'b CCoinsViewCache" where
  "undo_metadata view undo c out =
     (if coin_nHeight undo = 0 then case AccessByTxid view c (op_hash out) of (alternate, c') \<Rightarrow>
        (if \<not> Coin_IsSpent alternate
         then Some (undo \<lparr>coin_nHeight := coin_nHeight alternate, fCoinBase := fCoinBase alternate\<rparr>) else None, c')
      else (Some undo, c))"

definition ApplyTxInUndo ::
  "'b coins_view \<Rightarrow> Coin \<Rightarrow> 'b CCoinsViewCache \<Rightarrow> COutPoint \<Rightarrow> coins_error + DisconnectResult \<times> 'b CCoinsViewCache" where
  "ApplyTxInUndo view undo c out = (case HaveCoin view c out of (have, c1) \<Rightarrow>
     case undo_metadata view undo c1 out of
       (None, c2) \<Rightarrow> Inr (DISCONNECT_FAILED, c2)
     | (Some coin, c2) \<Rightarrow> bindE (AddCoin c2 out coin (fCoinBase coin)) (\<lambda>c3.
         Inr (if \<not> have then DISCONNECT_OK else DISCONNECT_UNCLEAN, c3)))"

subsection \<open>Disconnecting a block\<close>

text \<open>The outputs of a transaction from the \<open>o\<close>th on are spent; the flag stays true while they match the block.\<close>

fun disconnect_outputs ::
  "'b coins_view \<Rightarrow> CTransaction \<Rightarrow> int \<Rightarrow> nat \<Rightarrow> CTxOut list \<Rightarrow> bool \<Rightarrow> 'b CCoinsViewCache \<Rightarrow> bool \<times> 'b CCoinsViewCache" where
  "disconnect_outputs view tx height i [] fClean c = (fClean, c)"
| "disconnect_outputs view tx height i (txout # outs) fClean c =
     (if \<not> IsUnspendable (scriptPubKey txout) then
        case SpendCoin view c \<lparr>op_hash = tx_hash tx, op_n = of_nat i\<rparr> of (spent, c') \<Rightarrow>
        disconnect_outputs view tx height (Suc i) outs
          (case spent of None \<Rightarrow> False
           | Some coin \<Rightarrow> if txout \<noteq> coin_out coin \<or> height \<noteq> int (coin_nHeight coin) \<or> IsCoinBase tx \<noteq> fCoinBase coin then False else fClean) c'
      else disconnect_outputs view tx height (Suc i) outs fClean c)"

text \<open>The inputs below the \<open>j\<close>th are restored from the last one on. \<open>None\<close> for the flag is \<open>DISCONNECT_FAILED\<close>.\<close>

fun restore_inputs ::
  "'b coins_view \<Rightarrow> CTxIn list \<Rightarrow> CTxUndo \<Rightarrow> nat \<Rightarrow> bool \<Rightarrow> 'b CCoinsViewCache \<Rightarrow> coins_error + bool option \<times> 'b CCoinsViewCache" where
  "restore_inputs view ins vprevout 0 fClean c = Inr (Some fClean, c)"
| "restore_inputs view ins vprevout (Suc j) fClean c =
     bindE (ApplyTxInUndo view (vprevout ! j) c (prevout (ins ! j))) (\<lambda>(res, c').
       if res = DISCONNECT_FAILED then Inr (None, c')
       else restore_inputs view ins vprevout j (fClean \<and> res \<noteq> DISCONNECT_UNCLEAN) c')"

text \<open>The transactions below the \<open>i\<close>th, from the last one on.\<close>

fun disconnect_loop ::
  "'b coins_view \<Rightarrow> int \<Rightarrow> CTransaction list \<Rightarrow> CTxUndo list \<Rightarrow> nat \<Rightarrow> bool \<Rightarrow> 'b CCoinsViewCache \<Rightarrow> coins_error + bool option \<times> 'b CCoinsViewCache" where
  "disconnect_loop view height vtx vtxundo 0 fClean c = Inr (Some fClean, c)"
| "disconnect_loop view height vtx vtxundo (Suc i) fClean c = (let tx = vtx ! i in
     case disconnect_outputs view tx height 0 (vout tx) fClean c of (fClean1, c1) \<Rightarrow>
     if i > 0 then
       if length (vtxundo ! (i - 1)) \<noteq> length (vin tx) then Inr (None, c1)
       else bindE (restore_inputs view (vin tx) (vtxundo ! (i - 1)) (length (vin tx)) fClean1 c1) (\<lambda>(r, c2).
         case r of None \<Rightarrow> Inr (None, c2) | Some fClean2 \<Rightarrow> disconnect_loop view height vtx vtxundo i fClean2 c2)
     else disconnect_loop view height vtx vtxundo i fClean1 c1)"

text \<open>The arguments are the block's hash, height and transactions, the hash of its predecessor, whether the EvoDB is consistent with the
  block, the undo data if it could be read, and whether the special transactions could be undone.\<close>

definition DisconnectBlock ::
  "'b coins_view \<Rightarrow> uint256 \<Rightarrow> int \<Rightarrow> uint256 \<Rightarrow> bool \<Rightarrow> CTxUndo list option \<Rightarrow> bool \<Rightarrow> CTransaction list \<Rightarrow> 'b CCoinsViewCache \<Rightarrow>
     coins_error + DisconnectResult \<times> 'b CCoinsViewCache" where
  "DisconnectBlock view blockHash height prevHash evo_ok blockUndo specials_undone vtx c =
     (case Cache_GetBestBlock view c of (best, c1) \<Rightarrow>
      if blockHash \<noteq> best then Inl Coin_assert
      else if \<not> evo_ok then Inr (DISCONNECT_FAILED, c1)
      else case blockUndo of None \<Rightarrow> Inr (DISCONNECT_FAILED, c1) | Some vtxundo \<Rightarrow>
      if length vtxundo + 1 \<noteq> length vtx then Inr (DISCONNECT_FAILED, c1)
      else if \<not> specials_undone then Inr (DISCONNECT_FAILED, c1)
      else bindE (disconnect_loop view height vtx vtxundo (length vtx) True c1) (\<lambda>(r, c2).
        case r of None \<Rightarrow> Inr (DISCONNECT_FAILED, c2)
        | Some fClean \<Rightarrow> Inr (if fClean then DISCONNECT_OK else DISCONNECT_UNCLEAN, SetBestBlock c2 prevHash)))"

subsection \<open>Connecting a block\<close>

record connect_context =
  ctx_curve :: curve
  ctx_tree :: block_tree
  ctx_pindex :: addr
  ctx_height :: int
  ctx_flags :: u32
  ctx_lock_flags :: nat
  ctx_script_checks :: bool
  ctx_strict_p2sh :: bool
  ctx_dip0001 :: bool

fun bip30_outputs :: "'b coins_view \<Rightarrow> uint256 \<Rightarrow> nat \<Rightarrow> CTxOut list \<Rightarrow> 'b CCoinsViewCache \<Rightarrow> bool \<times> 'b CCoinsViewCache" where
  "bip30_outputs view txid i [] c = (False, c)"
| "bip30_outputs view txid i (txout # outs) c = (case HaveCoin view c \<lparr>op_hash = txid, op_n = of_nat i\<rparr> of
     (have, c') \<Rightarrow> if have then (True, c') else bip30_outputs view txid (Suc i) outs c')"

fun bip30_check :: "'b coins_view \<Rightarrow> CValidationState \<Rightarrow> CTransaction list \<Rightarrow> 'b CCoinsViewCache \<Rightarrow> tx_failure + 'b CCoinsViewCache" where
  "bip30_check view state [] c = Inr c"
| "bip30_check view state (tx # txs) c = (case bip30_outputs view (tx_hash tx) 0 (vout tx) c of
     (have, c') \<Rightarrow> if have then reject state 100 ''bad-txns-BIP30'' else bip30_check view state txs c')"

fun prev_heights :: "'b coins_view \<Rightarrow> CTxIn list \<Rightarrow> 'b CCoinsViewCache \<Rightarrow> int list \<times> 'b CCoinsViewCache" where
  "prev_heights view [] c = ([], c)"
| "prev_heights view (txin # ins) c = (case AccessCoin view c (prevout txin) of (coin, c') \<Rightarrow>
     case prev_heights view ins c' of (hs, c'') \<Rightarrow> (int (coin_nHeight coin) # hs, c''))"

definition connect_p2sh_sigops ::
  "connect_context \<Rightarrow> 'b coins_view \<Rightarrow> CValidationState \<Rightarrow> CTransaction \<Rightarrow> nat \<Rightarrow> 'b CCoinsViewCache \<Rightarrow> tx_failure + nat \<times> 'b CCoinsViewCache" where
  "connect_p2sh_sigops ctx view state tx nSigOps c = (if ctx_strict_p2sh ctx then
     bindE (GetP2SHSigOpCount view tx c) (\<lambda>(n, c').
       if nSigOps + n > MaxBlockSigOps (ctx_dip0001 ctx) then reject state 100 ''bad-blk-sigops'' else Inr (nSigOps + n, c'))
     else Inr (nSigOps, c))"

text \<open>The checks of one transaction that is not a coinbase; the results are the new count of signature operations and the new sum of fees.\<close>

definition connect_checks ::
  "connect_context \<Rightarrow> 'b coins_view \<Rightarrow> CValidationState \<Rightarrow> CTransaction \<Rightarrow> nat \<Rightarrow> CAmount \<Rightarrow> 'b CCoinsViewCache \<Rightarrow>
     tx_failure + nat \<times> CAmount \<times> 'b CCoinsViewCache" where
  "connect_checks ctx view state tx nSigOps nFees c = (case HaveInputs view c tx of (available, c1) \<Rightarrow>
     if \<not> available then reject state 100 ''bad-txns-inputs-missingorspent''
     else case prev_heights view (vin tx) c1 of (prevheights, c2) \<Rightarrow>
     bindE (map_sum Index_failure id (SequenceLocks (index (ctx_tree ctx)) tx (ctx_lock_flags ctx) prevheights (ctx_pindex ctx))) (\<lambda>locks.
     if \<not> locks then reject state 100 ''bad-txns-nonfinal''
     else bindE (connect_p2sh_sigops ctx view state tx nSigOps c2) (\<lambda>(nSigOps', c3).
     case GetValueIn view c3 tx of (valueIn, c4) \<Rightarrow>
     bindE (case GetValueOut tx of None \<Rightarrow> Inl Uncaught_exception | Some valueOut \<Rightarrow> Inr valueOut) (\<lambda>valueOut.
     bindE (CheckInputs (ctx_curve ctx) (ctx_tree ctx) view tx state c4 (ctx_script_checks ctx) (ctx_flags ctx)) (\<lambda>c5.
       Inr (nSigOps', int64 (nFees + int64 (valueIn - valueOut)), c5))))))"

definition connect_tx ::
  "connect_context \<Rightarrow> 'b coins_view \<Rightarrow> CValidationState \<Rightarrow> CTransaction \<Rightarrow> nat \<Rightarrow> CAmount \<Rightarrow> 'b CCoinsViewCache \<Rightarrow>
     tx_failure + CTxUndo \<times> nat \<times> CAmount \<times> 'b CCoinsViewCache" where
  "connect_tx ctx view state tx nSigOps nFees c = (let nSigOps1 = nSigOps + GetLegacySigOpCount tx in
     if nSigOps1 > MaxBlockSigOps (ctx_dip0001 ctx) then reject state 100 ''bad-blk-sigops''
     else bindE (if \<not> IsCoinBase tx then connect_checks ctx view state tx nSigOps1 nFees c else Inr (nSigOps1, nFees, c)) (\<lambda>(nSigOps2, nFees', c1).
     bindE (map_sum Coins_failure id (UpdateCoins view tx c1 (ctx_height ctx))) (\<lambda>(txundo, c2). Inr (txundo, nSigOps2, nFees', c2))))"

text \<open>The loop from the \<open>i\<close>th transaction on; the undo data of the first one is dropped.\<close>

fun connect_loop ::
  "connect_context \<Rightarrow> 'b coins_view \<Rightarrow> CValidationState \<Rightarrow> nat \<Rightarrow> CTransaction list \<Rightarrow> nat \<Rightarrow> CAmount \<Rightarrow> 'b CCoinsViewCache \<Rightarrow>
     tx_failure + CTxUndo list \<times> CAmount \<times> 'b CCoinsViewCache" where
  "connect_loop ctx view state i [] nSigOps nFees c = Inr ([], nFees, c)"
| "connect_loop ctx view state i (tx # txs) nSigOps nFees c =
     bindE (connect_tx ctx view state tx nSigOps nFees c) (\<lambda>(txundo, nSigOps', nFees', c1).
     bindE (connect_loop ctx view state (Suc i) txs nSigOps' nFees' c1) (\<lambda>(vtxundo, r).
       Inr (if i > 0 then txundo # vtxundo else vtxundo, r)))"

text \<open>The part of \<open>ConnectBlock\<close> that changes the coins: the check against overwritten transactions, the loop, and the new best block.
  The results are the undo data and the fees. The repeated \<open>CheckBlock\<close>, the shortcut for the genesis block, the assertion that the view stands at the
  parent, the payee and subsidy rules and the writes to the block files and indexes are left out. \<open>nSigOps\<close> is an unbounded number: it is compared with its limit after each addition, and a transaction that
  fits in a block adds far less than \<open>2^32\<close>, so the unsigned counter of the code does not wrap.\<close>

definition ConnectBlock ::
  "connect_context \<Rightarrow> 'b coins_view \<Rightarrow> CValidationState \<Rightarrow> uint256 \<Rightarrow> CTransaction list \<Rightarrow> 'b CCoinsViewCache \<Rightarrow>
     tx_failure + CTxUndo list \<times> CAmount \<times> 'b CCoinsViewCache" where
  "ConnectBlock ctx view state blockHash vtx c = bindE (bip30_check view state vtx c) (\<lambda>c1.
     bindE (connect_loop ctx view state 0 vtx 0 0 c1) (\<lambda>(vtxundo, nFees, c2).
       Inr (vtxundo, nFees, SetBestBlock c2 blockHash)))"

subsection \<open>The effect on the coins\<close>

abbreviation out_point :: "CTransaction \<Rightarrow> nat \<Rightarrow> COutPoint" where
  "out_point tx n \<equiv> \<lparr>op_hash = tx_hash tx, op_n = of_nat n\<rparr>"

text \<open>The coins with the spendable outputs from the \<open>i\<close>th on added.\<close>

definition with_outputs :: "CTransaction \<Rightarrow> int \<Rightarrow> nat \<Rightarrow> CTxOut list \<Rightarrow> (COutPoint \<rightharpoonup> Coin) \<Rightarrow> COutPoint \<rightharpoonup> Coin" where
  "with_outputs tx height i outs u p = (let n = unat (op_n p) in
     if op_hash p = tx_hash tx \<and> i \<le> n \<and> n < i + length outs \<and> \<not> IsUnspendable (scriptPubKey (outs ! (n - i)))
     then Some (Coin_of (outs ! (n - i)) height (IsCoinBase tx)) else u p)"

definition without_outputs :: "CTransaction \<Rightarrow> nat \<Rightarrow> CTxOut list \<Rightarrow> (COutPoint \<rightharpoonup> Coin) \<Rightarrow> COutPoint \<rightharpoonup> Coin" where
  "without_outputs tx i outs u p = (let n = unat (op_n p) in
     if op_hash p = tx_hash tx \<and> i \<le> n \<and> n < i + length outs \<and> \<not> IsUnspendable (scriptPubKey (outs ! (n - i))) then None else u p)"

definition spent_points :: "CTransaction \<Rightarrow> COutPoint set" where
  "spent_points tx = (if IsCoinBase tx then {} else prevout ` set (vin tx))"

definition apply_tx :: "int \<Rightarrow> CTransaction \<Rightarrow> (COutPoint \<rightharpoonup> Coin) \<Rightarrow> COutPoint \<rightharpoonup> Coin" where
  "apply_tx height tx u = with_outputs tx height 0 (vout tx) (u |` (- spent_points tx))"

definition spent_coins :: "(COutPoint \<rightharpoonup> Coin) \<Rightarrow> CTransaction \<Rightarrow> CTxUndo" where
  "spent_coins u tx = (if IsCoinBase tx then [] else map (\<lambda>txin. the (u (prevout txin))) (vin tx))"

definition fresh :: "(COutPoint \<rightharpoonup> Coin) \<Rightarrow> CTransaction \<Rightarrow> bool" where
  "fresh u tx \<longleftrightarrow> (\<forall>n < length (vout tx). u (out_point tx n) = None)"

text \<open>Coins that undo data can restore.\<close>

definition coins_ok :: "(COutPoint \<rightharpoonup> Coin) \<Rightarrow> bool" where
  "coins_ok u \<longleftrightarrow> (\<forall>p coin. u p = Some coin \<longrightarrow>
     0 < coin_nHeight coin \<and> \<not> Coin_IsSpent coin \<and> \<not> IsUnspendable (scriptPubKey (coin_out coin)))"

lemma restrict_map_UNIV_id [simp]: "u |` UNIV = u"
  by (simp add: restrict_map_def fun_eq_iff)

lemma out_point_eq: "n < 2 ^ 32 \<Longrightarrow> p = out_point tx n \<longleftrightarrow> op_hash p = tx_hash tx \<and> unat (op_n p) = n"
  by (cases p) (auto simp: unat_of_nat)

lemma out_point_inj: "m < 2 ^ 32 \<Longrightarrow> n < 2 ^ 32 \<Longrightarrow> out_point tx m = out_point tx n \<longleftrightarrow> m = n"
  using out_point_eq [of n "out_point tx m" tx] by (simp add: unat_of_nat)

lemma with_outputs_Nil [simp]: "with_outputs tx height i [] u = u"
  by (auto simp: with_outputs_def Let_def fun_eq_iff)

lemma without_outputs_Nil [simp]: "without_outputs tx i [] u = u"
  by (auto simp: without_outputs_def Let_def fun_eq_iff)

lemma nth_minus_Suc: "i < n \<Longrightarrow> (out # outs) ! (n - i) = outs ! (n - Suc i)"
  by (simp add: nth_Cons')

lemma with_outputs_Cons:
  assumes "i < 2 ^ 32"
  shows "with_outputs tx height i (out # outs) u = with_outputs tx height (Suc i) outs
    (if IsUnspendable (scriptPubKey out) then u else u(out_point tx i \<mapsto> Coin_of out height (IsCoinBase tx)))"
proof
  fix p
  consider "op_hash p \<noteq> tx_hash tx \<or> unat (op_n p) < i" | "p = out_point tx i" | "op_hash p = tx_hash tx" "i < unat (op_n p)"
    using out_point_eq [OF assms, of p tx] by linarith
  then show "with_outputs tx height i (out # outs) u p = with_outputs tx height (Suc i) outs
    (if IsUnspendable (scriptPubKey out) then u else u(out_point tx i \<mapsto> Coin_of out height (IsCoinBase tx))) p"
    using out_point_eq [OF assms, of p tx]
    by cases (auto simp: with_outputs_def Let_def nth_minus_Suc)
qed

lemma without_outputs_Cons:
  assumes "i < 2 ^ 32"
  shows "without_outputs tx i (out # outs) u =
    without_outputs tx (Suc i) outs (if IsUnspendable (scriptPubKey out) then u else u(out_point tx i := None))"
proof
  fix p
  consider "op_hash p \<noteq> tx_hash tx \<or> unat (op_n p) < i" | "p = out_point tx i" | "op_hash p = tx_hash tx" "i < unat (op_n p)"
    using out_point_eq [OF assms, of p tx] by linarith
  then show "without_outputs tx i (out # outs) u p =
    without_outputs tx (Suc i) outs (if IsUnspendable (scriptPubKey out) then u else u(out_point tx i := None)) p"
    using out_point_eq [OF assms, of p tx]
    by cases (auto simp: without_outputs_def Let_def nth_minus_Suc)
qed

lemma with_outputs_new:
  "n < length (vout tx) \<Longrightarrow> n < 2 ^ 32 \<Longrightarrow> \<not> IsUnspendable (scriptPubKey (vout tx ! n)) \<Longrightarrow>
   with_outputs tx height 0 (vout tx) u (out_point tx n) = Some (Coin_of (vout tx ! n) height (IsCoinBase tx))"
  by (simp add: with_outputs_def Let_def unat_of_nat)

lemma without_with_outputs:
  assumes "fresh u tx"
  shows "without_outputs tx 0 (vout tx) (with_outputs tx height 0 (vout tx) u) = u"
proof
  fix p
  have "u p = None" if "op_hash p = tx_hash tx" "unat (op_n p) < length (vout tx)"
  proof -
    have "p = out_point tx (unat (op_n p))" using that(1) by (cases p) simp
    then show ?thesis using assms that(2) by (metis fresh_def)
  qed
  then show "without_outputs tx 0 (vout tx) (with_outputs tx height 0 (vout tx) u) p = u p"
    by (auto simp: without_outputs_def with_outputs_def Let_def)
qed

lemma fresh_restrict: "fresh u tx \<Longrightarrow> fresh (u |` S) tx"
  by (auto simp: fresh_def restrict_map_def)

lemma apply_tx_other: "op_hash p \<noteq> tx_hash tx \<Longrightarrow> u p = None \<Longrightarrow> apply_tx height tx u p = None"
  by (simp add: apply_tx_def with_outputs_def Let_def restrict_map_def)

lemma fresh_apply_tx: "fresh u tx' \<Longrightarrow> tx_hash tx' \<noteq> tx_hash tx \<Longrightarrow> fresh (apply_tx height tx u) tx'"
  by (simp add: fresh_def apply_tx_other)

lemma Coin_of_height: "0 \<le> height \<Longrightarrow> height < 2 ^ 31 \<Longrightarrow> int (coin_nHeight (Coin_of out height cb)) = height"
  by (simp add: Coin_of_def)

lemma coins_ok_apply_tx:
  assumes "coins_ok u" "list_all (\<lambda>out. 0 \<le> nValue out) (vout tx)" "0 < height" "height < 2 ^ 31"
  shows "coins_ok (apply_tx height tx u)"
proof -
  have "\<not> Coin_IsSpent (Coin_of out height cb)" if "out \<in> set (vout tx)" for out cb
    using assms(2) that by (auto simp: list_all_iff Coin_IsSpent_def Coin_of_def CTxOut_IsNull_def)
  moreover have "0 < coin_nHeight (Coin_of out height cb)" for out cb
    using assms(3,4) by (simp add: Coin_of_def)
  moreover have "coin_out (Coin_of out height cb) = out" for out cb by (simp add: Coin_of_def)
  ultimately show ?thesis using assms(1)
    by (auto simp: coins_ok_def apply_tx_def with_outputs_def Let_def restrict_map_def split: if_splits)
qed

context coins_view_laws
begin

lemma spend_inputs_ok:
  assumes "cache_inv view_ok utxo c" "distinct (map prevout ins)" "list_all (\<lambda>txin. cache_utxo utxo c (prevout txin) \<noteq> None) ins"
  shows "\<exists>c'. spend_inputs view ins c = Inr (map (\<lambda>txin. the (cache_utxo utxo c (prevout txin))) ins, c') \<and> cache_inv view_ok utxo c' \<and>
    cache_utxo utxo c' = cache_utxo utxo c |` (- prevout ` set ins) \<and> cache_best best c' = cache_best best c"
  using assms
proof (induction ins arbitrary: c)
  case Nil
  then show ?case by simp
next
  case (Cons txin ins)
  let ?u = "cache_utxo utxo c"
  obtain coin where coin: "?u (prevout txin) = Some coin" using Cons.prems(3) by auto
  from SpendCoin_ok [OF Cons.prems(1), of "prevout txin"] coin obtain c1 where
    c1: "SpendCoin view c (prevout txin) = (Some coin, c1)" "cache_inv view_ok utxo c1"
      "cache_utxo utxo c1 = ?u(prevout txin := None)" "cache_best best c1 = cache_best best c" by auto
  have other: "t \<in> set ins \<Longrightarrow> cache_utxo utxo c1 (prevout t) = ?u (prevout t)" for t
    using Cons.prems(2) c1(3) by (metis (no_types, lifting) distinct.simps(2) fun_upd_other imageI list.set_map list.simps(9))
  have "list_all (\<lambda>txin. cache_utxo utxo c1 (prevout txin) \<noteq> None) ins"
    using Cons.prems(3) other by (simp add: list_all_iff)
  from Cons.IH [OF c1(2) _ this] Cons.prems(2) obtain c2 where
    c2: "spend_inputs view ins c1 = Inr (map (\<lambda>txin. the (cache_utxo utxo c1 (prevout txin))) ins, c2)" "cache_inv view_ok utxo c2"
      "cache_utxo utxo c2 = cache_utxo utxo c1 |` (- prevout ` set ins)" "cache_best best c2 = cache_best best c1" by auto
  have "map (\<lambda>txin. the (cache_utxo utxo c1 (prevout txin))) ins = map (\<lambda>txin. the (?u (prevout txin))) ins"
    using other by simp
  moreover have "cache_utxo utxo c2 = ?u |` (- prevout ` set (txin # ins))"
    using c1(3) c2(3) by (auto simp: restrict_map_def fun_eq_iff)
  ultimately show ?case using c1 c2 coin by simp
qed

lemma AddCoins_loop_ok:
  assumes "cache_inv view_ok utxo c" "i + length outs \<le> 2 ^ 32" "list_all (\<lambda>out. 0 \<le> nValue out) outs"
    "\<And>k. k < length outs \<Longrightarrow> cache_utxo utxo c (out_point tx (i + k)) = None"
  shows "\<exists>c'. AddCoins_loop (tx_hash tx) height (IsCoinBase tx) i outs c = Inr c' \<and> cache_inv view_ok utxo c' \<and>
    cache_utxo utxo c' = with_outputs tx height i outs (cache_utxo utxo c) \<and> cache_best best c' = cache_best best c"
  using assms
proof (induction outs arbitrary: i c)
  case Nil
  then show ?case by simp
next
  case (Cons out outs)
  let ?u = "cache_utxo utxo c" and ?coin = "Coin_of out height (IsCoinBase tx)"
  have i: "i < 2 ^ 32" using Cons.prems(2) by simp
  have ns: "\<not> Coin_IsSpent ?coin" using Cons.prems(3) by (simp add: Coin_IsSpent_def Coin_of_def CTxOut_IsNull_def)
  have "?u (out_point tx i) = None" using Cons.prems(4) [of 0] by simp
  from AddCoin_ok [OF Cons.prems(1) ns, of "IsCoinBase tx" "out_point tx i"] this obtain c1 where
    c1: "AddCoin c (out_point tx i) ?coin (IsCoinBase tx) = Inr c1" "cache_inv view_ok utxo c1" "cache_best best c1 = cache_best best c"
      "cache_utxo utxo c1 = (if IsUnspendable (scriptPubKey out) then ?u else ?u(out_point tx i \<mapsto> ?coin))"
    by (auto simp: Coin_of_def)
  have "cache_utxo utxo c1 (out_point tx (Suc i + k)) = None" if "k < length outs" for k
  proof -
    have "out_point tx (Suc i + k) \<noteq> out_point tx i"
      using out_point_inj [of "Suc i + k" i] that Cons.prems(2) by (simp del: of_nat_Suc of_nat_add add_Suc)
    then show ?thesis using c1(4) Cons.prems(4) [of "Suc k"] that by simp
  qed
  from Cons.IH [OF c1(2) _ _ this] Cons.prems(2,3) obtain c2 where
    "AddCoins_loop (tx_hash tx) height (IsCoinBase tx) (Suc i) outs c1 = Inr c2" "cache_inv view_ok utxo c2"
    "cache_utxo utxo c2 = with_outputs tx height (Suc i) outs (cache_utxo utxo c1)" "cache_best best c2 = cache_best best c1" by auto
  then show ?case using c1 by (simp add: with_outputs_Cons [OF i])
qed

lemma UpdateCoins_ok:
  assumes "cache_inv view_ok utxo c" "distinct (map prevout (vin tx))" "length (vout tx) \<le> 2 ^ 32"
    "list_all (\<lambda>out. 0 \<le> nValue out) (vout tx)" "fresh (cache_utxo utxo c) tx"
    "IsCoinBase tx \<or> list_all (\<lambda>txin. cache_utxo utxo c (prevout txin) \<noteq> None) (vin tx)"
  shows "\<exists>c'. UpdateCoins view tx c height = Inr (spent_coins (cache_utxo utxo c) tx, c') \<and> cache_inv view_ok utxo c' \<and>
    cache_utxo utxo c' = apply_tx height tx (cache_utxo utxo c) \<and> cache_best best c' = cache_best best c"
proof -
  let ?u = "cache_utxo utxo c"
  obtain c1 where c1: "(if \<not> IsCoinBase tx then spend_inputs view (vin tx) c else Inr ([], c)) = Inr (spent_coins ?u tx, c1)"
    "cache_inv view_ok utxo c1" "cache_utxo utxo c1 = ?u |` (- spent_points tx)" "cache_best best c1 = cache_best best c"
    using spend_inputs_ok [OF assms(1,2)] assms(1,6) by (cases "IsCoinBase tx") (auto simp: spent_coins_def spent_points_def)
  have "cache_utxo utxo c1 (out_point tx (0 + k)) = None" if "k < length (vout tx)" for k
    using fresh_restrict [OF assms(5)] that c1(3) by (simp add: fresh_def)
  from AddCoins_loop_ok [OF c1(2) _ assms(4) this, of height] assms(3) obtain c2 where
    "AddCoins_loop (tx_hash tx) height (IsCoinBase tx) 0 (vout tx) c1 = Inr c2" "cache_inv view_ok utxo c2"
    "cache_utxo utxo c2 = with_outputs tx height 0 (vout tx) (cache_utxo utxo c1)" "cache_best best c2 = cache_best best c1" by auto
  then show ?thesis using c1 by (simp add: UpdateCoins_def AddCoins_def apply_tx_def)
qed

end

text \<open>The coins after restoring the inputs below the \<open>j\<close>th.\<close>

fun restored :: "CTxIn list \<Rightarrow> CTxUndo \<Rightarrow> nat \<Rightarrow> (COutPoint \<rightharpoonup> Coin) \<Rightarrow> COutPoint \<rightharpoonup> Coin" where
  "restored ins vprevout 0 w = w"
| "restored ins vprevout (Suc j) w = restored ins vprevout j (w(prevout (ins ! j) \<mapsto> vprevout ! j))"

lemma restored_val:
  assumes "\<And>k. k < j \<Longrightarrow> u (prevout (ins ! k)) = Some (vprevout ! k)"
  shows "restored ins vprevout j w p = (if \<exists>k < j. p = prevout (ins ! k) then u p else w p)"
  using assms
proof (induction j arbitrary: w)
  case (Suc j)
  have "restored ins vprevout (Suc j) w p = (if \<exists>k < j. p = prevout (ins ! k) then u p else (w(prevout (ins ! j) \<mapsto> vprevout ! j)) p)"
    using Suc by simp
  then show ?case using Suc.prems [of j] by (auto simp: less_Suc_eq)
qed simp

lemma restored_all:
  assumes "list_all (\<lambda>txin. u (prevout txin) \<noteq> None) ins"
  shows "restored ins (map (\<lambda>txin. the (u (prevout txin))) ins) (length ins) (u |` (- prevout ` set ins)) = u"
proof
  fix p
  have "u (prevout (ins ! k)) = Some (map (\<lambda>txin. the (u (prevout txin))) ins ! k)" if "k < length ins" for k
    using assms that by (auto simp: list_all_length)
  from restored_val [of "length ins" u ins, OF this]
  show "restored ins (map (\<lambda>txin. the (u (prevout txin))) ins) (length ins) (u |` (- prevout ` set ins)) p = u p"
    by (auto simp: restrict_map_def in_set_conv_nth)
qed

context coins_view_laws
begin

lemma disconnect_outputs_ok:
  assumes "cache_inv view_ok utxo c" "i + length outs \<le> 2 ^ 32" "0 \<le> height" "height < 2 ^ 31"
    "\<And>k. k < length outs \<Longrightarrow> \<not> IsUnspendable (scriptPubKey (outs ! k)) \<Longrightarrow>
       cache_utxo utxo c (out_point tx (i + k)) = Some (Coin_of (outs ! k) height (IsCoinBase tx))"
  shows "\<exists>c'. disconnect_outputs view tx height i outs fClean c = (fClean, c') \<and> cache_inv view_ok utxo c' \<and>
    cache_utxo utxo c' = without_outputs tx i outs (cache_utxo utxo c) \<and> cache_best best c' = cache_best best c"
  using assms
proof (induction outs arbitrary: i c)
  case Nil
  then show ?case by simp
next
  case (Cons out outs)
  let ?u = "cache_utxo utxo c"
  have i: "i < 2 ^ 32" using Cons.prems(2) by simp
  show ?case
  proof (cases "IsUnspendable (scriptPubKey out)")
    case True
    have "cache_utxo utxo c (out_point tx (Suc i + k)) = Some (Coin_of (outs ! k) height (IsCoinBase tx))"
      if "k < length outs" "\<not> IsUnspendable (scriptPubKey (outs ! k))" for k
      using Cons.prems(5) [of "Suc k"] that by simp
    from Cons.IH [OF Cons.prems(1) _ Cons.prems(3,4) this] Cons.prems(2) show ?thesis
      using True by (simp add: without_outputs_Cons [OF i])
  next
    case False
    have here: "?u (out_point tx i) = Some (Coin_of out height (IsCoinBase tx))" using Cons.prems(5) [of 0] False by simp
    from SpendCoin_ok [OF Cons.prems(1), of "out_point tx i"] here obtain c1 where
      c1: "SpendCoin view c (out_point tx i) = (Some (Coin_of out height (IsCoinBase tx)), c1)" "cache_inv view_ok utxo c1"
        "cache_utxo utxo c1 = ?u(out_point tx i := None)" "cache_best best c1 = cache_best best c" by auto
    have "cache_utxo utxo c1 (out_point tx (Suc i + k)) = Some (Coin_of (outs ! k) height (IsCoinBase tx))"
      if "k < length outs" "\<not> IsUnspendable (scriptPubKey (outs ! k))" for k
    proof -
      have "out_point tx (Suc i + k) \<noteq> out_point tx i"
        using out_point_inj [of "Suc i + k" i] that Cons.prems(2) by (simp del: of_nat_Suc of_nat_add add_Suc)
      then show ?thesis using c1(3) Cons.prems(5) [of "Suc k"] that by simp
    qed
    from Cons.IH [OF c1(2) _ Cons.prems(3,4) this] Cons.prems(2) obtain c2 where
      "disconnect_outputs view tx height (Suc i) outs fClean c1 = (fClean, c2)" "cache_inv view_ok utxo c2"
      "cache_utxo utxo c2 = without_outputs tx (Suc i) outs (cache_utxo utxo c1)" "cache_best best c2 = cache_best best c1" by auto
    moreover have "coin_out (Coin_of out height (IsCoinBase tx)) = out" "fCoinBase (Coin_of out height (IsCoinBase tx)) = IsCoinBase tx"
      by (simp_all add: Coin_of_def)
    ultimately show ?thesis using c1 False Coin_of_height [OF Cons.prems(3,4), of out "IsCoinBase tx"]
      by (simp add: without_outputs_Cons [OF i])
  qed
qed

lemma ApplyTxInUndo_ok:
  assumes "cache_inv view_ok utxo c" "cache_utxo utxo c p = None" "0 < coin_nHeight undo" "\<not> Coin_IsSpent undo"
    "\<not> IsUnspendable (scriptPubKey (coin_out undo))"
  shows "\<exists>c'. ApplyTxInUndo view undo c p = Inr (DISCONNECT_OK, c') \<and> cache_inv view_ok utxo c' \<and>
    cache_utxo utxo c' = (cache_utxo utxo c)(p \<mapsto> undo) \<and> cache_best best c' = cache_best best c"
proof -
  from HaveCoin_ok [OF assms(1), of p] obtain c1 where c1: "HaveCoin view c p = (False, c1)" "cache_inv view_ok utxo c1"
    "cache_utxo utxo c1 = cache_utxo utxo c" "cache_best best c1 = cache_best best c" using assms(2) by auto
  from AddCoin_ok [OF c1(2) assms(4), of "fCoinBase undo" p] obtain c2 where
    "AddCoin c1 p undo (fCoinBase undo) = Inr c2" "cache_inv view_ok utxo c2" "cache_best best c2 = cache_best best c1"
    "cache_utxo utxo c2 = (cache_utxo utxo c1)(p \<mapsto> undo)" using assms(2,5) c1(3) by auto
  then show ?thesis using c1 assms(3) by (simp add: ApplyTxInUndo_def undo_metadata_def)
qed

text \<open>A coin that is already there and not a coinbase makes \<open>ApplyTxInUndo\<close> throw instead of reporting an unclean disconnection.\<close>

lemma ApplyTxInUndo_throws:
  assumes "cache_inv view_ok utxo c" "cache_utxo utxo c p = Some old" "0 < coin_nHeight undo" "\<not> Coin_IsSpent undo"
    "\<not> IsUnspendable (scriptPubKey (coin_out undo))" "\<not> fCoinBase undo"
  shows "ApplyTxInUndo view undo c p = Inl Coin_logic_error"
proof -
  obtain c' where c': "FetchCoin view c p = (map_of (cacheCoins c') p, c')" "cache_inv view_ok utxo c'"
    "cache_utxo utxo c' = cache_utxo utxo c" "cache_best best c' = cache_best best c"
    "map_of (cacheCoins c') p = None \<longrightarrow> utxo (cache_base c') p = None" by (rule FetchCoinE [OF assms(1)])
  have s: "shown (utxo (cache_base c')) (cacheCoins c') p = Some old" using c'(3) assms(2) by (simp add: cache_utxo_def)
  obtain e where e: "map_of (cacheCoins c') p = Some e"
    using s c'(5) by (cases "map_of (cacheCoins c') p") (auto simp: shown_def)
  then have "\<not> Coin_IsSpent (entry_coin e)" using s by (auto simp: shown_def coin_value_Some)
  then show ?thesis using c'(1) e assms(3-6) by (simp add: ApplyTxInUndo_def HaveCoin_def undo_metadata_def AddCoin_def Let_def)
qed

lemma restore_inputs_ok:
  assumes "cache_inv view_ok utxo c" "distinct (map prevout ins)" "j \<le> length ins"
    "\<And>k. k < j \<Longrightarrow> cache_utxo utxo c (prevout (ins ! k)) = None"
    "\<And>k. k < j \<Longrightarrow> 0 < coin_nHeight (vprevout ! k) \<and> \<not> Coin_IsSpent (vprevout ! k) \<and> \<not> IsUnspendable (scriptPubKey (coin_out (vprevout ! k)))"
  shows "\<exists>c'. restore_inputs view ins vprevout j fClean c = Inr (Some fClean, c') \<and> cache_inv view_ok utxo c' \<and>
    cache_utxo utxo c' = restored ins vprevout j (cache_utxo utxo c) \<and> cache_best best c' = cache_best best c"
  using assms
proof (induction j arbitrary: c)
  case (Suc j)
  from ApplyTxInUndo_ok [OF Suc.prems(1), of "prevout (ins ! j)" "vprevout ! j"] Suc.prems(4,5) [of j] obtain c1 where
    c1: "ApplyTxInUndo view (vprevout ! j) c (prevout (ins ! j)) = Inr (DISCONNECT_OK, c1)" "cache_inv view_ok utxo c1"
      "cache_utxo utxo c1 = (cache_utxo utxo c)(prevout (ins ! j) \<mapsto> vprevout ! j)" "cache_best best c1 = cache_best best c" by auto
  have "cache_utxo utxo c1 (prevout (ins ! k)) = None" if "k < j" for k
  proof -
    have "prevout (ins ! k) \<noteq> prevout (ins ! j)"
      using nth_eq_iff_index_eq [OF Suc.prems(2), of k j] Suc.prems(3) that by simp
    then show ?thesis using c1(3) Suc.prems(4) [of k] that by simp
  qed
  from Suc.IH [OF c1(2) Suc.prems(2) _ this Suc.prems(5)] Suc.prems(3) obtain c2 where
    c2: "restore_inputs view ins vprevout j fClean c1 = Inr (Some fClean, c2)" "cache_inv view_ok utxo c2"
      "cache_utxo utxo c2 = restored ins vprevout j (cache_utxo utxo c1)" "cache_best best c2 = cache_best best c1" by auto
  show ?case using c1(1) c2(1,2,4) c2(3) [unfolded c1(3)] c1(4) by simp
qed simp

end

subsection \<open>The checks of a block\<close>

lemma length_le_Serialize_vector: "(\<And>x. enc x \<noteq> []) \<Longrightarrow> length v \<le> length (Serialize_vector enc v)"
proof -
  assume "\<And>x. enc x \<noteq> []"
  then have "length v \<le> length (concat (map enc v))" by (induction v) (simp_all add: Suc_le_eq add_strict_increasing)
  then show ?thesis by (simp add: Serialize_vector_def)
qed

lemma well_formed_outputs: "tx_well_formed tx \<Longrightarrow> length (vout tx) \<le> 2 ^ 32"
proof -
  assume wf: "tx_well_formed tx"
  have "length (vout tx) \<le> length (Serialize_vector Serialize_CTxOut (vout tx))"
    by (rule length_le_Serialize_vector) (simp add: Serialize_CTxOut_def ser_writedata64_def flip: length_greater_0_conv)
  also have "\<dots> \<le> GetTotalSize tx" by (simp add: GetTotalSize_def Serialize_CTransaction_def)
  also have "\<dots> \<le> 1000000" using wf by (simp add: tx_well_formed_def)
  finally show ?thesis by simp
qed

context coins_view_laws
begin

lemma bip30_outputs_ok:
  assumes "cache_inv view_ok utxo c"
  shows "\<exists>c'. bip30_outputs view (tx_hash tx) i outs c = (\<exists>k < length outs. cache_utxo utxo c (out_point tx (i + k)) \<noteq> None, c') \<and>
    fetched view_ok utxo best c c'"
  using assms
proof (induction outs arbitrary: i c)
  case Nil
  then show ?case by (simp add: fetched_refl)
next
  case (Cons out outs)
  from HaveCoin_ok [OF Cons.prems, of "out_point tx i"] obtain c1 where
    c1: "HaveCoin view c (out_point tx i) = (cache_utxo utxo c (out_point tx i) \<noteq> None, c1)" "fetched view_ok utxo best c c1"
    unfolding fetched_def by blast
  show ?case
  proof (cases "cache_utxo utxo c (out_point tx i) = None")
    case True
    from Cons.IH [OF fetched_inv [OF c1(2)], of "Suc i"] obtain c2 where
      "bip30_outputs view (tx_hash tx) (Suc i) outs c1 = (\<exists>k < length outs. cache_utxo utxo c (out_point tx (Suc i + k)) \<noteq> None, c2)"
      "fetched view_ok utxo best c c2"
      using fetched_utxo [OF c1(2)] fetched_trans [OF c1(2)] by auto
    moreover have "(\<exists>k < length (out # outs). cache_utxo utxo c (out_point tx (i + k)) \<noteq> None) \<longleftrightarrow>
        (\<exists>k < length outs. cache_utxo utxo c (out_point tx (Suc i + k)) \<noteq> None)"
      using True by (simp only: length_Cons Ex_less_Suc2 add_0_right add_Suc add_Suc_right) simp
    ultimately show ?thesis using c1(1) True by (simp del: of_nat_Suc of_nat_add)
  next
    case False
    then have "\<exists>k < length (out # outs). cache_utxo utxo c (out_point tx (i + k)) \<noteq> None" by (intro exI [of _ 0]) simp
    then show ?thesis using c1 False by (simp del: of_nat_Suc of_nat_add)
  qed
qed

lemma bip30_check_ok:
  assumes "bip30_check view state txs c = Inr c'" "cache_inv view_ok utxo c"
  shows "list_all (fresh (cache_utxo utxo c)) txs \<and> fetched view_ok utxo best c c'"
  using assms
proof (induction txs arbitrary: c)
  case Nil
  then show ?case by (simp add: fetched_refl)
next
  case (Cons tx txs)
  from bip30_outputs_ok [OF Cons.prems(2), of tx 0 "vout tx"] obtain c1 where
    c1: "bip30_outputs view (tx_hash tx) 0 (vout tx) c = (\<exists>k < length (vout tx). cache_utxo utxo c (out_point tx (0 + k)) \<noteq> None, c1)"
      "fetched view_ok utxo best c c1" by blast
  then have f: "fresh (cache_utxo utxo c) tx" "bip30_check view state txs c1 = Inr c'"
    using Cons.prems(1) by (auto simp: fresh_def split: if_splits)
  from Cons.IH [OF f(2) fetched_inv [OF c1(2)]] show ?case
    using f(1) fetched_utxo [OF c1(2)] fetched_trans [OF c1(2)] by simp
qed

lemma prev_heights_ok:
  assumes "cache_inv view_ok utxo c" "list_all (\<lambda>txin. cache_utxo utxo c (prevout txin) \<noteq> None) ins"
  shows "\<exists>c'. prev_heights view ins c = (map (\<lambda>txin. int (coin_nHeight (the (cache_utxo utxo c (prevout txin))))) ins, c') \<and>
    fetched view_ok utxo best c c'"
  using assms
proof (induction ins arbitrary: c)
  case Nil
  then show ?case by (simp add: fetched_refl)
next
  case (Cons txin ins)
  obtain coin where coin: "cache_utxo utxo c (prevout txin) = Some coin" using Cons.prems(2) by auto
  obtain c1 where c1: "AccessCoin view c (prevout txin) = (coin, c1)" "\<not> Coin_IsSpent coin" "fetched view_ok utxo best c c1"
    by (rule access_unspent [OF Cons.prems(1) coin])
  have "list_all (\<lambda>txin. cache_utxo utxo c1 (prevout txin) \<noteq> None) ins" using Cons.prems(2) fetched_utxo [OF c1(3)] by simp
  from Cons.IH [OF fetched_inv [OF c1(3)] this] show ?case
    using c1 coin fetched_utxo [OF c1(3)] fetched_trans [OF c1(3)] by auto
qed

lemma p2sh_sigop_loop_fetched:
  "p2sh_sigop_loop view ins n c = Inr (m, c') \<Longrightarrow> cache_inv view_ok utxo c \<Longrightarrow> fetched view_ok utxo best c c'"
proof (induction ins arbitrary: n c)
  case (Cons txin ins)
  obtain c1 coin where c1: "AccessCoin view c (prevout txin) = (coin, c1)" "fetched view_ok utxo best c c1"
    using access_coin [OF Cons.prems(2)] by metis
  then obtain n' where "p2sh_sigop_loop view ins n' c1 = Inr (m, c')" using Cons.prems(1) by (auto split: if_splits)
  then show ?case using Cons.IH fetched_inv [OF c1(2)] fetched_trans [OF c1(2)] by blast
qed (simp add: fetched_refl)

lemma value_in_loop_ok:
  assumes "cache_inv view_ok utxo c" "list_all (\<lambda>txin. cache_utxo utxo c (prevout txin) \<noteq> None) ins"
  shows "\<exists>v c'. value_in_loop view ins a c = (v, c') \<and> fetched view_ok utxo best c c' \<and>
    (\<forall>n. list_all (spendable (cache_utxo utxo c) n) ins \<and> 0 \<le> a \<and> a + value_in (cache_utxo utxo c) ins \<le> MAX_MONEY \<longrightarrow>
       v = a + value_in (cache_utxo utxo c) ins)"
  using assms
proof (induction ins arbitrary: a c)
  case Nil
  then show ?case by (simp add: fetched_refl)
next
  case (Cons txin ins)
  let ?u = "cache_utxo utxo c"
  obtain coin where coin: "?u (prevout txin) = Some coin" using Cons.prems(2) by auto
  obtain c1 where c1: "AccessCoin view c (prevout txin) = (coin, c1)" "\<not> Coin_IsSpent coin" "fetched view_ok utxo best c c1"
    by (rule access_unspent [OF Cons.prems(1) coin])
  note u1 = fetched_utxo [OF c1(3)]
  have "list_all (\<lambda>txin. cache_utxo utxo c1 (prevout txin) \<noteq> None) ins" using Cons.prems(2) u1 by simp
  from Cons.IH [OF fetched_inv [OF c1(3)] this, of "int64 (a + nValue (coin_out coin))"] u1 obtain v c2 where
    c2: "value_in_loop view ins (int64 (a + nValue (coin_out coin))) c1 = (v, c2)" "fetched view_ok utxo best c1 c2"
      "\<forall>n. list_all (spendable ?u n) ins \<and> 0 \<le> int64 (a + nValue (coin_out coin)) \<and> int64 (a + nValue (coin_out coin)) + value_in ?u ins \<le> MAX_MONEY \<longrightarrow>
         v = int64 (a + nValue (coin_out coin)) + value_in ?u ins" by auto
  have "v = a + value_in ?u (txin # ins)"
    if l: "list_all (spendable ?u n) (txin # ins)" "0 \<le> a" "a + value_in ?u (txin # ins) \<le> MAX_MONEY" for n
  proof -
    have r: "MoneyRange (nValue (coin_out coin))" "0 \<le> value_in ?u ins"
      using l(1) coin value_in_nonneg [of ?u n ins] by (simp_all add: spendable_def MoneyRange_def)
    have "int64 (a + nValue (coin_out coin)) = a + nValue (coin_out coin)"
      using r l(2,3) coin by (intro int64_add) (simp_all add: MoneyRange_def)
    then show ?thesis using c2(3) [rule_format, of n] l r coin by (simp add: MoneyRange_def)
  qed
  then show ?case using c1 c2(1) fetched_trans [OF c1(3) c2(2)] by auto
qed

end

definition paid :: "CTransaction \<Rightarrow> int" where
  "paid tx = sum_list (map nValue (vout tx))"

text \<open>What the checks of a transaction that is not a coinbase establish of the coins.\<close>

definition covered :: "(COutPoint \<rightharpoonup> Coin) \<Rightarrow> CTransaction \<Rightarrow> bool" where
  "covered u tx \<longleftrightarrow> list_all (\<lambda>txin. u (prevout txin) \<noteq> None) (vin tx) \<and> paid tx \<le> value_in u (vin tx) \<and>
     value_in u (vin tx) \<le> MAX_MONEY"

definition fee :: "(COutPoint \<rightharpoonup> Coin) \<Rightarrow> CTransaction \<Rightarrow> int" where
  "fee u tx = (if IsCoinBase tx then 0 else value_in u (vin tx) - paid tx)"

fun run_txs :: "int \<Rightarrow> CTransaction list \<Rightarrow> (COutPoint \<rightharpoonup> Coin) \<Rightarrow> COutPoint \<rightharpoonup> Coin" where
  "run_txs height [] u = u"
| "run_txs height (tx # txs) u = run_txs height txs (apply_tx height tx u)"

fun run_ok :: "int \<Rightarrow> CTransaction list \<Rightarrow> (COutPoint \<rightharpoonup> Coin) \<Rightarrow> bool" where
  "run_ok height [] u = True"
| "run_ok height (tx # txs) u = ((IsCoinBase tx \<or> covered u tx) \<and> run_ok height txs (apply_tx height tx u))"

fun run_undo :: "int \<Rightarrow> CTransaction list \<Rightarrow> (COutPoint \<rightharpoonup> Coin) \<Rightarrow> CTxUndo list" where
  "run_undo height [] u = []"
| "run_undo height (tx # txs) u = spent_coins u tx # run_undo height txs (apply_tx height tx u)"

fun run_fees :: "int \<Rightarrow> CTransaction list \<Rightarrow> (COutPoint \<rightharpoonup> Coin) \<Rightarrow> CAmount \<Rightarrow> CAmount" where
  "run_fees height [] u nFees = nFees"
| "run_fees height (tx # txs) u nFees = run_fees height txs (apply_tx height tx u)
     (if IsCoinBase tx then nFees else int64 (nFees + fee u tx))"

lemma map_sum_eq_Inr: "map_sum f id m = Inr x \<longleftrightarrow> m = Inr x"
  by (cases m) auto

lemma well_formed_paid: "tx_well_formed tx \<Longrightarrow> 0 \<le> paid tx \<and> paid tx \<le> MAX_MONEY \<and> GetValueOut tx = Some (paid tx)"
  using tx_well_formed_GetValueOut [of tx]
  by (auto simp: paid_def tx_well_formed_def list_all_iff intro!: sum_list_nonneg)

context coins_view_laws
begin

lemma CheckInputs_covered:
  assumes "CheckInputs cv t view tx state c scripts nFlags = Inr c'" "cache_inv view_ok utxo c" "tx_well_formed tx" "\<not> IsCoinBase tx"
  shows "\<exists>n. list_all (spendable (cache_utxo utxo c) n) (vin tx) \<and> covered (cache_utxo utxo c) tx"
proof -
  obtain n c1 r where g: "GetSpendHeight t view c = Inr (n, c1)" "CheckTxInputs view tx state c1 n = Inr r"
    using assms(1,4) by (auto simp: CheckInputs_def bindE_eq_Inr split: prod.splits)
  obtain c1' where "Cache_GetBestBlock view c = (cache_best best c, c1')" "fetched view_ok utxo best c c1'"
    by (rule best_block [OF assms(2)])
  then have f1: "fetched view_ok utxo best c c1" using g(1) by (auto simp: GetSpendHeight_def split: option.splits)
  have v: "GetValueOut tx = Some (paid tx)" using well_formed_paid [OF assms(3)] by blast
  have "list_all (spendable (cache_utxo utxo c) n) (vin tx) \<and> value_in (cache_utxo utxo c) (vin tx) \<le> MAX_MONEY \<and>
      paid tx \<le> value_in (cache_utxo utxo c) (vin tx)"
    using CheckTxInputs_ok [OF fetched_inv [OF f1] assms(4) v, of n state] g(2) by (simp add: fetched_utxo [OF f1] split: if_splits)
  then show ?thesis using spendable_present by (auto simp: covered_def list_all_iff)
qed

lemma connect_checks_ok:
  assumes "connect_checks ctx view state tx nSigOps nFees c = Inr (n', nFees', c')" "cache_inv view_ok utxo c" "tx_well_formed tx" "\<not> IsCoinBase tx"
  shows "fetched view_ok utxo best c c' \<and> covered (cache_utxo utxo c) tx \<and> nFees' = int64 (nFees + fee (cache_utxo utxo c) tx)"
proof -
  let ?u = "cache_utxo utxo c"
  obtain c1 where c1: "HaveInputs view c tx = (list_all (\<lambda>txin. ?u (prevout txin) \<noteq> None) (vin tx), c1)" "fetched view_ok utxo best c c1"
    using HaveInputs_ok [OF assms(2), of tx] assms(4) by auto
  then have present: "list_all (\<lambda>txin. ?u (prevout txin) \<noteq> None) (vin tx)" using assms(1) by (auto simp: connect_checks_def split: if_splits)
  then obtain hs c2 where c2: "prev_heights view (vin tx) c1 = (hs, c2)" "fetched view_ok utxo best c c2"
    using prev_heights_ok [OF fetched_inv [OF c1(2)], of "vin tx"] fetched_utxo [OF c1(2)] fetched_trans [OF c1(2)] by auto
  have "bindE (connect_p2sh_sigops ctx view state tx nSigOps c2) (\<lambda>(nSigOps', c3).
     case GetValueIn view c3 tx of (valueIn, c4) \<Rightarrow>
     bindE (case GetValueOut tx of None \<Rightarrow> Inl Uncaught_exception | Some valueOut \<Rightarrow> Inr valueOut) (\<lambda>valueOut.
     bindE (CheckInputs (ctx_curve ctx) (ctx_tree ctx) view tx state c4 (ctx_script_checks ctx) (ctx_flags ctx)) (\<lambda>c5.
       Inr (nSigOps', int64 (nFees + int64 (valueIn - valueOut)), c5)))) = Inr (n', nFees', c')"
    using assms(1) c1(1) present c2(1) by (auto simp: connect_checks_def bindE_eq_Inr [of "map_sum f g m" for f g m] split: if_splits)
  then obtain n3 c3 where c3: "connect_p2sh_sigops ctx view state tx nSigOps c2 = Inr (n3, c3)"
     "(case GetValueIn view c3 tx of (valueIn, c4) \<Rightarrow>
       bindE (case GetValueOut tx of None \<Rightarrow> Inl Uncaught_exception | Some valueOut \<Rightarrow> Inr valueOut) (\<lambda>valueOut.
       bindE (CheckInputs (ctx_curve ctx) (ctx_tree ctx) view tx state c4 (ctx_script_checks ctx) (ctx_flags ctx)) (\<lambda>c5.
         Inr (n3, int64 (nFees + int64 (valueIn - valueOut)), c5)))) = Inr (n', nFees', c')"
    by (auto simp: bindE_eq_Inr [of "connect_p2sh_sigops ctx view state tx nSigOps c2"])
  have f3: "fetched view_ok utxo best c c3"
  proof (cases "ctx_strict_p2sh ctx")
    case True
    then obtain m where "p2sh_sigop_loop view (vin tx) 0 c2 = Inr (m, c3)"
      using c3(1) assms(4) by (auto simp: connect_p2sh_sigops_def bindE_eq_Inr GetP2SHSigOpCount_def split: if_splits)
    then show ?thesis using p2sh_sigop_loop_fetched fetched_inv [OF c2(2)] fetched_trans [OF c2(2)] by blast
  qed (use c3(1) c2(2) in \<open>simp add: connect_p2sh_sigops_def\<close>)
  note u3 = fetched_utxo [OF f3]
  obtain v c4 where c4: "GetValueIn view c3 tx = (v, c4)" "fetched view_ok utxo best c c4"
    "\<forall>n. list_all (spendable ?u n) (vin tx) \<and> value_in ?u (vin tx) \<le> MAX_MONEY \<longrightarrow> v = value_in ?u (vin tx)"
    using value_in_loop_ok [OF fetched_inv [OF f3], of "vin tx" 0] present fetched_trans [OF f3] assms(4)
    unfolding u3 by (auto simp: GetValueIn_def)
  have v: "GetValueOut tx = Some (paid tx)" "0 \<le> paid tx" "paid tx \<le> MAX_MONEY" using well_formed_paid [OF assms(3)] by auto
  then have ci: "CheckInputs (ctx_curve ctx) (ctx_tree ctx) view tx state c4 (ctx_script_checks ctx) (ctx_flags ctx) = Inr c'"
    "nFees' = int64 (nFees + int64 (v - paid tx))"
    using c3(2) c4(1) by (auto simp: bindE_eq_Inr)
  from CheckInputs_covered [OF ci(1) fetched_inv [OF c4(2)] assms(3,4)] fetched_utxo [OF c4(2)] obtain n where
    n: "list_all (spendable ?u n) (vin tx)" "covered ?u tx" by auto
  then have vv: "v = value_in ?u (vin tx)" using c4(3) by (auto simp: covered_def)
  have "int64 (v - paid tx) = v - paid tx"
    using n(2) v(2,3) unfolding vv covered_def by (intro int64_id) (simp_all add: MAX_MONEY_val)
  then show ?thesis using ci vv n(2) assms(4) CheckInputs_fetched [OF ci(1) fetched_inv [OF c4(2)] v(1)] fetched_trans [OF c4(2)]
    by (simp add: fee_def)
qed

lemma connect_tx_ok:
  assumes "connect_tx ctx view state tx nSigOps nFees c = Inr (txundo, n', nFees', c')" "cache_inv view_ok utxo c" "tx_well_formed tx"
    "fresh (cache_utxo utxo c) tx"
  shows "cache_inv view_ok utxo c' \<and> cache_utxo utxo c' = apply_tx (ctx_height ctx) tx (cache_utxo utxo c) \<and>
    cache_best best c' = cache_best best c \<and> txundo = spent_coins (cache_utxo utxo c) tx \<and> (IsCoinBase tx \<or> covered (cache_utxo utxo c) tx) \<and>
    nFees' = (if IsCoinBase tx then nFees else int64 (nFees + fee (cache_utxo utxo c) tx))"
proof -
  let ?u = "cache_utxo utxo c"
  obtain c1 where c1: "(if \<not> IsCoinBase tx then connect_checks ctx view state tx (nSigOps + GetLegacySigOpCount tx) nFees c
      else Inr (nSigOps + GetLegacySigOpCount tx, nFees, c)) = Inr (n', nFees', c1)"
    "UpdateCoins view tx c1 (ctx_height ctx) = Inr (txundo, c')"
    using assms(1) unfolding connect_tx_def Let_def
    by (auto simp: bindE_eq_Inr map_sum_eq_Inr simp del: split_paired_Ex split: if_splits)
  have f: "fetched view_ok utxo best c c1" "IsCoinBase tx \<or> covered ?u tx"
    "nFees' = (if IsCoinBase tx then nFees else int64 (nFees + fee ?u tx))"
    using connect_checks_ok [of ctx state tx "nSigOps + GetLegacySigOpCount tx" nFees c n' nFees' c1] c1(1) assms(2,3) fetched_refl
    by (auto split: if_splits)
  note u1 = fetched_utxo [OF f(1)]
  have "IsCoinBase tx \<or> list_all (\<lambda>txin. cache_utxo utxo c1 (prevout txin) \<noteq> None) (vin tx)"
    using f(2) u1 by (auto simp: covered_def)
  from UpdateCoins_ok [OF fetched_inv [OF f(1)] _ well_formed_outputs [OF assms(3)] _ _ this, of "ctx_height ctx"] assms(3,4) u1
  show ?thesis using c1(2) f by (auto simp: tx_well_formed_def fetched_def)
qed

lemma connect_loop_ok:
  assumes "connect_loop ctx view state i txs nSigOps nFees c = Inr (vtxundo, nFees', c')" "cache_inv view_ok utxo c"
    "list_all tx_well_formed txs" "distinct (map tx_hash txs)" "list_all (fresh (cache_utxo utxo c)) txs"
  shows "cache_inv view_ok utxo c' \<and> cache_utxo utxo c' = run_txs (ctx_height ctx) txs (cache_utxo utxo c) \<and>
    run_ok (ctx_height ctx) txs (cache_utxo utxo c) \<and> nFees' = run_fees (ctx_height ctx) txs (cache_utxo utxo c) nFees \<and>
    vtxundo = (if i = 0 then tl (run_undo (ctx_height ctx) txs (cache_utxo utxo c)) else run_undo (ctx_height ctx) txs (cache_utxo utxo c))"
  using assms
proof (induction txs arbitrary: i nSigOps nFees c vtxundo)
  case (Cons tx txs)
  let ?u = "cache_utxo utxo c"
  obtain txundo n1 f1 c1 rest where s: "connect_tx ctx view state tx nSigOps nFees c = Inr (txundo, n1, f1, c1)"
    "connect_loop ctx view state (Suc i) txs n1 f1 c1 = Inr (rest, nFees', c')" "vtxundo = (if i > 0 then txundo # rest else rest)"
    using Cons.prems(1) by (auto simp: bindE_eq_Inr)
  from connect_tx_ok [OF s(1) Cons.prems(2)] Cons.prems(3,5) have c1: "cache_inv view_ok utxo c1"
    "cache_utxo utxo c1 = apply_tx (ctx_height ctx) tx ?u" "txundo = spent_coins ?u tx" "IsCoinBase tx \<or> covered ?u tx"
    "f1 = (if IsCoinBase tx then nFees else int64 (nFees + fee ?u tx))" by auto
  have "list_all (fresh (cache_utxo utxo c1)) txs"
    using Cons.prems(4,5) unfolding c1(2) list_all_iff by (metis fresh_apply_tx distinct.simps(2) imageI list.set_intros(2) list.set_map list.simps(9))
  from Cons.IH [OF s(2) c1(1) _ _ this] Cons.prems(3,4) show ?case
    using s(3) c1 by simp
qed simp

end

subsection \<open>Running the transactions of a block\<close>

lemma run_txs_take_Suc: "i < length txs \<Longrightarrow> run_txs height (take (Suc i) txs) u = apply_tx height (txs ! i) (run_txs height (take i txs) u)"
  by (induction txs arbitrary: i u) (auto simp: nth_Cons' take_Cons' less_Suc_eq_0_disj)

lemma run_ok_nth:
  "run_ok height txs u \<Longrightarrow> i < length txs \<Longrightarrow> IsCoinBase (txs ! i) \<or> covered (run_txs height (take i txs) u) (txs ! i)"
  by (induction txs arbitrary: i u) (auto simp: nth_Cons' take_Cons' less_Suc_eq_0_disj, blast+)

lemma run_undo_nth: "i < length txs \<Longrightarrow> run_undo height txs u ! i = spent_coins (run_txs height (take i txs) u) (txs ! i)"
  by (induction txs arbitrary: i u) (auto simp: nth_Cons' take_Cons' less_Suc_eq_0_disj)

lemma length_run_undo [simp]: "length (run_undo height txs u) = length txs"
  by (induction txs arbitrary: u) simp_all

lemma well_formed_values: "tx_well_formed tx \<Longrightarrow> list_all (\<lambda>out. 0 \<le> nValue out) (vout tx)"
  by (simp add: tx_well_formed_def)

lemma coins_ok_run:
  "coins_ok u \<Longrightarrow> list_all tx_well_formed txs \<Longrightarrow> 0 < height \<Longrightarrow> height < 2 ^ 31 \<Longrightarrow> coins_ok (run_txs height txs u)"
  by (induction txs arbitrary: u) (simp_all add: coins_ok_apply_tx well_formed_values)

lemma fresh_run:
  "list_all (fresh u) txs \<Longrightarrow> distinct (map tx_hash txs) \<Longrightarrow> i < length txs \<Longrightarrow> fresh (run_txs height (take i txs) u) (txs ! i)"
proof (induction txs arbitrary: i u)
  case (Cons tx txs)
  show ?case
  proof (cases i)
    case 0
    then show ?thesis using Cons.prems by simp
  next
    case (Suc j)
    have "list_all (fresh (apply_tx height tx u)) txs"
      using Cons.prems(1,2) unfolding list_all_iff
      by (metis fresh_apply_tx distinct.simps(2) imageI list.set_intros(2) list.set_map list.simps(9))
    then show ?thesis using Cons.IH [of "apply_tx height tx u" j] Cons.prems Suc by simp
  qed
qed simp

subsection \<open>Disconnecting what was connected\<close>

definition valid_block :: "CTransaction list \<Rightarrow> bool" where
  "valid_block vtx \<longleftrightarrow> vtx \<noteq> [] \<and> IsCoinBase (hd vtx) \<and> list_all (\<lambda>tx. \<not> IsCoinBase tx) (tl vtx) \<and> list_all tx_well_formed vtx \<and>
     distinct (map tx_hash vtx)"

lemma valid_block_nth:
  "valid_block vtx \<Longrightarrow> i < length vtx \<Longrightarrow> tx_well_formed (vtx ! i) \<and> (IsCoinBase (vtx ! i) \<longleftrightarrow> i = 0)"
  by (cases vtx; cases i) (auto simp: valid_block_def list_all_length)

context coins_view_laws
begin

lemma disconnect_loop_ok:
  assumes "cache_inv view_ok utxo c" "cache_utxo utxo c = run_txs height (take i vtx) u" "i \<le> length vtx"
    "valid_block vtx" "list_all (fresh u) vtx" "run_ok height vtx u" "coins_ok u" "0 < height" "height < 2 ^ 31"
    "vtxundo = tl (run_undo height vtx u)"
  shows "\<exists>c'. disconnect_loop view height vtx vtxundo i fClean c = Inr (Some fClean, c') \<and> cache_inv view_ok utxo c' \<and>
    cache_utxo utxo c' = u \<and> cache_best best c' = cache_best best c"
  using assms(1-3)
proof (induction i arbitrary: c)
  case (Suc i)
  define tx where "tx = vtx ! i"
  define w where "w = run_txs height (take i vtx) u"
  have i: "i < length vtx" using Suc.prems(3) by simp
  have tx: "tx_well_formed tx" "IsCoinBase tx \<longleftrightarrow> i = 0" using valid_block_nth [OF assms(4) i] by (simp_all add: tx_def)
  have len: "0 + length (vout tx) \<le> 2 ^ 32" using well_formed_outputs [OF tx(1)] by simp
  have uc: "cache_utxo utxo c = with_outputs tx height 0 (vout tx) (w |` (- spent_points tx))"
    using Suc.prems(2) run_txs_take_Suc [OF i] by (simp add: tx_def w_def apply_tx_def)
  have fw: "fresh w tx" unfolding w_def tx_def
    using assms(4,5) i by (intro fresh_run) (auto simp: valid_block_def)
  have there: "cache_utxo utxo c (out_point tx (0 + k)) = Some (Coin_of (vout tx ! k) height (IsCoinBase tx))"
    if "k < length (vout tx)" "\<not> IsUnspendable (scriptPubKey (vout tx ! k))" for k
    using with_outputs_new [OF that(1) _ that(2)] that(1) len unfolding uc by simp
  from disconnect_outputs_ok [OF Suc.prems(1) len _ assms(9) there, of fClean] assms(8) obtain c1 where
    c1: "disconnect_outputs view tx height 0 (vout tx) fClean c = (fClean, c1)" "cache_inv view_ok utxo c1"
      "cache_utxo utxo c1 = without_outputs tx 0 (vout tx) (cache_utxo utxo c)" "cache_best best c1 = cache_best best c" by auto
  have u1: "cache_utxo utxo c1 = w |` (- spent_points tx)"
    unfolding c1(3) uc by (rule without_with_outputs [OF fresh_restrict [OF fw]])
  show ?case
  proof (cases "i = 0")
    case True
    then have "cache_utxo utxo c1 = w" using u1 tx(2) by (simp add: spent_points_def)
    from Suc.IH [OF c1(2) this [unfolded w_def]] Suc.prems(3) show ?thesis
      using c1 True by (simp add: tx_def)
  next
    case False
    then have cb: "\<not> IsCoinBase tx" using tx(2) by simp
    have cov: "covered w tx" using run_ok_nth [OF assms(6) i] cb by (simp add: w_def tx_def)
    have undo: "vtxundo ! (i - 1) = map (\<lambda>txin. the (w (prevout txin))) (vin tx)"
      using False i run_undo_nth [OF i, of height u] cb by (simp add: assms(10) nth_tl w_def tx_def spent_coins_def)
    have d: "distinct (map prevout (vin tx))" using tx(1) by (simp add: tx_well_formed_def)
    have pres: "list_all (\<lambda>txin. w (prevout txin) \<noteq> None) (vin tx)" using cov by (simp add: covered_def)
    have cw: "coins_ok w" unfolding w_def
      using assms(4,7-9) by (intro coins_ok_run) (auto simp: valid_block_def list_all_iff dest: in_set_takeD)
    have none: "cache_utxo utxo c1 (prevout (vin tx ! k)) = None" if "k < length (vin tx)" for k
      using that u1 cb by (simp add: spent_points_def restrict_map_def)
    have good: "0 < coin_nHeight (vtxundo ! (i - 1) ! k) \<and> \<not> Coin_IsSpent (vtxundo ! (i - 1) ! k) \<and>
        \<not> IsUnspendable (scriptPubKey (coin_out (vtxundo ! (i - 1) ! k)))" if "k < length (vin tx)" for k
      using that pres cw unfolding undo coins_ok_def by (auto simp: list_all_length)
    from restore_inputs_ok [where j = "length (vin tx)" and fClean = fClean and vprevout = "vtxundo ! (i - 1)", OF c1(2) d _ none good] obtain c2 where
      c2: "restore_inputs view (vin tx) (vtxundo ! (i - 1)) (length (vin tx)) fClean c1 = Inr (Some fClean, c2)" "cache_inv view_ok utxo c2"
        "cache_utxo utxo c2 = restored (vin tx) (vtxundo ! (i - 1)) (length (vin tx)) (cache_utxo utxo c1)"
        "cache_best best c2 = cache_best best c1" by auto
    have "cache_utxo utxo c2 = w"
      unfolding c2(3) undo u1 using restored_all [OF pres] cb by (simp add: spent_points_def)
    from Suc.IH [OF c2(2) this [unfolded w_def]] Suc.prems(3) show ?thesis
      using c1 c2 False undo by (simp add: tx_def)
  qed
qed simp

lemma connect_disconnect_ok:
  assumes "cache_inv view_ok utxo c" "coins_ok (cache_utxo utxo c)" "valid_block vtx" "0 < ctx_height ctx" "ctx_height ctx < 2 ^ 31"
    "\<not> blob_IsNull blockHash" "ConnectBlock ctx view state blockHash vtx c = Inr (vtxundo, nFees, c1)"
  shows "\<exists>c2. DisconnectBlock view blockHash (ctx_height ctx) prevHash True (Some vtxundo) True vtx c1 = Inr (DISCONNECT_OK, c2) \<and>
    cache_inv view_ok utxo c2 \<and> cache_utxo utxo c2 = cache_utxo utxo c \<and> cache_hashBlock c2 = prevHash"
proof -
  let ?u = "cache_utxo utxo c" and ?h = "ctx_height ctx"
  obtain ca cb where b: "bip30_check view state vtx c = Inr ca" "connect_loop ctx view state 0 vtx 0 0 ca = Inr (vtxundo, nFees, cb)"
    "c1 = SetBestBlock cb blockHash"
    using assms(7) by (auto simp: ConnectBlock_def bindE_eq_Inr)
  from bip30_check_ok [OF b(1) assms(1)] have f: "list_all (fresh ?u) vtx" "fetched view_ok utxo best c ca" by simp_all
  note ua = fetched_utxo [OF f(2)]
  have v: "list_all tx_well_formed vtx" "distinct (map tx_hash vtx)" using assms(3) by (simp_all add: valid_block_def)
  from connect_loop_ok [OF b(2) fetched_inv [OF f(2)] v] f(1) ua have r: "cache_inv view_ok utxo cb" "cache_utxo utxo cb = run_txs ?h vtx ?u"
    "run_ok ?h vtx ?u" "vtxundo = tl (run_undo ?h vtx ?u)" by simp_all
  have c1: "cache_inv view_ok utxo c1" "cache_utxo utxo c1 = run_txs ?h (take (length vtx) vtx) ?u" "cache_hashBlock c1 = blockHash"
    using r b(3) by (simp_all add: SetBestBlock_inv)
  have gb: "Cache_GetBestBlock view c1 = (blockHash, c1)" using assms(6) c1(3) by (simp add: Cache_GetBestBlock_def)
  from disconnect_loop_ok [OF c1(1,2) _ assms(3) f(1) r(3) assms(2,4,5) r(4), of True] obtain c2 where
    "disconnect_loop view ?h vtx vtxundo (length vtx) True c1 = Inr (Some True, c2)" "cache_inv view_ok utxo c2" "cache_utxo utxo c2 = ?u" by auto
  moreover have "length vtxundo + 1 = length vtx" using r(4) assms(3) by (simp add: valid_block_def)
  ultimately show ?thesis using gb by (simp add: DisconnectBlock_def SetBestBlock_inv)
qed

end

subsection \<open>The supply\<close>

definition total_supply :: "(COutPoint \<rightharpoonup> Coin) \<Rightarrow> int" where
  "total_supply u = (\<Sum>p \<in> dom u. nValue (coin_out (the (u p))))"

definition supply_ok :: "(COutPoint \<rightharpoonup> Coin) \<Rightarrow> bool" where
  "supply_ok u \<longleftrightarrow> finite (dom u) \<and> (\<forall>p coin. u p = Some coin \<longrightarrow> 0 \<le> nValue (coin_out coin))"

lemma supply_nonneg: "supply_ok u \<Longrightarrow> 0 \<le> total_supply u"
  by (auto simp: total_supply_def supply_ok_def intro!: sum_nonneg)

lemma supply_add: "finite (dom u) \<Longrightarrow> u p = None \<Longrightarrow> total_supply (u(p \<mapsto> coin)) = total_supply u + nValue (coin_out coin)"
proof -
  assume u: "finite (dom u)" "u p = None"
  have p: "p \<notin> dom u" using u(2) by blast
  have "(\<Sum>q \<in> dom u. nValue (coin_out (the ((u(p \<mapsto> coin)) q)))) = total_supply u"
    unfolding total_supply_def using p by (intro sum.cong) auto
  then show ?thesis using u(1) p by (simp add: total_supply_def)
qed

lemma supply_restrict:
  assumes "finite (dom u)" "S \<subseteq> dom u"
  shows "total_supply (u |` (- S)) = total_supply u - (\<Sum>p \<in> S. nValue (coin_out (the (u p))))"
proof -
  have d: "dom (u |` (- S)) = dom u - S" by auto
  have "total_supply (u |` (- S)) = (\<Sum>p \<in> dom u - S. nValue (coin_out (the (u p))))"
    unfolding total_supply_def d by (rule sum.cong) auto
  then show ?thesis using sum_diff [OF assms] by (simp add: total_supply_def)
qed

lemma supply_with_outputs:
  assumes "supply_ok u" "i + length outs \<le> 2 ^ 32" "list_all (\<lambda>out. 0 \<le> nValue out) outs"
    "\<And>k. k < length outs \<Longrightarrow> u (out_point tx (i + k)) = None"
  shows "supply_ok (with_outputs tx height i outs u) \<and> total_supply (with_outputs tx height i outs u) \<le> total_supply u + sum_list (map nValue outs)"
  using assms
proof (induction outs arbitrary: i u)
  case (Cons out outs)
  have i: "i < 2 ^ 32" using Cons.prems(2) by simp
  define w where "w = (if IsUnspendable (scriptPubKey out) then u else u(out_point tx i \<mapsto> Coin_of out height (IsCoinBase tx)))"
  have o: "0 \<le> nValue out" "u (out_point tx i) = None" using Cons.prems(3) Cons.prems(4) [of 0] by simp_all
  have w: "supply_ok w" "total_supply w \<le> total_supply u + nValue out"
    using Cons.prems(1) o supply_add [of u "out_point tx i" "Coin_of out height (IsCoinBase tx)"]
    by (auto simp: w_def supply_ok_def Coin_of_def)
  have "w (out_point tx (Suc i + k)) = None" if "k < length outs" for k
  proof -
    have "out_point tx (Suc i + k) \<noteq> out_point tx i"
      using out_point_inj [of "Suc i + k" i] that Cons.prems(2) by (simp del: of_nat_Suc of_nat_add add_Suc)
    then show ?thesis using Cons.prems(4) [of "Suc k"] that by (simp add: w_def)
  qed
  from Cons.IH [OF w(1) _ _ this] Cons.prems(2,3) w(2) show ?case
    unfolding with_outputs_Cons [OF i] w_def [symmetric] by simp
qed simp

lemma value_in_spent:
  "distinct (map prevout ins) \<Longrightarrow> (\<Sum>p \<in> prevout ` set ins. nValue (coin_out (the (u p)))) = value_in u ins"
  by (induction ins) (auto simp: value_in_def)

lemma supply_apply_tx:
  assumes "supply_ok u" "tx_well_formed tx" "fresh u tx" "IsCoinBase tx \<or> covered u tx"
  shows "supply_ok (apply_tx height tx u) \<and>
    total_supply (apply_tx height tx u) + fee u tx \<le> total_supply u + (if IsCoinBase tx then paid tx else 0)"
proof -
  let ?w = "u |` (- spent_points tx)"
  have d: "distinct (map prevout (vin tx))" using assms(2) by (simp add: tx_well_formed_def)
  have "spent_points tx \<subseteq> dom u" using assms(4) by (auto simp: spent_points_def covered_def list_all_iff)
  then have w: "total_supply ?w = total_supply u - (if IsCoinBase tx then 0 else value_in u (vin tx))"
    using supply_restrict [of u "spent_points tx"] assms(1) value_in_spent [OF d] by (simp add: supply_ok_def spent_points_def)
  have "supply_ok ?w" using assms(1) by (auto simp: supply_ok_def restrict_map_def split: if_splits intro: rev_finite_subset)
  then have "supply_ok (apply_tx height tx u) \<and> total_supply (apply_tx height tx u) \<le> total_supply ?w + paid tx"
    unfolding apply_tx_def paid_def
    using well_formed_outputs [OF assms(2)] well_formed_values [OF assms(2)] fresh_restrict [OF assms(3)]
    by (intro supply_with_outputs) (simp_all add: fresh_def)
  then show ?thesis using w by (cases "IsCoinBase tx") (simp_all add: fee_def)
qed

definition minted :: "CTransaction list \<Rightarrow> int" where
  "minted txs = sum_list (map paid (filter IsCoinBase txs))"

lemma supply_run:
  assumes "supply_ok u" "list_all tx_well_formed txs" "distinct (map tx_hash txs)" "list_all (fresh u) txs" "run_ok height txs u"
    "0 \<le> a" "a + total_supply u + minted txs < 2 ^ 63"
  shows "supply_ok (run_txs height txs u) \<and> total_supply (run_txs height txs u) + run_fees height txs u a \<le> total_supply u + minted txs + a"
  using assms
proof (induction txs arbitrary: u a)
  case Nil
  then show ?case by (simp add: minted_def)
next
  case (Cons tx txs)
  let ?v = "apply_tx height tx u" and ?f = "fee u tx" and ?m = "if IsCoinBase tx then paid tx else 0"
  from supply_apply_tx [OF Cons.prems(1), of tx height] Cons.prems(2,4,5) have v: "supply_ok ?v" "total_supply ?v + ?f \<le> total_supply u + ?m" by simp_all
  have m: "minted (tx # txs) = ?m + minted txs" by (simp add: minted_def)
  have mn: "0 \<le> minted txs" unfolding minted_def
    using Cons.prems(2) well_formed_paid by (intro sum_list_nonneg) (auto simp: list_all_iff)
  have f0: "0 \<le> ?f" "IsCoinBase tx \<Longrightarrow> ?f = 0" using Cons.prems(5) by (auto simp: fee_def covered_def)
  have sv: "0 \<le> total_supply ?v" using supply_nonneg [OF v(1)] .
  have a: "(if IsCoinBase tx then a else int64 (a + ?f)) = a + ?f"
    using f0 v(2) sv mn m Cons.prems(6,7) by (auto intro!: int64_id)
  have fr: "list_all (fresh ?v) txs"
    using Cons.prems(3,4) unfolding list_all_iff
    by (metis fresh_apply_tx distinct.simps(2) imageI list.set_intros(2) list.set_map list.simps(9))
  have "supply_ok (run_txs height txs ?v) \<and> total_supply (run_txs height txs ?v) + run_fees height txs ?v (a + ?f) \<le> total_supply ?v + minted txs + (a + ?f)"
    using Cons.prems(2,3,5,6,7) v f0(1) m by (intro Cons.IH [OF v(1) _ _ fr]) simp_all
  then show ?case using v(2) m a by simp
qed

lemma minted_valid_block: "valid_block vtx \<Longrightarrow> minted vtx = paid (hd vtx)"
  by (cases vtx) (auto simp: valid_block_def minted_def list_all_iff filter_empty_conv)

context coins_view_laws
begin

lemma connect_supply_ok:
  assumes "cache_inv view_ok utxo c" "supply_ok (cache_utxo utxo c)" "total_supply (cache_utxo utxo c) \<le> MAX_MONEY" "valid_block vtx"
    "ConnectBlock ctx view state blockHash vtx c = Inr (vtxundo, nFees, c1)"
  shows "supply_ok (cache_utxo utxo c1) \<and> total_supply (cache_utxo utxo c1) + nFees \<le> total_supply (cache_utxo utxo c) + paid (hd vtx)"
proof -
  let ?u = "cache_utxo utxo c" and ?h = "ctx_height ctx"
  obtain ca cb where b: "bip30_check view state vtx c = Inr ca" "connect_loop ctx view state 0 vtx 0 0 ca = Inr (vtxundo, nFees, cb)"
    "c1 = SetBestBlock cb blockHash"
    using assms(5) by (auto simp: ConnectBlock_def bindE_eq_Inr)
  from bip30_check_ok [OF b(1) assms(1)] have f: "list_all (fresh ?u) vtx" "fetched view_ok utxo best c ca" by simp_all
  have v: "list_all tx_well_formed vtx" "distinct (map tx_hash vtx)" using assms(4) by (simp_all add: valid_block_def)
  from connect_loop_ok [OF b(2) fetched_inv [OF f(2)] v] f(1) fetched_utxo [OF f(2)] have r: "cache_utxo utxo cb = run_txs ?h vtx ?u"
    "run_ok ?h vtx ?u" "nFees = run_fees ?h vtx ?u 0" by simp_all
  have "paid (hd vtx) \<le> MAX_MONEY"
    using assms(4) well_formed_paid [of "hd vtx"] by (cases vtx) (auto simp: valid_block_def)
  then have "0 + total_supply ?u + minted vtx < 2 ^ 63"
    using assms(3) minted_valid_block [OF assms(4)] by (simp add: MAX_MONEY_val)
  from supply_run [OF assms(2) v f(1) r(2) _ this] show ?thesis
    using minted_valid_block [OF assms(4)] b(3) r by (simp add: SetBestBlock_inv)
qed

end

subsection \<open>Blocks that connect\<close>

definition p2sh_sigops :: "(COutPoint \<rightharpoonup> Coin) \<Rightarrow> CTxIn \<Rightarrow> nat" where
  "p2sh_sigops u txin = (let script = scriptPubKey (coin_out (the (u (prevout txin)))) in
     if IsPayToScriptHash script then GetSigOpCount_P2SH script (scriptSig txin) else 0)"

text \<open>All that the loop of \<open>ConnectBlock\<close> asks of a transaction that is not a coinbase, apart from the signature operations.\<close>

definition tx_connects :: "connect_context \<Rightarrow> int \<Rightarrow> (COutPoint \<rightharpoonup> Coin) \<Rightarrow> CTransaction \<Rightarrow> bool" where
  "tx_connects ctx nSpendHeight u tx \<longleftrightarrow> covered u tx \<and> list_all (spendable u nSpendHeight) (vin tx) \<and>
     SequenceLocks (index (ctx_tree ctx)) tx (ctx_lock_flags ctx) (map (\<lambda>txin. int (coin_nHeight (the (u (prevout txin))))) (vin tx))
       (ctx_pindex ctx) = Inr True \<and>
     (\<forall>k < length (vin tx). CScriptCheck (ctx_curve ctx) (scriptPubKey (coin_out (the (u (prevout (vin tx ! k)))))) tx k (ctx_flags ctx) = Inr ())"

context coins_view_laws
begin

lemma bip30_check_complete:
  "cache_inv view_ok utxo c \<Longrightarrow> list_all (fresh (cache_utxo utxo c)) txs \<Longrightarrow> \<exists>c'. bip30_check view state txs c = Inr c'"
proof (induction txs arbitrary: c)
  case (Cons tx txs)
  from bip30_outputs_ok [OF Cons.prems(1), of tx 0 "vout tx"] obtain c1 where
    c1: "bip30_outputs view (tx_hash tx) 0 (vout tx) c = (\<exists>k < length (vout tx). cache_utxo utxo c (out_point tx (0 + k)) \<noteq> None, c1)"
      "fetched view_ok utxo best c c1" by blast
  then have "bip30_outputs view (tx_hash tx) 0 (vout tx) c = (False, c1)" using Cons.prems(2) by (auto simp: fresh_def)
  then show ?case using Cons.IH [OF fetched_inv [OF c1(2)]] Cons.prems(2) fetched_utxo [OF c1(2)] by simp
qed simp

lemma p2sh_sigop_loop_complete:
  assumes "cache_inv view_ok utxo c" "list_all (\<lambda>txin. cache_utxo utxo c (prevout txin) \<noteq> None) ins"
  shows "\<exists>c'. p2sh_sigop_loop view ins n c = Inr (n + sum_list (map (p2sh_sigops (cache_utxo utxo c)) ins), c')"
  using assms
proof (induction ins arbitrary: n c)
  case (Cons txin ins)
  obtain coin where coin: "cache_utxo utxo c (prevout txin) = Some coin" using Cons.prems(2) by auto
  obtain c1 where c1: "AccessCoin view c (prevout txin) = (coin, c1)" "\<not> Coin_IsSpent coin" "fetched view_ok utxo best c c1"
    by (rule access_unspent [OF Cons.prems(1) coin])
  have "list_all (\<lambda>txin. cache_utxo utxo c1 (prevout txin) \<noteq> None) ins" using Cons.prems(2) fetched_utxo [OF c1(3)] by simp
  from Cons.IH [OF fetched_inv [OF c1(3)] this, of "n + p2sh_sigops (cache_utxo utxo c) txin"]
  have "\<exists>c'. p2sh_sigop_loop view ins (n + p2sh_sigops (cache_utxo utxo c) txin) c1 =
      Inr (n + sum_list (map (p2sh_sigops (cache_utxo utxo c)) (txin # ins)), c')"
    by (simp add: fetched_utxo [OF c1(3)] add.assoc)
  moreover have "p2sh_sigop_loop view (txin # ins) n c = p2sh_sigop_loop view ins (n + p2sh_sigops (cache_utxo utxo c) txin) c1"
    using c1(1,2) coin by (simp add: p2sh_sigops_def Let_def)
  ultimately show ?case by simp
qed simp

lemma connect_checks_complete:
  assumes "cache_inv view_ok utxo c" "tx_well_formed tx" "\<not> IsCoinBase tx" "tx_connects ctx (nHeight b + 1) (cache_utxo utxo c) tx"
    "mapBlockIndex (ctx_tree ctx) (cache_best best c) = Some p" "index (ctx_tree ctx) p = Some b"
    "nSigOps + sum_list (map (p2sh_sigops (cache_utxo utxo c)) (vin tx)) \<le> MaxBlockSigOps (ctx_dip0001 ctx)"
  shows "\<exists>r. connect_checks ctx view state tx nSigOps nFees c = Inr r"
proof -
  let ?u = "cache_utxo utxo c"
  have co: "covered ?u tx" "list_all (spendable ?u (nHeight b + 1)) (vin tx)"
    "SequenceLocks (index (ctx_tree ctx)) tx (ctx_lock_flags ctx) (map (\<lambda>txin. int (coin_nHeight (the (?u (prevout txin))))) (vin tx))
       (ctx_pindex ctx) = Inr True"
    "\<forall>k < length (vin tx). CScriptCheck (ctx_curve ctx) (scriptPubKey (coin_out (the (?u (prevout (vin tx ! k)))))) tx k (ctx_flags ctx) = Inr ()"
    using assms(4) by (simp_all add: tx_connects_def)
  have present: "list_all (\<lambda>txin. ?u (prevout txin) \<noteq> None) (vin tx)" using co(1) by (simp add: covered_def)
  obtain c1 where c1: "HaveInputs view c tx = (True, c1)" "fetched view_ok utxo best c c1"
    using HaveInputs_ok [OF assms(1), of tx] present by auto
  obtain c2 where c2: "prev_heights view (vin tx) c1 = (map (\<lambda>txin. int (coin_nHeight (the (?u (prevout txin))))) (vin tx), c2)"
    "fetched view_ok utxo best c c2"
    using prev_heights_ok [OF fetched_inv [OF c1(2)], of "vin tx"] present fetched_utxo [OF c1(2)] fetched_trans [OF c1(2)] by auto
  obtain n3 c3 where c3: "connect_p2sh_sigops ctx view state tx nSigOps c2 = Inr (n3, c3)" "fetched view_ok utxo best c c3"
  proof (cases "ctx_strict_p2sh ctx")
    case True
    from p2sh_sigop_loop_complete [OF fetched_inv [OF c2(2)], of "vin tx" 0] present fetched_utxo [OF c2(2)] obtain c3 where
      c3: "p2sh_sigop_loop view (vin tx) 0 c2 = Inr (sum_list (map (p2sh_sigops ?u) (vin tx)), c3)" by auto
    then have "connect_p2sh_sigops ctx view state tx nSigOps c2 = Inr (nSigOps + sum_list (map (p2sh_sigops ?u) (vin tx)), c3)"
      using True assms(3,7) by (simp add: connect_p2sh_sigops_def GetP2SHSigOpCount_def)
    then show ?thesis using that p2sh_sigop_loop_fetched [OF c3 fetched_inv [OF c2(2)]] fetched_trans [OF c2(2)] by blast
  next
    case False
    then show ?thesis using that c2(2) by (simp add: connect_p2sh_sigops_def)
  qed
  obtain v c4 where c4: "GetValueIn view c3 tx = (v, c4)" "fetched view_ok utxo best c c4"
    using value_in_loop_ok [OF fetched_inv [OF c3(2)], of "vin tx" 0] present fetched_utxo [OF c3(2)] fetched_trans [OF c3(2)] assms(3)
    by (auto simp: GetValueIn_def)
  have v: "GetValueOut tx = Some (paid tx)" using well_formed_paid [OF assms(2)] by blast
  have bb: "mapBlockIndex (ctx_tree ctx) (cache_best best c4) = Some p" using assms(5) c4(2) by (simp add: fetched_def)
  have s: "\<exists>coin. ?u (prevout (vin tx ! k)) = Some coin \<and> CScriptCheck (ctx_curve ctx) (scriptPubKey (coin_out coin)) tx k (ctx_flags ctx) = Inr ()"
    if "k < length (vin tx)" for k
    using co(4) present that unfolding list_all_length by (metis option.collapse)
  have "\<exists>c'. CheckInputs (ctx_curve ctx) (ctx_tree ctx) view tx state c4 True (ctx_flags ctx) = Inr c'"
    unfolding CheckInputs_iff [OF fetched_inv [OF c4(2)] assms(3) v bb assms(6)] fetched_utxo [OF c4(2)]
    using co(1,2) s by (auto simp: covered_def)
  then obtain c5 where "CheckInputs (ctx_curve ctx) (ctx_tree ctx) view tx state c4 (ctx_script_checks ctx) (ctx_flags ctx) = Inr c5"
    using assms(3) by (cases "ctx_script_checks ctx") (auto simp: CheckInputs_def bindE_eq_Inr)
  then show ?thesis using c1(1) c2(1) co(3) c3(1) c4(1) v by (simp add: connect_checks_def)
qed

lemma connect_tx_complete:
  assumes "cache_inv view_ok utxo c" "tx_well_formed tx" "fresh (cache_utxo utxo c) tx"
    "\<not> IsCoinBase tx \<Longrightarrow> tx_connects ctx (nHeight b + 1) (cache_utxo utxo c) tx"
    "mapBlockIndex (ctx_tree ctx) (cache_best best c) = Some p" "index (ctx_tree ctx) p = Some b"
    "nSigOps + GetLegacySigOpCount tx + (if IsCoinBase tx then 0 else sum_list (map (p2sh_sigops (cache_utxo utxo c)) (vin tx)))
       \<le> MaxBlockSigOps (ctx_dip0001 ctx)"
  shows "\<exists>txundo n' nFees' c'. connect_tx ctx view state tx nSigOps nFees c = Inr (txundo, n', nFees', c')"
proof -
  let ?u = "cache_utxo utxo c"
  obtain n1 f1 c1 where c1: "(if \<not> IsCoinBase tx then connect_checks ctx view state tx (nSigOps + GetLegacySigOpCount tx) nFees c
      else Inr (nSigOps + GetLegacySigOpCount tx, nFees, c)) = Inr (n1, f1, c1)" "fetched view_ok utxo best c c1"
  proof (cases "IsCoinBase tx")
    case False
    from connect_checks_complete [OF assms(1,2) False assms(4) [OF False] assms(5,6), of "nSigOps + GetLegacySigOpCount tx" state nFees]
    obtain n f c' where "connect_checks ctx view state tx (nSigOps + GetLegacySigOpCount tx) nFees c = Inr (n, f, c')"
      using assms(7) False by auto
    then show ?thesis using that connect_checks_ok [of ctx state tx "nSigOps + GetLegacySigOpCount tx" nFees c n f c'] assms(1,2) False by auto
  qed (use that fetched_refl [OF assms(1)] in simp)
  have "IsCoinBase tx \<or> list_all (\<lambda>txin. cache_utxo utxo c1 (prevout txin) \<noteq> None) (vin tx)"
    using assms(4) fetched_utxo [OF c1(2)] by (auto simp: tx_connects_def covered_def)
  from UpdateCoins_ok [OF fetched_inv [OF c1(2)] _ well_formed_outputs [OF assms(2)] _ _ this, of "ctx_height ctx"] assms(2,3) fetched_utxo [OF c1(2)]
  obtain u2 c2 where "UpdateCoins view tx c1 (ctx_height ctx) = Inr (u2, c2)" by (auto simp: tx_well_formed_def)
  then show ?thesis using c1(1) assms(7) by (auto simp: connect_tx_def Let_def split: if_splits)
qed

end

subsection \<open>Example\<close>

definition demo_coinbase :: CTransaction where
  "demo_coinbase = \<lparr>tx_nVersion = 1, tx_nType = TRANSACTION_NORMAL, vin = [\<lparr>prevout = COutPoint_SetNull, scriptSig = [1, 2], nSequence = SEQUENCE_FINAL\<rparr>],
     vout = [\<lparr>nValue = 25 * COIN, scriptPubKey = [81], nRounds = - 10\<rparr>], nLockTime = 0, vExtraPayload = [], tx_hash = replicate 32 2\<rparr>"

definition demo_spend_tx :: CTransaction where
  "demo_spend_tx = \<lparr>tx_nVersion = 2, tx_nType = TRANSACTION_NORMAL, vin = [\<lparr>prevout = demo_point, scriptSig = [], nSequence = 0\<rparr>],
     vout = [\<lparr>nValue = 49 * COIN, scriptPubKey = [81], nRounds = - 10\<rparr>], nLockTime = 0, vExtraPayload = [], tx_hash = replicate 32 3\<rparr>"

definition demo_context :: connect_context where
  "demo_context = \<lparr>ctx_curve = demo_curve, ctx_tree = demo_tree, ctx_pindex = 2, ctx_height = 2, ctx_flags = 1, ctx_lock_flags = 1,
     ctx_script_checks = True, ctx_strict_p2sh = True, ctx_dip0001 = True\<rparr>"

lemma demo_coinbase_ok: "tx_well_formed demo_coinbase" "IsCoinBase demo_coinbase"
proof -
  show cb: "IsCoinBase demo_coinbase" by (simp add: IsCoinBase_def demo_coinbase_def COutPoint_IsNull_def COutPoint_SetNull_def blob_IsNull_def list_all_iff)
  have "(op_hash COutPoint_SetNull, op_n COutPoint_SetNull) \<notin> set burnt_inputs" by (simp add: COutPoint_SetNull_def burnt_inputs_def)
  moreover have "GetTotalSize demo_coinbase = 63"
    by (simp add: GetTotalSize_def Serialize_CTransaction_def Serialize_vector_def Serialize_CTxIn_def Serialize_CTxOut_def
        Serialize_COutPoint_def Serialize_bytes_def WriteCompactSize_def has_payload_def demo_coinbase_def COutPoint_SetNull_def
        ser_writedata8_def ser_writedata32_def ser_writedata64_def)
  ultimately show "tx_well_formed demo_coinbase"
    using cb by (simp add: tx_well_formed_def demo_coinbase_def COIN_def MAX_MONEY_val)
qed

lemma demo_spend_tx_ok: "tx_well_formed demo_spend_tx" "\<not> IsCoinBase demo_spend_tx"
proof -
  show cb: "\<not> IsCoinBase demo_spend_tx" by (simp add: IsCoinBase_def demo_spend_tx_def COutPoint_IsNull_def demo_point_def)
  have "(op_hash demo_point, op_n demo_point) \<notin> set burnt_inputs" by (simp add: demo_point_def burnt_inputs_def)
  moreover have "\<not> COutPoint_IsNull demo_point" by (simp add: COutPoint_IsNull_def demo_point_def)
  moreover have "GetTotalSize demo_spend_tx = 61"
    by (simp add: GetTotalSize_def Serialize_CTransaction_def Serialize_vector_def Serialize_CTxIn_def Serialize_CTxOut_def
        Serialize_COutPoint_def Serialize_bytes_def WriteCompactSize_def has_payload_def demo_spend_tx_def demo_point_def
        ser_writedata8_def ser_writedata32_def ser_writedata64_def)
  ultimately show "tx_well_formed demo_spend_tx"
    using cb by (simp add: tx_well_formed_def demo_spend_tx_def COIN_def MAX_MONEY_val)
qed

lemma demo_points: "demo_point \<noteq> out_point demo_coinbase n" "demo_point \<noteq> out_point demo_spend_tx n"
    "out_point demo_coinbase n \<noteq> out_point demo_spend_tx m"
  by (simp_all add: demo_point_def demo_coinbase_def demo_spend_tx_def)

lemma demo_block_valid: "valid_block [demo_coinbase, demo_spend_tx]"
  using demo_coinbase_ok demo_spend_tx_ok demo_points(3) [of 0 0]
  by (auto simp: valid_block_def demo_coinbase_def demo_spend_tx_def)

lemma demo_coins: "coins_ok (block_coins demo_cache)" "supply_ok (block_coins demo_cache)" "total_supply (block_coins demo_cache) = 50 * COIN"
  using demo_coin_unspent
  by (auto simp: demo_cache_ok(2) coins_ok_def supply_ok_def total_supply_def demo_coin_def Coin_of_def IsUnspendable_def MAX_SCRIPT_SIZE_def COIN_def)

lemma demo_sigops: "GetLegacySigOpCount demo_coinbase = 0" "GetLegacySigOpCount demo_spend_tx = 0" "\<not> IsPayToScriptHash [81]"
  by code_simp+

lemma demo_script: "CScriptCheck demo_curve [81] demo_spend_tx 0 1 = Inr ()"
  by code_simp

lemma demo_tx_connects: "u demo_point = Some demo_coin \<Longrightarrow> tx_connects demo_context 2 u demo_spend_tx"
proof -
  assume u: "u demo_point = Some demo_coin"
  have b: "demo_index 2 = Some (demo_entry 2 (Some 1) (Some 0) 2 20 20)" by (simp add: demo_index_def)
  have vin: "vin demo_spend_tx = [\<lparr>prevout = demo_point, scriptSig = [], nSequence = 0\<rparr>]" by (simp add: demo_spend_tx_def)
  have "SequenceLocks demo_index demo_spend_tx 1 [1] 2 = Inr True"
    using SequenceLocks_val [OF demo_index_wf b, of 1 "[1]" demo_spend_tx 1]
    by (simp add: vin demo_entry_def input_unlocked_def)
  moreover have "coin_nHeight demo_coin = 1" "scriptPubKey (coin_out demo_coin) = [81]" "nValue (coin_out demo_coin) = 50 * COIN" "\<not> fCoinBase demo_coin"
    by (simp_all add: demo_coin_def Coin_of_def)
  moreover have "paid demo_spend_tx = 49 * COIN" by (simp add: paid_def demo_spend_tx_def)
  ultimately show ?thesis using u demo_script
    by (simp add: tx_connects_def covered_def vin spendable_def MoneyRange_def demo_context_def demo_tree_def
        COIN_def MAX_MONEY_val)
qed

lemma demo_connects: "\<exists>r. ConnectBlock demo_context tip_view CValidationState_default (replicate 32 2) [demo_coinbase, demo_spend_tx] demo_cache = Inr r"
proof -
  let ?vtx = "[demo_coinbase, demo_spend_tx]" and ?st = CValidationState_default
  note inv = demo_cache_ok(1) [unfolded block_ok_def] and u = demo_cache_ok(2) [unfolded block_coins_def]
  have fr: "list_all (fresh (cache_utxo tip_coins demo_cache)) ?vtx"
    using demo_points(1,2) [THEN not_sym] by (auto simp: u fresh_def)
  from tip.bip30_check_complete [OF inv this] obtain c0 where c0: "bip30_check tip_view ?st ?vtx demo_cache = Inr c0" by blast
  note f0 = conjunct2 [OF tip.bip30_check_ok [OF c0 inv]]
  have b0: "mapBlockIndex (ctx_tree demo_context) (cache_best tip_best c0) = Some 1"
    "index (ctx_tree demo_context) 1 = Some (demo_entry 1 (Some 0) (Some 0) 1 5 10)"
    using demo_tree_best f0 by (simp_all add: demo_context_def fetched_def block_best_def)
  have i0: "cache_inv tip_ok tip_coins c0" "cache_utxo tip_coins c0 = [demo_point \<mapsto> demo_coin]"
    using f0 u by (simp_all add: fetched_def)
  have fr0: "fresh (cache_utxo tip_coins c0) demo_coinbase" using fr i0 u by simp
  from tip.connect_tx_complete [OF i0(1) demo_coinbase_ok(1) fr0 _ b0, of 0 ?st 0] demo_coinbase_ok(2) demo_sigops(1)
  obtain u1 n1 f1 c1 where c1: "connect_tx demo_context tip_view ?st demo_coinbase 0 0 c0 = Inr (u1, n1, f1, c1)" by auto
  from tip.connect_tx_ok [OF c1 i0(1) demo_coinbase_ok(1) fr0] have i1: "cache_inv tip_ok tip_coins c1"
    "cache_utxo tip_coins c1 = apply_tx 2 demo_coinbase [demo_point \<mapsto> demo_coin]" "cache_best tip_best c1 = cache_best tip_best c0"
    by (simp_all add: i0(2) demo_context_def)
  have u1: "cache_utxo tip_coins c1 demo_point = Some demo_coin"
    using demo_points(1) demo_coinbase_ok(2) unfolding i1(2)
    by (auto simp: apply_tx_def with_outputs_def spent_points_def Let_def demo_coinbase_def demo_point_def)
  have fr1: "fresh (cache_utxo tip_coins c1) demo_spend_tx"
    unfolding i1(2) using fr u demo_points(3) [of 0 0] by (intro fresh_apply_tx) auto
  have n1: "n1 = 0" using c1 demo_coinbase_ok(2) demo_sigops(1) by (auto simp: connect_tx_def Let_def bindE_eq_Inr)
  have s: "sum_list (map (p2sh_sigops (cache_utxo tip_coins c1)) (vin demo_spend_tx)) = 0"
    using u1 demo_sigops(3) by (simp add: p2sh_sigops_def demo_spend_tx_def demo_coin_def Coin_of_def)
  have lim: "n1 + GetLegacySigOpCount demo_spend_tx + (if IsCoinBase demo_spend_tx then 0 else
      sum_list (map (p2sh_sigops (cache_utxo tip_coins c1)) (vin demo_spend_tx))) \<le> MaxBlockSigOps (ctx_dip0001 demo_context)"
    unfolding s n1 demo_sigops(2) by simp
  have "\<exists>u2 n2 f2 c2. connect_tx demo_context tip_view ?st demo_spend_tx n1 f1 c1 = Inr (u2, n2, f2, c2)"
    using demo_tx_connects [of "cache_utxo tip_coins c1"] u1 b0 i1(3)
    by (intro tip.connect_tx_complete [OF i1(1) demo_spend_tx_ok(1) fr1 _ _ _ lim]) (simp_all add: demo_entry_def)
  then show ?thesis using c0 c1 by (auto simp: ConnectBlock_def)
qed

subsection \<open>Properties\<close>

text \<open>Property C1. Disconnecting undoes connecting: when \<open>ConnectBlock\<close> accepts a block, through the stack of caches, then \<open>DisconnectBlock\<close> with the
  undo data it produced succeeds cleanly and gives back exactly the coins from before the block, with the previous block as
  the best one. The block has a coinbase first and only there, its transactions pass \<open>CheckTransaction\<close> and have different
  hashes.\<close>
theorem connect_disconnect:
  assumes "block_ok c" "coins_ok (block_coins c)" "valid_block vtx" "0 < ctx_height ctx" "ctx_height ctx < 2 ^ 31" "\<not> blob_IsNull blockHash"
    "ConnectBlock ctx tip_view state blockHash vtx c = Inr (vtxundo, nFees, c1)"
  shows "\<exists>c2. DisconnectBlock tip_view blockHash (ctx_height ctx) prevHash True (Some vtxundo) True vtx c1 = Inr (DISCONNECT_OK, c2) \<and>
    block_ok c2 \<and> block_coins c2 = block_coins c \<and> cache_hashBlock c2 = prevHash"
  using tip.connect_disconnect_ok [OF assms(1) [unfolded block_ok_def] assms(2) [unfolded block_coins_def] assms(3-7), of prevHash]
  unfolding block_ok_def block_coins_def .

theorem connect_disconnect_witness:
  "\<exists>vtxundo nFees c1 c2. ConnectBlock demo_context tip_view CValidationState_default (replicate 32 2) [demo_coinbase, demo_spend_tx] demo_cache = Inr (vtxundo, nFees, c1) \<and>
     DisconnectBlock tip_view (replicate 32 2) 2 (replicate 32 1) True (Some vtxundo) True [demo_coinbase, demo_spend_tx] c1 = Inr (DISCONNECT_OK, c2) \<and>
     block_coins c2 = [demo_point \<mapsto> demo_coin]"
proof -
  obtain vtxundo nFees c1 where c1: "ConnectBlock demo_context tip_view CValidationState_default (replicate 32 2) [demo_coinbase, demo_spend_tx] demo_cache = Inr (vtxundo, nFees, c1)"
    using demo_connects by auto
  have h: "0 < ctx_height demo_context" "ctx_height demo_context < 2 ^ 31" "\<not> blob_IsNull (replicate 32 2)" "ctx_height demo_context = 2"
    by (simp_all add: demo_context_def blob_IsNull_def list_all_iff)
  from connect_disconnect [OF demo_cache_ok(1) demo_coins(1) demo_block_valid h(1-3) c1, of "replicate 32 1"] show ?thesis
    using c1 unfolding h(4) demo_cache_ok(2) by blast
qed

text \<open>Property C2. A block creates money only in its coinbase: when \<open>ConnectBlock\<close> accepts a block, the value of all coins afterwards plus
  the fees it counts is at most the value of all coins before plus what the coinbase pays, with no overflow on the way.\<close>
theorem connect_no_inflation:
  assumes "block_ok c" "supply_ok (block_coins c)" "total_supply (block_coins c) \<le> MAX_MONEY" "valid_block vtx"
    "ConnectBlock ctx tip_view state blockHash vtx c = Inr (vtxundo, nFees, c1)"
  shows "total_supply (block_coins c1) + nFees \<le> total_supply (block_coins c) + sum_list (map nValue (vout (hd vtx)))"
  using tip.connect_supply_ok [OF assms(1) [unfolded block_ok_def] assms(2,3) [unfolded block_coins_def] assms(4,5)]
  unfolding block_coins_def paid_def by blast

theorem connect_no_inflation_witness:
  "\<exists>vtxundo nFees c1. ConnectBlock demo_context tip_view CValidationState_default (replicate 32 2) [demo_coinbase, demo_spend_tx] demo_cache = Inr (vtxundo, nFees, c1) \<and>
     total_supply (block_coins c1) + nFees \<le> 75 * COIN"
proof -
  obtain vtxundo nFees c1 where c1: "ConnectBlock demo_context tip_view CValidationState_default (replicate 32 2) [demo_coinbase, demo_spend_tx] demo_cache = Inr (vtxundo, nFees, c1)"
    using demo_connects by auto
  have "total_supply (block_coins demo_cache) \<le> MAX_MONEY" by (simp add: demo_coins(3) COIN_def MAX_MONEY_val)
  from connect_no_inflation [OF demo_cache_ok(1) demo_coins(2) this demo_block_valid c1] have "total_supply (block_coins c1) + nFees \<le> 75 * COIN"
    by (simp add: demo_coins(3) demo_coinbase_def)
  then show ?thesis using c1 by blast
qed

text \<open>Property C38. Restoring a coin over an existing one: \<open>ApplyTxInUndo\<close> is meant to report an unclean disconnection, but for a coin that is not
  a coinbase it passes on \<open>possible_overwrite\<close> as false and \<open>AddCoin\<close> throws.\<close>
theorem ApplyTxInUndo_overwrite_throws:
  assumes "block_ok c" "block_coins c p = Some old" "0 < coin_nHeight undo" "\<not> Coin_IsSpent undo"
    "\<not> IsUnspendable (scriptPubKey (coin_out undo))" "\<not> fCoinBase undo"
  shows "ApplyTxInUndo tip_view undo c p = Inl Coin_logic_error"
  using tip.ApplyTxInUndo_throws [OF assms(1) [unfolded block_ok_def] assms(2) [unfolded block_coins_def] assms(3-6)] .

theorem ApplyTxInUndo_overwrite_throws_witness: "ApplyTxInUndo tip_view demo_coin demo_cache demo_point = Inl Coin_logic_error"
proof (rule ApplyTxInUndo_overwrite_throws)
  show "block_ok demo_cache" by (rule demo_cache_ok)
  show "block_coins demo_cache demo_point = Some demo_coin" by (simp add: demo_cache_ok(2))
  show "\<not> Coin_IsSpent demo_coin" by (rule demo_coin_unspent)
qed (simp_all add: demo_coin_def Coin_of_def IsUnspendable_def MAX_SCRIPT_SIZE_def)

end
