(* ===== verification/Address_Index.thy ===== *)
theory Address_Index
  imports Connect
begin

text \<open>
  The optional index of addresses: the entries that \<open>ConnectBlock\<close> and \<open>DisconnectBlock\<close> of \<^verbatim>\<open>src/src/validation.cpp\<close> collect for an
  input and an output, the records of \<^verbatim>\<open>src/src/spentindex.h\<close>, and the three operations of \<^verbatim>\<open>src/src/txdb.cpp\<close> that write them, on
  a map in the place of the database.
\<close>

record CAddressIndexKey =
  aik_type :: nat
  aik_hashBytes :: bytes
  aik_blockHeight :: int
  aik_txindex :: nat
  aik_txhash :: uint256
  aik_index :: nat
  aik_spending :: bool

record CAddressUnspentKey =
  auk_type :: nat
  auk_hashBytes :: bytes
  auk_txhash :: uint256
  auk_index :: nat

record CAddressUnspentValue =
  auv_satoshis :: CAmount
  auv_script :: CScript
  auv_blockHeight :: int

text \<open>The type and the hash of the address of a script, and whether the script is a public key of its own. A null value of the
  index of unspent outputs is \<open>None\<close>.\<close>

definition script_address :: "CScript \<Rightarrow> (nat \<times> bytes) option" where
  "script_address script =
     (if IsPayToScriptHash script then Some (2, take 20 (drop 2 script))
      else if IsPayToPublicKeyHash script then Some (1, take 20 (drop 3 script))
      else if IsPayToPublicKey script then Some (1, Hash160 (butlast (drop 1 script)))
      else None)"

type_synonym index_entries = "(CAddressIndexKey \<times> CAmount) list \<times> (CAddressUnspentKey \<times> CAddressUnspentValue option) list"

definition connect_input_index :: "int \<Rightarrow> nat \<Rightarrow> uint256 \<Rightarrow> nat \<Rightarrow> COutPoint \<Rightarrow> CTxOut \<Rightarrow> index_entries" where
  "connect_input_index height i txhash j point out = (case script_address (scriptPubKey out) of None \<Rightarrow> ([], [])
     | Some (addressType, hashBytes) \<Rightarrow>
        ([(\<lparr>aik_type = addressType, aik_hashBytes = hashBytes, aik_blockHeight = height, aik_txindex = i, aik_txhash = txhash,
            aik_index = j, aik_spending = True\<rparr>, - nValue out)],
         [(\<lparr>auk_type = addressType, auk_hashBytes = hashBytes, auk_txhash = op_hash point, auk_index = unat (op_n point)\<rparr>, None)]))"

definition connect_output_index :: "int \<Rightarrow> nat \<Rightarrow> uint256 \<Rightarrow> nat \<Rightarrow> CTxOut \<Rightarrow> index_entries" where
  "connect_output_index height i txhash k out = (case script_address (scriptPubKey out) of None \<Rightarrow> ([], [])
     | Some (addressType, hashBytes) \<Rightarrow>
        ([(\<lparr>aik_type = addressType, aik_hashBytes = hashBytes, aik_blockHeight = height, aik_txindex = i, aik_txhash = txhash,
            aik_index = k, aik_spending = False\<rparr>, nValue out)],
         [(\<lparr>auk_type = addressType, auk_hashBytes = hashBytes, auk_txhash = txhash, auk_index = k\<rparr>,
           Some \<lparr>auv_satoshis = nValue out, auv_script = scriptPubKey out, auv_blockHeight = height\<rparr>)]))"

definition disconnect_output_index :: "int \<Rightarrow> nat \<Rightarrow> uint256 \<Rightarrow> nat \<Rightarrow> CTxOut \<Rightarrow> index_entries" where
  "disconnect_output_index height i txhash k out = (case script_address (scriptPubKey out) of None \<Rightarrow> ([], [])
     | Some (addressType, hashBytes) \<Rightarrow>
        ([(\<lparr>aik_type = addressType, aik_hashBytes = hashBytes, aik_blockHeight = height, aik_txindex = i, aik_txhash = txhash,
            aik_index = k, aik_spending = False\<rparr>, nValue out)],
         [(\<lparr>auk_type = addressType, auk_hashBytes = hashBytes, auk_txhash = txhash, auk_index = k\<rparr>, None)]))"

text \<open>The branch for a script that is a public key differs from the other two.\<close>

definition disconnect_input_index :: "int \<Rightarrow> nat \<Rightarrow> uint256 \<Rightarrow> nat \<Rightarrow> COutPoint \<Rightarrow> CTxOut \<Rightarrow> int \<Rightarrow> index_entries" where
  "disconnect_input_index height i txhash j point out undoHeight = (case script_address (scriptPubKey out) of None \<Rightarrow> ([], [])
     | Some (addressType, hashBytes) \<Rightarrow>
        if IsPayToScriptHash (scriptPubKey out) \<or> IsPayToPublicKeyHash (scriptPubKey out) then
          ([(\<lparr>aik_type = addressType, aik_hashBytes = hashBytes, aik_blockHeight = height, aik_txindex = i, aik_txhash = txhash,
              aik_index = j, aik_spending = True\<rparr>, - nValue out)],
           [(\<lparr>auk_type = addressType, auk_hashBytes = hashBytes, auk_txhash = op_hash point, auk_index = unat (op_n point)\<rparr>,
             Some \<lparr>auv_satoshis = nValue out, auv_script = scriptPubKey out, auv_blockHeight = undoHeight\<rparr>)])
        else
          ([(\<lparr>aik_type = 1, aik_hashBytes = hashBytes, aik_blockHeight = height, aik_txindex = i, aik_txhash = txhash,
              aik_index = j, aik_spending = False\<rparr>, nValue out)],
           [(\<lparr>auk_type = 1, auk_hashBytes = hashBytes, auk_txhash = txhash, auk_index = j\<rparr>, None)]))"

definition WriteAddressIndex :: "(CAddressIndexKey \<times> CAmount) list \<Rightarrow> (CAddressIndexKey \<rightharpoonup> CAmount) \<Rightarrow> CAddressIndexKey \<rightharpoonup> CAmount" where
  "WriteAddressIndex vect db = fold (\<lambda>(k, v) db. db(k \<mapsto> v)) vect db"

definition EraseAddressIndex :: "(CAddressIndexKey \<times> CAmount) list \<Rightarrow> (CAddressIndexKey \<rightharpoonup> CAmount) \<Rightarrow> CAddressIndexKey \<rightharpoonup> CAmount" where
  "EraseAddressIndex vect db = fold (\<lambda>(k, v) db. db(k := None)) vect db"

definition UpdateAddressUnspentIndex ::
  "(CAddressUnspentKey \<times> CAddressUnspentValue option) list \<Rightarrow> (CAddressUnspentKey \<rightharpoonup> CAddressUnspentValue) \<Rightarrow> CAddressUnspentKey \<rightharpoonup> CAddressUnspentValue" where
  "UpdateAddressUnspentIndex vect db = fold (\<lambda>(k, v) db. db(k := v)) vect db"

text \<open>For the other scripts, and for all outputs, erasing removes what was written, and the unspent entry comes back.\<close>

lemma disconnect_output_index_erases:
  "map fst (fst (disconnect_output_index height i txhash k out)) = map fst (fst (connect_output_index height i txhash k out)) \<and>
   map fst (snd (disconnect_output_index height i txhash k out)) = map fst (snd (connect_output_index height i txhash k out))"
  by (simp add: disconnect_output_index_def connect_output_index_def split: option.splits prod.splits)

lemma disconnect_input_index_erases:
  assumes "\<not> IsPayToPublicKey (scriptPubKey out)" "op_n point = of_nat k" "k < 2 ^ 32"
  shows "fst (disconnect_input_index height i txhash j point out undoHeight) = fst (connect_input_index height i txhash j point out) \<and>
    snd (disconnect_input_index height i txhash j point out undoHeight) = snd (connect_output_index undoHeight l (op_hash point) k out)"
  using assms
  by (auto simp: disconnect_input_index_def connect_input_index_def connect_output_index_def script_address_def unat_of_nat
      split: option.splits if_splits)

lemma pubkey_script_not_hash: "IsPayToPublicKey s \<Longrightarrow> \<not> IsPayToScriptHash s \<and> \<not> IsPayToPublicKeyHash s"
  by (auto simp: IsPayToPublicKey_def IsPayToScriptHash_def IsPayToPublicKeyHash_def split: if_splits)

text \<open>Property C39. Disconnecting a transaction that spends a pay-to-public-key output leaves the address index wrong: the entry for the spend that
  connecting wrote stays in the index with its negative amount, because the entry erased is one for a received amount, and
  the output is not put back into the index of unspent outputs.\<close>
theorem p2pk_spend_stays_in_index:
  assumes "IsPayToPublicKey (scriptPubKey out)" "op_hash point \<noteq> txhash"
  shows "\<exists>key ukey. connect_input_index height i txhash j point out = ([(key, - nValue out)], [(ukey, None)]) \<and>
    EraseAddressIndex (fst (disconnect_input_index height i txhash j point out undoHeight))
      (WriteAddressIndex (fst (connect_input_index height i txhash j point out)) db) key = Some (- nValue out) \<and>
    UpdateAddressUnspentIndex (snd (disconnect_input_index height i txhash j point out undoHeight))
      (UpdateAddressUnspentIndex (snd (connect_input_index height i txhash j point out)) udb) ukey = None"
  using assms pubkey_script_not_hash [OF assms(1)]
  by (simp add: connect_input_index_def disconnect_input_index_def script_address_def EraseAddressIndex_def WriteAddressIndex_def
      UpdateAddressUnspentIndex_def)

theorem p2pk_spend_stays_in_index_witness:
  "\<exists>key ukey. EraseAddressIndex (fst (disconnect_input_index 9 1 (replicate 32 1) 0 demo_point
      \<lparr>nValue = 5, scriptPubKey = 33 # 2 # replicate 32 9 @ [172], nRounds = - 10\<rparr> 8))
    (WriteAddressIndex (fst (connect_input_index 9 1 (replicate 32 1) 0 demo_point
      \<lparr>nValue = 5, scriptPubKey = 33 # 2 # replicate 32 9 @ [172], nRounds = - 10\<rparr>)) (\<lambda>_. None)) key = Some (- 5)"
proof -
  let ?out = "\<lparr>nValue = 5, scriptPubKey = 33 # 2 # replicate 32 9 @ [172], nRounds = - 10\<rparr> :: CTxOut"
  have "IsPayToPublicKey (scriptPubKey ?out)" by (simp add: IsPayToPublicKey_def nth_append nth_Cons')
  moreover have "op_hash demo_point \<noteq> replicate 32 1" by (simp add: demo_point_def)
  ultimately obtain key where "EraseAddressIndex (fst (disconnect_input_index 9 1 (replicate 32 1) 0 demo_point ?out 8))
    (WriteAddressIndex (fst (connect_input_index 9 1 (replicate 32 1) 0 demo_point ?out)) (\<lambda>_. None)) key = Some (- nValue ?out)"
    using p2pk_spend_stays_in_index [of ?out demo_point "replicate 32 1" 9 1 0 8 "\<lambda>_. None" "\<lambda>_. None"] by blast
  then show ?thesis by (intro exI) simp
qed

end
