(* ===== verification/Spec2Isabelle.thy ===== *)
theory Spec2Isabelle
  imports Prelude Arith_Uint256 Serialize Chain Params Pow Versionbits Block_Hash Hash Script Transaction Merkle Interpreter Sighash Coins Hex Tx_Verify Connect Address_Index
begin

text \<open>
  Verification of the consensus core of Trivechain, a full node derived from Bitcoin and Dash. All file names below are under
  \<^verbatim>\<open>src/src\<close>.

  \<^bold>\<open>How the parts interact.\<close> A header that arrives is checked for proof of work (\<open>Pow\<close>) and added to the tree of block
  index entries (\<open>Chain\<close>), whose arithmetic on work and targets is that of \<open>Arith_Uint256\<close>. Deployed rules are switched
  on by the votes counted over that tree (\<open>Versionbits\<close>). A block is connected to the set of unspent coins
  (\<open>Connect\<close> over \<open>Coins\<close>): each transaction (\<open>Transaction\<close>, written and read by the formats of \<open>Serialize\<close>) is checked by itself and
  against the coins it spends (\<open>Tx_Verify\<close>), which runs its scripts (\<open>Script\<close>, \<open>Interpreter\<close>) on signature hashes (\<open>Sighash\<close>) computed by the
  hashers (\<open>Block_Hash\<close>, \<open>Hash\<close>). When the best branch changes, blocks are disconnected with the undo data that
  connecting produced, and the optional address index follows (\<open>Address_Index\<close>).

  \<^bold>\<open>Theories.\<close>
  \<^item> \<open>Prelude\<close>: names of machine integers, collections of rewrite rules, sequencing \<open>bindE\<close> of fallible computations,
    pointers, binary search, facts on words read as numbers.
  \<^item> \<open>Arith_Uint256\<close> (\<^verbatim>\<open>arith_uint256.h\<close>, \<^verbatim>\<open>arith_uint256.cpp\<close>): a number is its list of 32-bit limbs, every operator the
    carry loop of the source. \<open>limbs_val\<close> maps limbs to natural numbers. The lemmas show that each operator is the operation modulo
    \<open>2^256\<close>, that long division is division, and what the compact encoding keeps. Locale \<open>uint_ops\<close> is the contract of the clients.
  \<^item> \<open>Serialize\<close> (\<^verbatim>\<open>serialize.h\<close>, \<^verbatim>\<open>crypto/common.h\<close>): a stream is the list of bytes to be read; a read returns value and
    rest, or the exception. Locales \<open>codec\<close> and \<open>codec_exact\<close> state round trip and uniqueness of encodings and are
    interpreted on every format here and in \<open>Transaction\<close>.
  \<^item> \<open>Chain\<close> (\<^verbatim>\<open>chain.h\<close>, \<^verbatim>\<open>chain.cpp\<close>, \<open>AddToBlockIndex\<close>, \<open>CBlockIndexWorkComparator\<close> and \<open>FindForkInGlobalIndex\<close> of \<^verbatim>\<open>validation.cpp\<close>): entries live in
    an explicit store from addresses. \<open>wf_index\<close> and \<open>wf_tree\<close> are the invariants; adding a header keeps them; skip-list walks
    equal walks along \<open>pprev\<close>; \<open>SetTip\<close>, \<open>FindFork\<close> and locators do what they promise.
  \<^item> \<open>Params\<close> (\<^verbatim>\<open>consensus/params.h\<close>, \<^verbatim>\<open>consensus/consensus.h\<close>) and \<open>Pow\<close> (\<^verbatim>\<open>pow.cpp\<close>): Dark Gravity Wave as a formula on numbers,
    bounds of the new target, the check of a hash against its target.
  \<^item> \<open>Versionbits\<close> (\<^verbatim>\<open>versionbits.cpp\<close>): the threshold state machine with its cache against the state machine of BIP9
    computed from the first block; activation is final, votes end, a cache stays right when headers arrive, and the state of a new block follows from that of its parent.
  \<^item> \<open>Block_Hash\<close> (\<^verbatim>\<open>crypto/sha256.cpp\<close>, \<^verbatim>\<open>sha512.cpp\<close>, \<^verbatim>\<open>sha1.cpp\<close>, \<^verbatim>\<open>ripemd160.cpp\<close>, \<^verbatim>\<open>hmac_*.cpp\<close>) and \<open>Hash\<close> (\<^verbatim>\<open>hash.h\<close>, \<^verbatim>\<open>hash.cpp\<close>):
    buffered hashers in the locale \<open>block_hasher\<close>, whose result depends only on the bytes written, against the
    specifications of FIPS 180-4 and RFC 2104; double hashes, MurmurHash3, SipHash.
  \<^item> \<open>Hex\<close> (\<^verbatim>\<open>utilstrencodings.cpp\<close>, \<^verbatim>\<open>uint256.cpp\<close>): hexadecimal text and its round trips.
  \<^item> \<open>Transaction\<close> (\<^verbatim>\<open>amount.h\<close>, \<^verbatim>\<open>amount.cpp\<close>, \<^verbatim>\<open>primitives/transaction.h\<close>, \<^verbatim>\<open>primitives/transaction.cpp\<close>): amounts, both
    transaction classes, wire formats, value sums, dust, BIP69 orders.
  \<^item> \<open>Merkle\<close> (\<^verbatim>\<open>consensus/merkle.cpp\<close>): the constant-space computation of a Merkle root against the tree defined by halving, its
    mutation flag as equality of complete siblings, branches that lead back to the root, and that an unflagged root determines its
    leaves when no hashed pairs collide.
  \<^item> \<open>Script\<close> (\<^verbatim>\<open>script/script.h\<close>, \<^verbatim>\<open>script/script.cpp\<close>), \<open>Interpreter\<close> (first half of \<^verbatim>\<open>script/interpreter.cpp\<close>) and \<open>Sighash\<close> (second half, with the
    byte layout of \<^verbatim>\<open>pubkey.h\<close>): every opcode; limits, termination, what the standard output forms accept, what a
    signature commits to.
  \<^item> \<open>Coins\<close> (\<^verbatim>\<open>coins.h\<close>, \<^verbatim>\<open>coins.cpp\<close>, \<open>CCoinsViewDB\<close> of \<^verbatim>\<open>txdb.cpp\<close>): locale \<open>coins_view_laws\<close> is what a view of the coins promises. The
    database keeps it, and a cache over a view that keeps it keeps it, so every lemma of a client holds for the
    stack of caches the node uses (interpretations \<open>db\<close> and \<open>tip\<close>).
  \<^item> \<open>Tx_Verify\<close> (\<^verbatim>\<open>consensus/validation.h\<close>, \<^verbatim>\<open>script/script_error.cpp\<close> and, of \<^verbatim>\<open>validation.cpp\<close>, the checks of transactions, inputs, lock times and
    script failures).
  \<^item> \<open>Connect\<close> (of \<^verbatim>\<open>validation.cpp\<close>: \<open>UpdateCoins\<close>, \<open>ConnectBlock\<close>, \<open>ApplyTxInUndo\<close>, \<open>DisconnectBlock\<close>): disconnecting undoes connecting,
    and only a coinbase creates money.
  \<^item> \<open>Address_Index\<close> (\<^verbatim>\<open>spentindex.h\<close>, three operations of \<^verbatim>\<open>txdb.cpp\<close>, the index parts of \<open>ConnectBlock\<close> and \<open>DisconnectBlock\<close>).

  \<^bold>\<open>Parameters.\<close> The X16R hash of a header, the verification of a signature and the low-S test of libsecp256k1, the undo data
  read from disk, the outcome of the EvoDB and special-transaction steps. No property assumes more of them than its statement says.

  \<^bold>\<open>Termination and bounds.\<close> Most loops are structural or have a measure (the height in skip-list walks, the unread script in the
  interpreter, the unread bytes in readers). Loops that follow pointers through the store end only in a well-formed one, so they take
  a bound that their caller computes: \<open>SetTip_loop\<close>, \<open>FindFork_loop\<close>, \<open>GetLocator_loop\<close>, \<open>walk_back\<close>, \<open>since_loop\<close> and
  \<open>window_loop\<close> the height of the entry they start from plus one or two, \<open>FixedVarInts_read\<close> the length of the stream plus one. Running out is the
  error \<open>OutOfFuel\<close> (for the reader the exception at the end of the stream), and every theorem on them concludes a result \<open>Inr\<close>, so the bounds are
  enough. Fixed widths are words; \<open>int\<close> members of the code are integers with the wrap-around \<open>int64\<close>, \<open>as_int\<close> or \<open>mod\<close> written out where
  unchecked values are added or narrowed. A \<open>CScriptNum\<close> is an unbounded integer: the interpreter reads operands of at most 5 bytes.

  \<^bold>\<open>Not modelled.\<close> Sockets, threads, files, LevelDB itself, user interfaces and the wallet are effects outside the
  logic. Elliptic-curve and BLS operations and the sixteen hash algorithms of X16R belong to libraries or are only composed by the node.
  The deterministic masternode list, quorums, governance, sporks and InstantSend depend on them and on messages of peers. The memory
  pool, block files and pruning, standardness policy, base 32, 58 and 64 text, Bloom filters, partial merkle trees and compressed coin
  storage are left for later work.
\<close>

end
